(* ===== verification/Prelude.thy ===== *)
theory Prelude imports Main "HOL-Library.Word" begin

text \<open>
  What the components share: the Go integer widths the code depends on, the panics of the Go
  runtime as values, and generic lemmas on lists and sums.

  A Go \<^verbatim>\<open>string\<close> or \<^verbatim>\<open>[]byte\<close> is a HOL \<open>string\<close>, a list of bytes. A Go integer is an
  \<open>int\<close> whose wrap-around is written out with \<open>i32\<close>, \<open>i64\<close>, \<open>i8\<close> and \<open>u8\<close> where the code adds,
  multiplies or converts.
\<close>

named_theorems go_simps "simplification rules shared by the components"

subsection \<open>Fixed-width integers\<close>

definition i8 :: "int \<Rightarrow> int" where
  "i8 x = signed_take_bit 7 x"

definition i32 :: "int \<Rightarrow> int" where
  "i32 x = signed_take_bit 31 x"

definition i64 :: "int \<Rightarrow> int" where
  "i64 x = signed_take_bit 63 x"

definition u8 :: "int \<Rightarrow> int" where
  "u8 x = take_bit 8 x"

lemma i8_id [go_simps]: "- 128 \<le> x \<Longrightarrow> x < 128 \<Longrightarrow> i8 x = x"
  by (simp add: i8_def signed_take_bit_int_eq_self)

lemma i32_id [go_simps]: "- (2 ^ 31) \<le> x \<Longrightarrow> x < 2 ^ 31 \<Longrightarrow> i32 x = x"
  by (simp add: i32_def signed_take_bit_int_eq_self)

lemma i64_id [go_simps]: "- (2 ^ 63) \<le> x \<Longrightarrow> x < 2 ^ 63 \<Longrightarrow> i64 x = x"
  by (simp add: i64_def signed_take_bit_int_eq_self)

lemma u8_id [go_simps]: "0 \<le> x \<Longrightarrow> x < 256 \<Longrightarrow> u8 x = x"
  by (simp add: u8_def take_bit_int_eq_self)

lemma i32_word: "i32 x = sint (word_of_int x :: 32 word)"
  by (simp add: i32_def sint_sbintrunc')

lemma i32_range: "- (2 ^ 31) \<le> i32 x \<and> i32 x < 2 ^ 31"
  unfolding i32_def
  using signed_take_bit_int_greater_eq_minus_exp [of 31 x] signed_take_bit_int_less_exp [of 31 x]
  by simp

subsection \<open>Panics\<close>

text \<open>The ways the Go runtime can panic in the modelled code.\<close>

datatype panic =
    IndexOutOfRange
  | NilDereference
  | TruncateOutOfRange
  | TypeAssertion
  | CloseOfClosedChannel

subsection \<open>Generic lemmas\<close>

lemma map_sum_Inr_iff: "map_sum f g x = Inr y \<longleftrightarrow> (\<exists>z. x = Inr z \<and> y = g z)"
  by (cases x) auto

lemma map_sum_Inl_iff: "map_sum f g x = Inl y \<longleftrightarrow> (\<exists>z. x = Inl z \<and> y = f z)"
  by (cases x) auto

lemma list_all_drop_update:
  assumes "list_all P (drop f cs)" "f \<le> k \<Longrightarrow> k < length cs \<Longrightarrow> P (cs ! k) \<Longrightarrow> P x"
  shows "list_all P (drop f (cs[k := x]))"
proof (cases "f \<le> k \<and> k < length cs")
  case True
  then have "P (cs ! k)" using assms(1) by (auto simp: list_all_length dest: spec [of _ "k - f"])
  with True assms show ?thesis
    by (auto simp: list_all_iff drop_update_swap dest!: set_update_subset_insert [THEN subsetD])
next
  case False
  then show ?thesis
    using assms(1) by (cases "k < length cs") (auto simp: list_update_beyond)
qed

lemmas list_all_update = list_all_drop_update [where f = 0, simplified]

subsection \<open>Invariants of step relations\<close>

text \<open>What every step keeps holds in all states that can be reached.\<close>

locale step_invariant =
  fixes step :: "'s \<Rightarrow> 's \<Rightarrow> bool" and I :: "'s \<Rightarrow> bool"
  assumes kept: "step s s' \<Longrightarrow> I s \<Longrightarrow> I s'"
begin

lemma reachable: "step\<^sup>*\<^sup>* s s' \<Longrightarrow> I s \<Longrightarrow> I s'"
  by (induction rule: rtranclp_induct) (auto intro: kept)

end

end
