(* ===== verification/Float64.thy ===== *)
theory Float64 imports GoStrings begin

text \<open>
  Go's \<^verbatim>\<open>float64\<close> and \<^verbatim>\<open>strconv.ParseFloat(s, 64)\<close>, as far as the expression compiler uses
  them: parsing a term, and the comparisons of IEEE 754. A finite value is \<open>Fin m e\<close> for
  \<open>m * 2 ^ e\<close>; the sign of a zero is dropped, no comparison sees it. Parsing is exact:
  the digits are read as a fraction and rounded once, to nearest with ties to even, which is
  what \<^verbatim>\<open>ParseFloat\<close> documents. A range error is \<open>None\<close>, as a syntax error is: the callers
  only ask whether \<^verbatim>\<open>err\<close> is \<^verbatim>\<open>nil\<close>.
\<close>

datatype float64 = NaN | Infinite bool | Fin int int

definition pow2 :: "int \<Rightarrow> int" where
  "pow2 k = 2 ^ nat k"

text \<open>Two finite values scaled to their smaller exponent.\<close>

definition fin_le :: "int \<Rightarrow> int \<Rightarrow> int \<Rightarrow> int \<Rightarrow> bool" where
  "fin_le m e m' e' = (let k = min e e' in m * pow2 (e - k) \<le> m' * pow2 (e' - k))"

fun f64_le :: "float64 \<Rightarrow> float64 \<Rightarrow> bool" where
  "f64_le NaN y = False"
| "f64_le x NaN = False"
| "f64_le (Infinite neg) y = (neg \<or> y = Infinite False)"
| "f64_le x (Infinite neg) = (\<not> neg)"
| "f64_le (Fin m e) (Fin m' e') = fin_le m e m' e'"

definition f64_eq :: "float64 \<Rightarrow> float64 \<Rightarrow> bool" where
  "f64_eq x y = (f64_le x y \<and> f64_le y x)"

definition f64_lt :: "float64 \<Rightarrow> float64 \<Rightarrow> bool" where
  "f64_lt x y = (f64_le x y \<and> \<not> f64_le y x)"

subsection \<open>Rounding\<close>

function bit_len :: "int \<Rightarrow> int" where
  "bit_len n = (if n \<le> 0 then 0 else 1 + bit_len (n div 2))"
  by pat_completeness auto
termination
  by (relation "measure nat") auto

declare bit_len.simps [simp del]

text \<open>\<open>n / d\<close> rounded to 53 bits, exponents from \<open>-1074\<close>; \<open>None\<close> from \<open>2 ^ 1024\<close> on.\<close>

definition round_div :: "int \<Rightarrow> int \<Rightarrow> int" where
  "round_div n d =
     (let q = n div d; r = n mod d
      in if 2 * r > d \<or> (2 * r = d \<and> odd q) then q + 1 else q)"

definition f64_round :: "int \<Rightarrow> int \<Rightarrow> (int \<times> int) option" where
  "f64_round n d =
     (if n = 0 then Some (0, 0)
      else let k = bit_len n - bit_len d;
               fl = (if n * pow2 (- k) < d * pow2 k then k - 1 else k);
               e = max (fl - 52) (- 1074);
               q = round_div (n * pow2 (- e)) (d * pow2 e)
           in if 971 < e \<or> (e = 971 \<and> 2 ^ 53 \<le> q) then None else Some (q, e))"

subsection \<open>Reading a number\<close>

definition byte :: "char \<Rightarrow> nat" where
  "byte c = of_char c"

definition is_digit :: "char \<Rightarrow> bool" where
  "is_digit c = (48 \<le> byte c \<and> byte c \<le> 57)"

text \<open>The value of a digit in base 10 or 16.\<close>

definition digit_val :: "bool \<Rightarrow> char \<Rightarrow> int option" where
  "digit_val hex c =
     (if is_digit c then Some (int (byte c) - 48)
      else if hex \<and> 97 \<le> byte c \<and> byte c \<le> 102 then Some (int (byte c) - 87)
      else if hex \<and> 65 \<le> byte c \<and> byte c \<le> 70 then Some (int (byte c) - 55)
      else None)"

text \<open>
  The digits of a mantissa: its value, the number of digits after the dot, whether a dot, a
  digit and an underscore were seen, and the rest.
\<close>

fun mantissa :: "bool \<Rightarrow> string \<Rightarrow> int \<Rightarrow> int \<Rightarrow> bool \<Rightarrow> bool \<Rightarrow> bool
    \<Rightarrow> int \<times> int \<times> bool \<times> bool \<times> string" where
  "mantissa hex [] m f dot dig us = (m, f, dig, us, [])"
| "mantissa hex (c # cs) m f dot dig us =
     (if c = CHR ''_'' then mantissa hex cs m f dot dig True
      else if c = CHR ''.'' then
        (if dot then (m, f, dig, us, c # cs) else mantissa hex cs m f True dig us)
      else (case digit_val hex c of
              None \<Rightarrow> (m, f, dig, us, c # cs)
            | Some v \<Rightarrow> mantissa hex cs (m * (if hex then 16 else 10) + v)
                          (if dot then f + 1 else f) dot True us))"

text \<open>The digits of an exponent, which stops growing at 10000.\<close>

fun exponent :: "string \<Rightarrow> int \<Rightarrow> bool \<Rightarrow> int \<times> bool \<times> string" where
  "exponent [] e us = (e, us, [])"
| "exponent (c # cs) e us =
     (if c = CHR ''_'' then exponent cs e True
      else if is_digit c then
        exponent cs (if e < 10000 then e * 10 + (int (byte c) - 48) else e) us
      else (e, us, c # cs))"

definition strip_sign :: "string \<Rightarrow> bool \<times> string" where
  "strip_sign s =
     (case s of
        [] \<Rightarrow> (False, [])
      | c # cs \<Rightarrow> if c = CHR ''+'' then (False, cs)
                   else if c = CHR ''-'' then (True, cs) else (False, s))"

text \<open>\<^verbatim>\<open>underscoreOK\<close>: underscores separate digits; \<open>saw\<close> is the last character seen.\<close>

fun underscore_scan :: "bool \<Rightarrow> string \<Rightarrow> char \<Rightarrow> bool" where
  "underscore_scan hex [] saw = (saw \<noteq> CHR ''_'')"
| "underscore_scan hex (c # cs) saw =
     (if digit_val hex c \<noteq> None then underscore_scan hex cs (CHR ''0'')
      else if c = CHR ''_'' then saw = CHR ''0'' \<and> underscore_scan hex cs (CHR ''_'')
      else saw \<noteq> CHR ''_'' \<and> underscore_scan hex cs (CHR ''!''))"

definition underscoreOK :: "string \<Rightarrow> bool" where
  "underscoreOK s =
     (let s = snd (strip_sign s)
      in case s of
           a # b # cs \<Rightarrow>
             if a = CHR ''0'' \<and> List.member ''bBoOxX'' b
             then underscore_scan (List.member ''xX'' b) cs (CHR ''0'')
             else underscore_scan False s (CHR ''^'')
         | _ \<Rightarrow> underscore_scan False s (CHR ''^''))"

text \<open>Sign, magnitude as a fraction, from a decimal or hexadecimal literal; the whole string.\<close>

definition opt_exponent :: "bool \<Rightarrow> string \<Rightarrow> bool \<Rightarrow> (int \<times> bool) option" where
  "opt_exponent hex s us =
     (case s of
        c # cs \<Rightarrow>
          if c = (if hex then CHR ''p'' else CHR ''e'') \<or> c = (if hex then CHR ''P'' else CHR ''E'')
          then (let (neg, ds) = strip_sign cs
                in case ds of
                     [] \<Rightarrow> None
                   | d # _ \<Rightarrow>
                       if \<not> is_digit d then None
                       else (let (e, us', rest) = exponent ds 0 us
                             in if rest = [] then Some (if neg then - e else e, us') else None))
          else None
      | [] \<Rightarrow> if hex then None else Some (0, us))"

definition read_float :: "string \<Rightarrow> (bool \<times> int \<times> int) option" where
  "read_float s =
     (let (neg, t) = strip_sign s;
          hex = (length t > 2 \<and> t ! 0 = CHR ''0'' \<and> List.member ''xX'' (t ! 1));
          (m, f, dig, us, rest) = mantissa hex (if hex then drop 2 t else t) 0 0 False False False
      in if \<not> dig then None
         else (case opt_exponent hex rest us of
                 None \<Rightarrow> None
               | Some (e, us') \<Rightarrow>
                   if us' \<and> \<not> underscoreOK s then None
                   else if m = 0 then Some (neg, 0, 1)
                   else if hex then Some (neg, m * pow2 (e - 4 * f), pow2 (4 * f - e))
                   else Some (neg, m * 10 ^ nat (e - f), 10 ^ nat (f - e))))"

definition ParseFloat :: "string \<Rightarrow> float64 option" where
  "ParseFloat s =
     (let (neg, t) = strip_sign s
      in if List.member [''INF'', ''INFINITY''] (ToUpper t) then Some (Infinite neg)
         else if ToUpper s = ''NAN'' then Some NaN
         else (case read_float s of
                 None \<Rightarrow> None
               | Some (neg, n, d) \<Rightarrow>
                   (case f64_round n d of
                      None \<Rightarrow> None
                    | Some (m, e) \<Rightarrow> Some (Fin (if neg then - m else m) e))))"

end
