(* ===== verification/ExprState.thy ===== *)
theory ExprState imports Float64 begin

text \<open>
  The builder interface of \<^verbatim>\<open>expr.go\<close> and the parse state of \<^verbatim>\<open>expr_parse_state.go\<close>.
  An \<open>ExprBuilder\<close> is the record of a builder's methods over its state \<open>'b\<close>; a method that
  mutates the receiver returns the new state. \<open>exprParseState\<close> is the struct of that name; the
  buffers \<^verbatim>\<open>buf\<close> and \<^verbatim>\<open>field\<close> are their contents.
\<close>

record ('b, 'e) ExprBuilder =
  Build :: "'b \<Rightarrow> 'e"
  GroupStart :: "'b \<Rightarrow> 'b"
  GroupEnd :: "'b \<Rightarrow> 'b"
  Operator :: "string \<Rightarrow> 'b \<Rightarrow> 'b"
  Text :: "string \<Rightarrow> string \<Rightarrow> bool \<Rightarrow> bool \<Rightarrow> 'b \<Rightarrow> 'b"
  Number :: "string \<Rightarrow> string \<Rightarrow> float64 \<Rightarrow> 'b \<Rightarrow> 'b"
  Between :: "string \<Rightarrow> float64 \<Rightarrow> float64 \<Rightarrow> 'b \<Rightarrow> 'b"
  TextIn :: "string \<Rightarrow> string list \<Rightarrow> 'b \<Rightarrow> 'b"
  NumberIn :: "string \<Rightarrow> float64 list \<Rightarrow> 'b \<Rightarrow> 'b"

record 'b exprParseState =
  builder :: 'b
  inQuote :: bool
  inArray :: bool
  operator :: string
  arrayParts :: "string list"
  dirty :: bool
  buf :: string
  fieldbuf :: string

text \<open>
  The ways a parse fails: the three errors the code returns, with their text's variable part
  (\<open>InvalidExpression\<close> joins the error of the inner group), and a panic of the Go runtime.
\<close>

datatype expr_error =
    UnexpectedBracket nat
  | UnexpectedColon nat
  | InvalidClause string
  | InvalidExpression string expr_error
  | ExprPanic panic

definition addOperator :: "('b, 'e) ExprBuilder \<Rightarrow> 'b exprParseState \<Rightarrow> 'b exprParseState" where
  "addOperator B s =
     (let s = (if dirty s
               then s\<lparr>builder := Operator B (if operator s = '''' then ''AND'' else operator s)
                                   (builder s)\<rparr>
               else s)
      in s\<lparr>operator := ''''\<rparr>)"

definition fieldName :: "'b exprParseState \<Rightarrow> string" where
  "fieldName s = (if length (fieldbuf s) > 0 then fieldbuf s else ''msg'')"

text \<open>The numbers and the texts among the parts of an array, each in its order.\<close>

fun split_parts :: "string list \<Rightarrow> string list \<times> float64 list" where
  "split_parts [] = ([], [])"
| "split_parts (v # vs) =
     (let (texts, numbers) = split_parts vs
      in case ParseFloat v of
           Some n \<Rightarrow> (texts, n # numbers)
         | None \<Rightarrow> (v # texts, numbers))"

text \<open>The calls \<^verbatim>\<open>closeArray\<close> makes for a list of values (the branch that is not a range).\<close>

definition array_values ::
  "('b, 'e) ExprBuilder \<Rightarrow> string \<Rightarrow> string list \<Rightarrow> 'b \<Rightarrow> 'b" where
  "array_values B fld parts b =
     (let (textArgs, numberArgs) = split_parts parts;
          group = (length numberArgs > 0 \<and> length textArgs > 0);
          b = (if group then GroupStart B b else b);
          b = (if length numberArgs > 0
               then (if length numberArgs = 1 then Number B fld ''='' (numberArgs ! 0) b
                     else NumberIn B fld numberArgs b)
               else b);
          b = (if group then Operator B ''OR'' b else b);
          b = (if length textArgs > 0 then TextIn B fld textArgs b else b)
      in if group then GroupEnd B b else b)"

definition closeArray ::
  "('b, 'e) ExprBuilder \<Rightarrow> 'b exprParseState \<Rightarrow> expr_error + 'b exprParseState" where
  "closeArray B s =
     (if \<not> inArray s then Inr s
      else let s = s\<lparr>inArray := False\<rparr>
      in if length (arrayParts s) = 0 then Inr s
      else let s = addOperator B s; fld = fieldName s; parts = arrayParts s
      in if length parts = 3 \<and> parts ! 1 = ''TO''
         then (case ParseFloat (parts ! 0) of
                 None \<Rightarrow> Inl (InvalidClause (concat parts))
               | Some x \<Rightarrow>
                   (case ParseFloat (parts ! 2) of
                      None \<Rightarrow> Inl (InvalidClause (concat parts))
                    | Some y \<Rightarrow>
                        Inr (s\<lparr>builder := Between B fld x y (builder s),
                               dirty := True, arrayParts := []\<rparr>)))
         else Inr (s\<lparr>builder := array_values B fld parts (builder s),
                     dirty := True, arrayParts := []\<rparr>))"

definition is_wildcard :: "string \<Rightarrow> bool" where
  "is_wildcard text = (contains_byte text CHR ''*'' \<or> contains_byte text CHR ''?'')"

text \<open>
  The condition of a term that starts with \<^verbatim>\<open><\<close> or \<^verbatim>\<open>>\<close> and the rest of it: the first of the
  four conditions, in the code's order, that is a prefix.
\<close>

definition split_condition :: "string \<Rightarrow> string \<times> string" where
  "split_condition text =
     (case find (HasPrefix text) [''>='', ''>'', ''<='', ''<''] of
        Some cond \<Rightarrow> (cond, TrimPrefix text cond)
      | None \<Rightarrow> ('''', ''''))"

text \<open>The number a term of a named field stands for, with its condition.\<close>

definition numeric_term :: "string \<Rightarrow> (string \<times> float64) option" where
  "numeric_term text =
     (if HasPrefix text ''>'' \<or> HasPrefix text ''<''
      then (let (cond, numberStr) = split_condition text
            in map_option (Pair cond) (ParseFloat numberStr))
      else map_option (Pair ''='') (ParseFloat (TrimSpace text)))"

definition addTermSingle :: "('b, 'e) ExprBuilder \<Rightarrow> 'b exprParseState \<Rightarrow> 'b exprParseState" where
  "addTermSingle B s =
     (if inArray s
      then (if length (buf s) > 0
            then s\<lparr>arrayParts := arrayParts s @ [buf s], buf := ''''\<rparr> else s\<lparr>buf := ''''\<rparr>)
      else if length (buf s) > 0
      then (let text = buf s; textUpper = ToUpper text
            in if textUpper = ''AND'' \<or> textUpper = ''OR''
               then s\<lparr>operator := textUpper, buf := ''''\<rparr>
               else (let s = addOperator B s;
                         num = (if length (fieldbuf s) > 0 then numeric_term text else None);
                         b = (case num of
                                Some (cond, n) \<Rightarrow> Number B (fieldName s) cond n (builder s)
                              | None \<Rightarrow> Text B (fieldName s) text False (is_wildcard text) (builder s))
                     in s\<lparr>builder := b, dirty := True, buf := '''', fieldbuf := ''''\<rparr>))
      else s\<lparr>buf := '''', fieldbuf := ''''\<rparr>)"

definition addTermSequence :: "('b, 'e) ExprBuilder \<Rightarrow> 'b exprParseState \<Rightarrow> 'b exprParseState" where
  "addTermSequence B s =
     (if inArray s then s\<lparr>arrayParts := arrayParts s @ [buf s], buf := ''''\<rparr>
      else if length (buf s) > 0
      then (let s = addOperator B s; text = buf s
            in s\<lparr>builder := Text B (fieldName s) text True (is_wildcard text) (builder s),
                 dirty := True, buf := '''', fieldbuf := ''''\<rparr>)
      else s\<lparr>buf := '''', fieldbuf := ''''\<rparr>)"

end
