(* ===== verification/ExprParser.thy ===== *)
theory ExprParser imports ExprState begin

text \<open>
  \<^verbatim>\<open>NewExprBuilder\<close> of \<^verbatim>\<open>expr.go\<close>: the closure \<^verbatim>\<open>parse\<close> as \<open>parse_loop\<close> (its loop over the bytes
  \<open>qs\<close> from \<open>i\<close>) and \<open>parse\<close>, and the returned builder function with its cache.
\<close>

text \<open>
  The bytes of an internal group: from \<open>j\<close> to the parenthesis that closes it. Returns the
  group's text and the index where the scan stopped (\<open>length qs\<close> when it is not closed).
\<close>

function scan_group :: "string \<Rightarrow> nat \<Rightarrow> nat \<Rightarrow> bool \<Rightarrow> string \<Rightarrow> string \<times> nat" where
  "scan_group qs j parenthesis innerInQuote inner =
     (if j \<ge> length qs then (inner, j)
      else let c = qs ! j
      in if c = CHR ''('' \<and> \<not> innerInQuote
         then scan_group qs (Suc j) (Suc parenthesis) innerInQuote (inner @ [c])
         else if c = CHR '')'' \<and> \<not> innerInQuote
         then (if parenthesis - 1 = 0 then (inner, j)
               else scan_group qs (Suc j) (parenthesis - 1) innerInQuote (inner @ [c]))
         else if c = CHR 0x22
         then scan_group qs (Suc j) parenthesis
                (if qs ! (j - 1) \<noteq> CHR 0x5C then \<not> innerInQuote else innerInQuote) (inner @ [c])
         else scan_group qs (Suc j) parenthesis innerInQuote (inner @ [c]))"
  by pat_completeness auto
termination
  by (relation "measure (\<lambda>(qs, j, _). length qs - j)") auto

declare scan_group.simps [simp del]

lemma scan_group_bounds:
  "scan_group qs j p q inner = (t, k) \<Longrightarrow>
     j \<le> k \<and> length t = length inner + (k - j) \<and> (j \<le> length qs \<longrightarrow> k \<le> length qs)"
proof (induction qs j p q inner rule: scan_group.induct)
  case (1 qs j p q inner)
  show ?case
  proof (cases "j \<ge> length qs")
    case True
    with "1.prems" show ?thesis by (subst (asm) scan_group.simps) auto
  next
    case False
    with "1.prems" "1.IH" show ?thesis
      by (subst (asm) scan_group.simps) (fastforce simp: Let_def split: if_splits)
  qed
qed

text \<open>
  The end of \<^verbatim>\<open>buf\<close> cut off by one, as \<^verbatim>\<open>Truncate(Len() - 1)\<close> does before an escaped byte is
  written; \<^verbatim>\<open>Truncate\<close> panics on a negative length.
\<close>

definition truncate1_write :: "char \<Rightarrow> 'b exprParseState \<Rightarrow> expr_error + 'b exprParseState" where
  "truncate1_write c s =
     (if buf s = [] then Inl (ExprPanic TruncateOutOfRange)
      else Inr (s\<lparr>buf := butlast (buf s) @ [c]\<rparr>))"

definition escaped :: "string \<Rightarrow> nat \<Rightarrow> bool" where
  "escaped qs i = (i > 0 \<and> qs ! (i - 1) = CHR 0x5C)"

text \<open>One byte of the loop that does not open a group.\<close>

definition parse_byte ::
  "('b, 'e) ExprBuilder \<Rightarrow> string \<Rightarrow> nat \<Rightarrow> 'b exprParseState \<Rightarrow> expr_error + 'b exprParseState"
where
  "parse_byte B qs i s =
     (let b = qs ! i
      in if b = CHR ''['' \<and> \<not> inQuote s
         then (if escaped qs i then truncate1_write CHR ''['' s
               else if inArray s then Inl (UnexpectedBracket i)
               else Inr (s\<lparr>inArray := True\<rparr>))
         else if b = CHR '']'' \<and> inArray s \<and> \<not> inQuote s
         then (if escaped qs i then truncate1_write CHR '']'' s
               else closeArray B (addTermSingle B s))
         else if b = CHR '' ''
         then (if inQuote s then Inr (s\<lparr>buf := buf s @ [b]\<rparr>) else Inr (addTermSingle B s))
         else if b = CHR 0x22
         then (if escaped qs i then truncate1_write CHR 0x22 s
               else if inQuote s then Inr (addTermSequence B (s\<lparr>inQuote := False\<rparr>))
               else Inr (s\<lparr>inQuote := True\<rparr>))
         else if b = CHR '':'' \<and> \<not> inQuote s
         then (if escaped qs i then truncate1_write CHR '':'' s
               else if length (fieldbuf s) > 0 then Inl (UnexpectedColon i)
               else let f = TrimSpace (buf s)
                    in Inr (s\<lparr>fieldbuf := (if f \<noteq> '''' then fieldbuf s @ f else fieldbuf s),
                              buf := ''''\<rparr>))
         else Inr (s\<lparr>buf := buf s @ [b]\<rparr>))"

definition opens_group :: "string \<Rightarrow> nat \<Rightarrow> 'b exprParseState \<Rightarrow> bool" where
  "opens_group qs i s = (qs ! i = CHR ''('' \<and> \<not> inArray s \<and> \<not> inQuote s)"

definition init_state :: "'b \<Rightarrow> 'b exprParseState" where
  "init_state b =
     \<lparr>builder = b, inQuote = False, inArray = False, operator = '''', arrayParts = [],
      dirty = False, buf = '''', fieldbuf = ''''\<rparr>"

text \<open>What \<^verbatim>\<open>parse\<close> does after its loop: add the last part and close an open array.\<close>

definition parse_end ::
  "('b, 'e) ExprBuilder \<Rightarrow> 'b exprParseState \<Rightarrow> expr_error + 'b exprParseState" where
  "parse_end B s =
     closeArray B (if inQuote s then addTermSequence B s else addTermSingle B s)"

function (sequential) parse_loop ::
  "('b, 'e) ExprBuilder \<Rightarrow> string \<Rightarrow> nat \<Rightarrow> 'b exprParseState \<Rightarrow> expr_error + 'b exprParseState"
where
  "parse_loop B qs i s =
     (if i \<ge> length qs then parse_end B s
      else if opens_group qs i s
      then (let (inner, j) = scan_group qs (Suc i) 1 False [];
                s = addOperator B s;
                s = s\<lparr>builder := GroupStart B (builder s)\<rparr>
            in case parse_loop B inner 0 (init_state (builder s)) of
                 Inl e \<Rightarrow> Inl (InvalidExpression inner e)
               | Inr s' \<Rightarrow>
                   parse_loop B qs (Suc j)
                     (s\<lparr>builder := GroupEnd B (builder s'), dirty := True\<rparr>))
      else (case parse_byte B qs i s of
              Inl e \<Rightarrow> Inl e
            | Inr s' \<Rightarrow> parse_loop B qs (Suc i) s'))"
  by pat_completeness auto
termination
proof (relation "measures [\<lambda>(B, qs, i, s). length qs, \<lambda>(B, qs, i, s). length qs - i]", goal_cases)
  case 1
  show ?case by simp
next
  case (2 B qs i s p inner j s' s'')
  then have "scan_group qs (Suc i) 1 False [] = (inner, j)" by simp
  then have "length inner = j - Suc i \<and> j \<le> length qs"
    using "2"(1) by (auto dest!: scan_group_bounds)
  then show ?case using "2"(1) by auto
next
  case (3 B qs i s p inner j s' s'' t)
  then have "scan_group qs (Suc i) 1 False [] = (inner, j)" by simp
  then have "Suc i \<le> j" by (auto dest!: scan_group_bounds)
  then show ?case using "3"(1) by auto
next
  case (4 B qs i s s')
  then show ?case by auto
qed

declare parse_loop.simps [simp del]

definition parse :: "('b, 'e) ExprBuilder \<Rightarrow> string \<Rightarrow> 'b \<Rightarrow> expr_error + 'b" where
  "parse B expression b = map_sum id builder (parse_loop B expression 0 (init_state b))"

text \<open>
  The returned builder: the factory gives a builder's initial state and the expression to
  parse; the cache maps the trimmed expression to what was built for it.
\<close>

type_synonym 'e expr_cache = "string \<rightharpoonup> 'e"

definition build_expr ::
  "('b, 'e) ExprBuilder \<Rightarrow> (string \<Rightarrow> 'b \<times> string) \<Rightarrow> 'e expr_cache \<Rightarrow> string
     \<Rightarrow> (expr_error + 'e) \<times> 'e expr_cache" where
  "build_expr B factory cache expression =
     (let expression = TrimSpace expression
      in case cache expression of
           Some c \<Rightarrow> (Inr c, cache)
         | None \<Rightarrow>
             (let (mapper, newExpression) = factory expression
              in case parse B newExpression mapper of
                   Inl err \<Rightarrow> (Inl err, cache)
                 | Inr mapper' \<Rightarrow>
                     (let exp = Build B mapper' in (Inr exp, cache(expression \<mapsto> exp)))))"

end
