(* ===== verification/ExprTrace.thy ===== *)
theory ExprTrace imports ExprParser begin

text \<open>
  The parser against its builder interface: the calls it makes as a list (\<open>recorder\<close>, the
  counterpart of the test suite's builder), the proof that a parse with any builder is that
  list of calls run on the builder, the grammar of the calls, and the absence of panics.
\<close>

subsection \<open>Calls of the interface as data\<close>

datatype bcall =
    CGroupStart
  | CGroupEnd
  | COperator string
  | CText string string bool bool
  | CNumber string string float64
  | CBetween string float64 float64
  | CTextIn string "string list"
  | CNumberIn string "float64 list"

fun run_call :: "('b, 'e) ExprBuilder \<Rightarrow> 'b \<Rightarrow> bcall \<Rightarrow> 'b" where
  "run_call B b CGroupStart = GroupStart B b"
| "run_call B b CGroupEnd = GroupEnd B b"
| "run_call B b (COperator op) = Operator B op b"
| "run_call B b (CText f t sq w) = Text B f t sq w b"
| "run_call B b (CNumber f c n) = Number B f c n b"
| "run_call B b (CBetween f x y) = Between B f x y b"
| "run_call B b (CTextIn f vs) = TextIn B f vs b"
| "run_call B b (CNumberIn f ns) = NumberIn B f ns b"

definition run_calls :: "('b, 'e) ExprBuilder \<Rightarrow> 'b \<Rightarrow> bcall list \<Rightarrow> 'b" where
  "run_calls B b cs = foldl (run_call B) b cs"

lemma run_calls_simps [simp]:
  "run_calls B b [] = b"
  "run_calls B b (c # cs) = run_calls B (run_call B b c) cs"
  "run_calls B b (cs @ ds) = run_calls B (run_calls B b cs) ds"
  by (simp_all add: run_calls_def)

definition recorder :: "(bcall list, bcall list) ExprBuilder" where
  "recorder =
     \<lparr>Build = (\<lambda>cs. cs),
      GroupStart = (\<lambda>cs. cs @ [CGroupStart]),
      GroupEnd = (\<lambda>cs. cs @ [CGroupEnd]),
      Operator = (\<lambda>op cs. cs @ [COperator op]),
      Text = (\<lambda>f t sq w cs. cs @ [CText f t sq w]),
      Number = (\<lambda>f c n cs. cs @ [CNumber f c n]),
      Between = (\<lambda>f x y cs. cs @ [CBetween f x y]),
      TextIn = (\<lambda>f vs cs. cs @ [CTextIn f vs]),
      NumberIn = (\<lambda>f ns cs. cs @ [CNumberIn f ns])\<rparr>"

lemma recorder_simps [simp]:
  "Build recorder cs = cs"
  "GroupStart recorder cs = cs @ [CGroupStart]"
  "GroupEnd recorder cs = cs @ [CGroupEnd]"
  "Operator recorder op cs = cs @ [COperator op]"
  "Text recorder f t sq w cs = cs @ [CText f t sq w]"
  "Number recorder f c n cs = cs @ [CNumber f c n]"
  "Between recorder f x y cs = cs @ [CBetween f x y]"
  "TextIn recorder f vs cs = cs @ [CTextIn f vs]"
  "NumberIn recorder f ns cs = cs @ [CNumberIn f ns]"
  by (simp_all add: recorder_def)

definition calls_of :: "string \<Rightarrow> expr_error + bcall list" where
  "calls_of expression = parse recorder expression []"

subsection \<open>A parse is its calls\<close>

definition lift_state ::
  "('b, 'e) ExprBuilder \<Rightarrow> 'b \<Rightarrow> bcall list exprParseState \<Rightarrow> 'b exprParseState" where
  "lift_state B b0 t =
     \<lparr>builder = run_calls B b0 (builder t), inQuote = inQuote t, inArray = inArray t,
      operator = operator t, arrayParts = arrayParts t, dirty = dirty t, buf = buf t,
      fieldbuf = fieldbuf t\<rparr>"

lemma lift_state_simps [simp]:
  "builder (lift_state B b0 t) = run_calls B b0 (builder t)"
  "inQuote (lift_state B b0 t) = inQuote t"
  "inArray (lift_state B b0 t) = inArray t"
  "operator (lift_state B b0 t) = operator t"
  "arrayParts (lift_state B b0 t) = arrayParts t"
  "dirty (lift_state B b0 t) = dirty t"
  "buf (lift_state B b0 t) = buf t"
  "fieldbuf (lift_state B b0 t) = fieldbuf t"
  "fieldName (lift_state B b0 t) = fieldName t"
  "opens_group qs i (lift_state B b0 t) = opens_group qs i t"
  by (simp_all add: lift_state_def fieldName_def opens_group_def)

lemma lift_state_update [simp]:
  "(lift_state B b0 t)\<lparr>inQuote := q\<rparr> = lift_state B b0 (t\<lparr>inQuote := q\<rparr>)"
  "(lift_state B b0 t)\<lparr>inArray := q\<rparr> = lift_state B b0 (t\<lparr>inArray := q\<rparr>)"
  "(lift_state B b0 t)\<lparr>operator := op\<rparr> = lift_state B b0 (t\<lparr>operator := op\<rparr>)"
  "(lift_state B b0 t)\<lparr>arrayParts := ps\<rparr> = lift_state B b0 (t\<lparr>arrayParts := ps\<rparr>)"
  "(lift_state B b0 t)\<lparr>dirty := q\<rparr> = lift_state B b0 (t\<lparr>dirty := q\<rparr>)"
  "(lift_state B b0 t)\<lparr>buf := x\<rparr> = lift_state B b0 (t\<lparr>buf := x\<rparr>)"
  "(lift_state B b0 t)\<lparr>fieldbuf := x\<rparr> = lift_state B b0 (t\<lparr>fieldbuf := x\<rparr>)"
  by (simp_all add: lift_state_def)

lemma lift_state_builder:
  "(lift_state B b0 t)\<lparr>builder := run_calls B b0 cs\<rparr> = lift_state B b0 (t\<lparr>builder := cs\<rparr>)"
  by (simp add: lift_state_def)

lemma lift_state_call:
  "(lift_state B b0 t)\<lparr>builder := run_call B (run_calls B b0 cs) c\<rparr> =
     lift_state B b0 (t\<lparr>builder := cs @ [c]\<rparr>)"
  by (simp add: lift_state_def)

lemmas lift_calls =
  lift_state_call [where c = CGroupStart, simplified run_call.simps]
  lift_state_call [where c = CGroupEnd, simplified run_call.simps]
  lift_state_call [where c = "COperator op" for op, simplified run_call.simps]
  lift_state_call [where c = "CText f x sq w" for f x sq w, simplified run_call.simps]
  lift_state_call [where c = "CNumber f n x" for f n x, simplified run_call.simps]
  lift_state_call [where c = "CBetween f x y" for f x y, simplified run_call.simps]

lemma addOperator_lift:
  "addOperator B (lift_state B b0 t) = lift_state B b0 (addOperator recorder t)"
  by (simp add: addOperator_def lift_calls)

lemma array_values_lift:
  "array_values B fld parts (run_calls B b0 cs) =
     run_calls B b0 (array_values recorder fld parts cs)"
  by (simp add: array_values_def Let_def split: prod.split)

lemma closeArray_lift:
  "closeArray B (lift_state B b0 t) = map_sum id (lift_state B b0) (closeArray recorder t)"
  by (simp add: closeArray_def Let_def addOperator_lift array_values_lift lift_calls
      lift_state_builder split: option.split)

lemma addTermSingle_lift:
  "addTermSingle B (lift_state B b0 t) = lift_state B b0 (addTermSingle recorder t)"
  by (simp add: addTermSingle_def Let_def addOperator_lift lift_calls split: option.split prod.split)

lemma addTermSequence_lift:
  "addTermSequence B (lift_state B b0 t) = lift_state B b0 (addTermSequence recorder t)"
  by (simp add: addTermSequence_def Let_def addOperator_lift lift_calls)

lemma parse_byte_lift:
  "parse_byte B qs i (lift_state B b0 t) =
     map_sum id (lift_state B b0) (parse_byte recorder qs i t)"
  by (simp add: parse_byte_def truncate1_write_def Let_def closeArray_lift addTermSingle_lift
      addTermSequence_lift)

lemma parse_end_lift:
  "parse_end B (lift_state B b0 t) = map_sum id (lift_state B b0) (parse_end recorder t)"
  by (simp add: parse_end_def closeArray_lift addTermSingle_lift addTermSequence_lift)

lemma init_state_lift: "init_state (run_calls B b0 cs) = lift_state B b0 (init_state cs)"
  by (simp add: init_state_def lift_state_def)

lemma parse_loop_lift_aux:
  "R = recorder \<Longrightarrow>
     parse_loop B qs i (lift_state B b0 t) = map_sum id (lift_state B b0) (parse_loop R qs i t)"
proof (induction R qs i t rule: parse_loop.induct)
  case (1 R qs i t)
  show ?case
  proof (cases "i \<ge> length qs")
    case True
    then show ?thesis
      by (simp add: parse_loop.simps [of B] parse_loop.simps [of recorder] parse_end_lift "1.prems" id_def)
  next
    case inside: False
    show ?thesis
    proof (cases "opens_group qs i t")
      case True
      obtain inner j where sg: "scan_group qs (Suc i) 1 False [] = (inner, j)"
        by fastforce
      let ?t1 = "addOperator recorder t"
      let ?t = "?t1\<lparr>builder := GroupStart recorder (builder ?t1)\<rparr>"
      have inner_lift: "parse_loop B inner 0 (init_state (builder (lift_state B b0 ?t))) =
          map_sum id (lift_state B b0) (parse_loop recorder inner 0 (init_state (builder ?t)))"
        using "1.IH"(1) [OF inside True sg [symmetric] refl refl refl "1.prems"] "1.prems"
        by (simp add: init_state_lift [symmetric] id_def)
      show ?thesis
      proof (cases "parse_loop recorder inner 0 (init_state (builder ?t))")
        case (Inl e)
        with inside True sg inner_lift show ?thesis
          by (simp add: parse_loop.simps [of B qs] parse_loop.simps [of recorder qs] "1.prems"
              addOperator_lift lift_calls Let_def id_def)
      next
        case (Inr s')
        with inside True sg inner_lift
          "1.IH"(2) [OF inside True sg [symmetric] refl refl refl _ "1.prems"] "1.prems"
        show ?thesis
          by (simp add: parse_loop.simps [of B qs i] parse_loop.simps [of recorder qs i]
              addOperator_lift lift_calls Let_def id_def)
      qed
    next
      case False
      show ?thesis
      proof (cases "parse_byte recorder qs i t")
        case (Inl e)
        with inside False "1.prems" show ?thesis
          by (simp add: parse_loop.simps [of B] parse_loop.simps [of recorder] parse_byte_lift id_def)
      next
        case (Inr t')
        with inside False "1.IH"(3) [OF inside False _ "1.prems"] "1.prems" show ?thesis
          by (simp add: parse_loop.simps [of B qs i] parse_loop.simps [of recorder qs i] parse_byte_lift id_def)
      qed
    qed
  qed
qed

lemmas parse_loop_lift = parse_loop_lift_aux [OF refl]

lemma parse_calls_of:
  "parse B expression b = map_sum id (run_calls B b) (calls_of expression)"
  using parse_loop_lift [of B expression 0 b "init_state []"] init_state_lift [of B b "[]"]
  by (simp add: parse_def calls_of_def sum.map_comp o_def id_def)

end
