(* ===== verification/ExprGrammar.thy ===== *)
theory ExprGrammar imports ExprTrace begin

text \<open>
  What the parser promises its builders, on every input: it does not panic, and the calls of a
  successful parse form a chain of operands joined by operators, with balanced groups.
\<close>

subsection \<open>No panic\<close>

fun has_panic :: "expr_error \<Rightarrow> bool" where
  "has_panic (ExprPanic p) = True"
| "has_panic (InvalidExpression x e) = has_panic e"
| "has_panic e = False"

text \<open>The byte before an escaped byte is a backslash, and it is in the buffer.\<close>

definition buf_inv :: "string \<Rightarrow> nat \<Rightarrow> 'b exprParseState \<Rightarrow> bool" where
  "buf_inv qs i s = (escaped qs i \<longrightarrow> i < length qs \<longrightarrow> buf s \<noteq> [])"

lemma scan_group_stop:
  "scan_group qs j p q inner = (t, k) \<Longrightarrow> k < length qs \<Longrightarrow> qs ! k = CHR '')''"
proof (induction qs j p q inner rule: scan_group.induct)
  case (1 qs j p q inner)
  show ?case
  proof (cases "j \<ge> length qs")
    case True
    with "1.prems" show ?thesis by (subst (asm) scan_group.simps) auto
  next
    case False
    with "1.prems" "1.IH" show ?thesis
      by (subst (asm) scan_group.simps) (auto simp: Let_def split: if_splits)
  qed
qed

lemma closeArray_no_panic: "closeArray B s = Inl e \<Longrightarrow> \<not> has_panic e"
  by (auto simp: closeArray_def Let_def split: if_splits option.splits)

lemma closeArray_buf: "closeArray B s = Inr s' \<Longrightarrow> buf s' = buf s"
  by (auto simp: closeArray_def addOperator_def Let_def split: if_splits option.splits)

lemma parse_byte_no_panic:
  "buf_inv qs i s \<Longrightarrow> i < length qs \<Longrightarrow> parse_byte B qs i s = Inl e \<Longrightarrow> \<not> has_panic e"
  by (auto simp: buf_inv_def parse_byte_def truncate1_write_def Let_def
      dest: closeArray_no_panic split: if_splits)

lemma parse_byte_buf_inv: "parse_byte B qs i s = Inr s' \<Longrightarrow> buf_inv qs (Suc i) s'"
  by (auto simp: buf_inv_def escaped_def parse_byte_def Let_def split: if_splits)

lemma parse_end_no_panic: "parse_end B s = Inl e \<Longrightarrow> \<not> has_panic e"
  by (auto simp: parse_end_def dest: closeArray_no_panic)

lemma buf_inv_init: "buf_inv qs 0 s"
  by (simp add: buf_inv_def escaped_def)

lemma parse_loop_no_panic:
  "buf_inv qs i s \<Longrightarrow> parse_loop B qs i s = Inl e \<Longrightarrow> \<not> has_panic e"
proof (induction B qs i s arbitrary: e rule: parse_loop.induct)
  case (1 B qs i s)
  show ?case
  proof (cases "i \<ge> length qs")
    case True
    with "1.prems" show ?thesis
      by (subst (asm) parse_loop.simps) (auto dest: parse_end_no_panic)
  next
    case inside: False
    show ?thesis
    proof (cases "opens_group qs i s")
      case True
      obtain inner j where sg: "scan_group qs (Suc i) 1 False [] = (inner, j)"
        by fastforce
      then have "buf_inv qs (Suc j) t" for t :: "'a exprParseState"
        using scan_group_stop [OF sg] by (auto simp: buf_inv_def escaped_def)
      note IH = "1.IH"(1) [OF inside True sg [symmetric] refl refl refl buf_inv_init]
        "1.IH"(2) [OF inside True sg [symmetric] refl refl refl _ this]
      from "1.prems"(2) inside True sg show ?thesis
        by (subst (asm) parse_loop.simps)
          (auto simp: Let_def split: sum.splits dest: IH [simplified])
    next
      case False
      with "1.prems" inside show ?thesis
        by (subst (asm) parse_loop.simps)
          (auto split: sum.splits dest: parse_byte_no_panic "1.IH"(3) [OF inside False]
            parse_byte_buf_inv)
    qed
  qed
qed

lemma parse_no_panic: "parse B expression b = Inl e \<Longrightarrow> \<not> has_panic e"
  by (auto simp: parse_def map_sum_Inl_iff dest: parse_loop_no_panic [OF buf_inv_init])

subsection \<open>The grammar of the calls\<close>

definition conditions :: "string list" where
  "conditions = [''='', ''>='', ''>'', ''<='', ''<'']"

definition operators :: "string list" where
  "operators = [''AND'', ''OR'']"

fun is_leaf :: "bcall \<Rightarrow> bool" where
  "is_leaf (CText f t sq w) = (f \<noteq> '''' \<and> t \<noteq> '''' \<and> w = is_wildcard t)"
| "is_leaf (CNumber f c n) = (f \<noteq> '''' \<and> c \<in> set conditions)"
| "is_leaf (CBetween f x y) = (f \<noteq> '''')"
| "is_leaf (CTextIn f vs) = (f \<noteq> '''' \<and> vs \<noteq> [])"
| "is_leaf (CNumberIn f ns) = (f \<noteq> '''' \<and> 1 < length ns)"
| "is_leaf _ = False"

inductive operand :: "bcall list \<Rightarrow> bool" and chain :: "bcall list \<Rightarrow> bool" where
  operand_leaf: "is_leaf c \<Longrightarrow> operand [c]"
| operand_group: "chain cs \<Longrightarrow> operand (CGroupStart # cs @ [CGroupEnd])"
| chain_empty: "chain []"
| chain_one: "operand x \<Longrightarrow> chain x"
| chain_more: "chain cs \<Longrightarrow> cs \<noteq> [] \<Longrightarrow> operand x \<Longrightarrow> op \<in> set operators
    \<Longrightarrow> chain (cs @ COperator op # x)"

text \<open>
  The state's part of the calls, after those made before the parse (\<open>pre\<close>): a chain, not empty
  exactly when \<^verbatim>\<open>dirty\<close> is set.
\<close>

definition calls_inv :: "bcall list \<Rightarrow> bcall list exprParseState \<Rightarrow> bool" where
  "calls_inv pre s =
     (\<exists>cs. builder s = pre @ cs \<and> chain cs \<and> (dirty s \<longleftrightarrow> cs \<noteq> []) \<and>
           operator s \<in> set ('''' # operators))"

text \<open>The same right before an operand is added, and after.\<close>

definition awaiting :: "bcall list \<Rightarrow> bcall list \<Rightarrow> bool" where
  "awaiting pre cs =
     (cs = pre \<or> (\<exists>ds op. cs = pre @ ds @ [COperator op] \<and> chain ds \<and> ds \<noteq> [] \<and>
                          op \<in> set operators))"

lemma operand_nonempty: "operand x \<Longrightarrow> x \<noteq> []"
  by (erule operand.cases) auto

lemma awaiting_operand:
  assumes "awaiting pre cs" and "operand x"
  shows "\<exists>es. cs @ x = pre @ es \<and> chain es \<and> es \<noteq> []"
  using assms chain_more operand_nonempty unfolding awaiting_def
  by (fastforce intro: chain_one)

lemma awaiting_addOperator: "calls_inv pre s \<Longrightarrow> awaiting pre (builder (addOperator recorder s))"
  by (auto simp: calls_inv_def awaiting_def addOperator_def operators_def Let_def)

lemma addOperator_frame [simp]:
  "operator (addOperator B s) = ''''" "inQuote (addOperator B s) = inQuote s"
  "inArray (addOperator B s) = inArray s" "arrayParts (addOperator B s) = arrayParts s"
  "buf (addOperator B s) = buf s" "fieldbuf (addOperator B s) = fieldbuf s"
  "fieldName (addOperator B s) = fieldName s" "dirty (addOperator B s) = dirty s"
  by (simp_all add: addOperator_def fieldName_def Let_def)

text \<open>A state that got an operand after \<^verbatim>\<open>addOperator\<close>.\<close>

lemma calls_inv_operand:
  assumes "calls_inv pre s" and "operand x"
    and "builder s' = builder (addOperator recorder s) @ x" and "dirty s'" and "operator s' = ''''"
  shows "calls_inv pre s'"
  using awaiting_operand [OF awaiting_addOperator [OF assms(1)] assms(2)] assms(3-5)
  by (auto simp: calls_inv_def)

lemma calls_inv_update [simp]:
  "calls_inv pre (s\<lparr>inQuote := q\<rparr>) = calls_inv pre s"
  "calls_inv pre (s\<lparr>inArray := q\<rparr>) = calls_inv pre s"
  "calls_inv pre (s\<lparr>buf := x\<rparr>) = calls_inv pre s"
  "calls_inv pre (s\<lparr>fieldbuf := x\<rparr>) = calls_inv pre s"
  by (simp_all add: calls_inv_def)

lemma calls_inv_frame:
  "calls_inv pre s \<Longrightarrow> builder s' = builder s \<Longrightarrow> dirty s' = dirty s
     \<Longrightarrow> operator s' \<in> set (operator s # operators) \<Longrightarrow> calls_inv pre s'"
  by (auto simp: calls_inv_def)

lemma fieldName_nonempty [simp]: "fieldName s \<noteq> ''''"
  by (simp add: fieldName_def)

lemma split_parts_length:
  "split_parts parts = (texts, ns) \<Longrightarrow> length texts + length ns = length parts"
  by (induction parts arbitrary: texts ns) (auto split: prod.splits option.splits)

text \<open>The calls for an array's values are one operand.\<close>

lemma operand_pair:
  assumes "is_leaf c" and "is_leaf d"
  shows "operand (CGroupStart # [c, COperator ''OR'', d] @ [CGroupEnd])"
  using chain_more [OF chain_one [OF operand_leaf [OF assms(1)]] _ operand_leaf [OF assms(2)],
      of "''OR''"]
  by (intro operand_group) (simp add: operators_def)

lemma array_values_operand:
  assumes "parts \<noteq> []" and "f \<noteq> ''''"
  shows "\<exists>x. operand x \<and> array_values recorder f parts cs = cs @ x"
proof -
  obtain texts ns where sp: "split_parts parts = (texts, ns)" by fastforce
  with assms(1) have len: "length texts + length ns > 0"
    using split_parts_length [OF sp] by simp
  let ?num = "if length ns = 1 then CNumber f ''='' (ns ! 0) else CNumberIn f ns"
  have numl: "ns \<noteq> [] \<Longrightarrow> is_leaf ?num"
    using assms(2) by (cases ns) (auto simp: conditions_def Suc_le_eq)
  have tleaf: "texts \<noteq> [] \<Longrightarrow> is_leaf (CTextIn f texts)"
    using assms(2) by simp
  show ?thesis
  proof (cases "ns = [] \<or> texts = []")
    case True
    with len numl tleaf sp show ?thesis
      by (intro exI [of _ "[if ns = [] then CTextIn f texts else ?num]"])
        (auto simp: array_values_def intro: operand_leaf)
  next
    case False
    let ?x = "CGroupStart # [?num, COperator ''OR'', CTextIn f texts] @ [CGroupEnd]"
    have "operand ?x"
      by (rule operand_pair) (use False numl tleaf in simp_all)
    moreover have "array_values recorder f parts cs = cs @ ?x"
      using False sp by (simp add: array_values_def)
    ultimately show ?thesis by blast
  qed
qed

lemma closeArray_calls_inv:
  assumes inv: "calls_inv pre s" and ok: "closeArray recorder s = Inr s'"
  shows "calls_inv pre s'"
proof (cases "inArray s \<and> arrayParts s \<noteq> []")
  case False
  with inv ok show ?thesis
    by (auto simp: closeArray_def Let_def calls_inv_def split: if_splits)
next
  case True
  let ?s = "s\<lparr>inArray := False\<rparr>"
  have inv': "calls_inv pre ?s" using inv by (simp add: calls_inv_def)
  obtain x where x: "operand x" "builder s' = builder (addOperator recorder ?s) @ x"
    and "dirty s'" "operator s' = ''''"
  proof (cases "length (arrayParts s) = 3 \<and> arrayParts s ! 1 = ''TO''")
    case range: True
    with True ok show ?thesis
      by (auto intro!: that operand_leaf simp: closeArray_def Let_def split: option.splits)
  next
    case False
    obtain y where "operand y"
      "array_values recorder (fieldName ?s) (arrayParts s) (builder (addOperator recorder ?s)) =
         builder (addOperator recorder ?s) @ y"
      using array_values_operand [of "arrayParts s" "fieldName ?s"] True by auto
    with True False ok show ?thesis
      by (intro that [of y]) (auto simp: closeArray_def Let_def split: option.splits)
  qed
  then show ?thesis using calls_inv_operand [OF inv'] by blast
qed

lemma numeric_term_condition: "numeric_term text = Some (c, n) \<Longrightarrow> c \<in> set conditions"
  by (auto simp: numeric_term_def split_condition_def conditions_def Let_def
      split: if_splits option.splits prod.splits)

lemma term_operand:
  assumes "t \<noteq> ''''" and "f \<noteq> ''''"
  shows "operand (case (if g then numeric_term t else None) of
           Some (c, n) \<Rightarrow> [CNumber f c n] | None \<Rightarrow> [CText f t sq (is_wildcard t)])"
  using assms by (auto split: option.split intro!: operand_leaf dest: numeric_term_condition)

lemma addTermSingle_calls_inv:
  assumes "calls_inv pre s"
  shows "calls_inv pre (addTermSingle recorder s)"
proof (cases "\<not> inArray s \<and> buf s \<noteq> [] \<and> ToUpper (buf s) \<notin> set operators")
  case False
  with assms show ?thesis
    by (intro calls_inv_frame [OF assms])
      (auto simp: addTermSingle_def operators_def Let_def)
next
  case True
  show ?thesis
    by (rule calls_inv_operand [OF assms term_operand
          [where t = "buf s" and f = "fieldName s" and g = "length (fieldbuf s) > 0" and sq = False]])
      (use True in \<open>(cases "fieldbuf s = []";
        auto simp: addTermSingle_def operators_def Let_def split: option.split prod.split)+\<close>)
qed

lemma addTermSequence_calls_inv:
  assumes "calls_inv pre s"
  shows "calls_inv pre (addTermSequence recorder s)"
proof (cases "\<not> inArray s \<and> buf s \<noteq> []")
  case False
  with assms show ?thesis
    by (intro calls_inv_frame [OF assms]) (auto simp: addTermSequence_def)
next
  case True
  show ?thesis
    by (rule calls_inv_operand [OF assms operand_leaf
          [of "CText (fieldName s) (buf s) True (is_wildcard (buf s))"]])
      (use True in \<open>auto simp: addTermSequence_def Let_def\<close>)
qed

lemma parse_byte_calls_inv:
  assumes "calls_inv pre s" and "parse_byte recorder qs i s = Inr s'"
  shows "calls_inv pre s'"
  using assms
  by (auto simp: parse_byte_def truncate1_write_def Let_def split: if_splits
      intro: closeArray_calls_inv addTermSingle_calls_inv addTermSequence_calls_inv calls_inv_frame)

lemma parse_end_calls_inv:
  "calls_inv pre s \<Longrightarrow> parse_end recorder s = Inr s' \<Longrightarrow> calls_inv pre s'"
  by (auto simp: parse_end_def split: if_splits
      intro: closeArray_calls_inv addTermSingle_calls_inv addTermSequence_calls_inv)

lemma calls_inv_init: "calls_inv cs (init_state cs)"
  by (simp add: calls_inv_def init_state_def chain_empty)

text \<open>
  The loop: a successful parse extends the calls before it by a chain. The inner parse of a
  group starts after its opening call, so its chain is closed into one operand.
\<close>

lemma parse_loop_calls_inv_aux:
  "R = recorder \<Longrightarrow> calls_inv pre t \<Longrightarrow> parse_loop R qs i t = Inr t' \<Longrightarrow> calls_inv pre t'"
proof (induction R qs i t arbitrary: pre t' rule: parse_loop.induct)
  case (1 R qs i t)
  note R = "1.prems"(1) and inv = "1.prems"(2) and ok = "1.prems"(3)
  consider (finished) "i \<ge> length qs" | (group) "\<not> i \<ge> length qs" "opens_group qs i t"
    | (byte) "\<not> i \<ge> length qs" "\<not> opens_group qs i t"
    by blast
  then show ?case
  proof cases
    case finished
    with R ok inv show ?thesis
      by (auto simp: parse_loop.simps [of recorder qs i] intro: parse_end_calls_inv)
  next
    case group
    obtain inner j where sg: "scan_group qs (Suc i) 1 False [] = (inner, j)"
      by fastforce
    let ?t = "addOperator recorder t"
    let ?cs = "builder ?t @ [CGroupStart]"
    from R ok group sg obtain s' where
      s': "parse_loop recorder inner 0 (init_state ?cs) = Inr s'" and
      rest: "parse_loop recorder qs (Suc j)
               (?t\<lparr>builder := builder s' @ [CGroupEnd], dirty := True\<rparr>) = Inr t'"
      by (auto simp: parse_loop.simps [of recorder qs i] Let_def split: sum.splits)
    have "calls_inv ?cs s'"
      using "1.IH"(1) [OF group sg [symmetric] refl refl refl R, of ?cs s'] s' R
      by (simp add: calls_inv_init)
    then obtain cs where cs: "builder s' = ?cs @ cs" "chain cs"
      by (auto simp: calls_inv_def)
    have "calls_inv pre (?t\<lparr>builder := builder s' @ [CGroupEnd], dirty := True\<rparr>)"
      by (rule calls_inv_operand [OF inv operand_group [OF cs(2)]]) (simp_all add: cs(1))
    then show ?thesis
      using "1.IH"(2) [OF group sg [symmetric] refl refl refl _ R, of s' pre t'] s' rest R
      by simp
  next
    case byte
    with R ok inv show ?thesis
      by (auto simp: parse_loop.simps [of recorder qs i] split: sum.splits
          intro: "1.IH"(3) [OF byte _ R] parse_byte_calls_inv)
  qed
qed

lemma calls_of_chain: "calls_of expression = Inr cs \<Longrightarrow> chain cs"
  using parse_loop_calls_inv_aux [OF refl calls_inv_init]
  by (fastforce simp: calls_of_def parse_def map_sum_Inr_iff calls_inv_def)

subsection \<open>The contract of a builder\<close>

text \<open>
  A builder keeps an invariant under the calls of the grammar, counts the open groups, and
  closes a group only when one is open. What a client of the interface gets: a successful parse
  keeps the invariant and leaves no group open.
\<close>

locale expr_builder =
  fixes B :: "('b, 'e) ExprBuilder"
    and inv :: "'b \<Rightarrow> bool"
    and depth :: "'b \<Rightarrow> nat"
  assumes inv_leaf: "inv b \<Longrightarrow> is_leaf c \<Longrightarrow> inv (run_call B b c)"
    and depth_leaf: "inv b \<Longrightarrow> is_leaf c \<Longrightarrow> depth (run_call B b c) = depth b"
    and inv_operator: "inv b \<Longrightarrow> op \<in> set operators \<Longrightarrow> inv (Operator B op b)"
    and depth_operator: "inv b \<Longrightarrow> op \<in> set operators \<Longrightarrow> depth (Operator B op b) = depth b"
    and inv_start: "inv b \<Longrightarrow> inv (GroupStart B b)"
    and depth_start: "inv b \<Longrightarrow> depth (GroupStart B b) = Suc (depth b)"
    and inv_end: "inv b \<Longrightarrow> 0 < depth b \<Longrightarrow> inv (GroupEnd B b)"
    and depth_end: "inv b \<Longrightarrow> 0 < depth b \<Longrightarrow> depth (GroupEnd B b) = depth b - 1"
begin

lemma operand_chain_inv:
  "operand x \<Longrightarrow> inv b \<Longrightarrow> inv (run_calls B b x) \<and> depth (run_calls B b x) = depth b"
  "chain cs \<Longrightarrow> inv b \<Longrightarrow> inv (run_calls B b cs) \<and> depth (run_calls B b cs) = depth b"
proof (induction arbitrary: b and b rule: operand_chain.inducts)
  case (operand_leaf c)
  then show ?case by (simp add: inv_leaf depth_leaf)
next
  case (operand_group cs)
  then show ?case
    using operand_group.IH [OF inv_start [OF operand_group.prems]]
    by (simp add: depth_start inv_end depth_end)
next
  case chain_empty
  then show ?case by simp
next
  case (chain_one x)
  then show ?case by blast
next
  case (chain_more cs x op)
  then show ?case by (simp add: inv_operator depth_operator)
qed

lemma parse_inv:
  assumes "parse B expression b = Inr b'" and "inv b"
  shows "inv b' \<and> depth b' = depth b"
  using assms operand_chain_inv(2) [OF calls_of_chain]
  by (auto simp: parse_calls_of map_sum_Inr_iff)

end

text \<open>The recorder itself: the open groups are the starts less the ends.\<close>

definition open_groups :: "bcall list \<Rightarrow> nat" where
  "open_groups cs = count_list cs CGroupStart - count_list cs CGroupEnd"

definition closed_le :: "bcall list \<Rightarrow> bool" where
  "closed_le cs = (count_list cs CGroupEnd \<le> count_list cs CGroupStart)"

interpretation rec: expr_builder recorder closed_le open_groups
proof
  fix cs c
  assume "closed_le cs" "is_leaf c"
  then show "closed_le (run_call recorder cs c)" "open_groups (run_call recorder cs c) = open_groups cs"
    by (cases c; simp add: closed_le_def open_groups_def)+
qed (simp_all add: closed_le_def open_groups_def Suc_diff_le)

end
