(* ===== verification/SqliteExpr.thy ===== *)
theory SqliteExpr imports ExprGrammar begin

text \<open>
  \<^verbatim>\<open>sqlite/expr.go\<close>: the builder that turns an expression into the condition of a SQL query and
  its arguments. \<open>sqlarg\<close> are the values of \<^verbatim>\<open>[]any\<close> that the builder and the query code bind.
\<close>

datatype sqlarg = ArgText string | ArgFloat float64 | ArgInt int

record Expr =
  Sql :: string
  Args :: "sqlarg list"

record SqliteExprBuilder =
  args :: "sqlarg list"
  sql :: string
  groups :: "string list"

definition sqlite_Build :: "SqliteExprBuilder \<Rightarrow> Expr" where
  "sqlite_Build s = \<lparr>Sql = sql s, Args = args s\<rparr>"

definition sqlite_GroupStart :: "SqliteExprBuilder \<Rightarrow> SqliteExprBuilder" where
  "sqlite_GroupStart s = s\<lparr>groups := groups s @ [sql s @ ''(''], sql := ''''\<rparr>"

definition sqlite_GroupEnd :: "SqliteExprBuilder \<Rightarrow> SqliteExprBuilder" where
  "sqlite_GroupEnd s =
     (let s = (if length (groups s) > 0
               then s\<lparr>groups := butlast (groups s), sql := last (groups s) @ sql s\<rparr>
               else s)
      in s\<lparr>sql := sql s @ '')''\<rparr>)"

definition sqlite_Operator :: "string \<Rightarrow> SqliteExprBuilder \<Rightarrow> SqliteExprBuilder" where
  "sqlite_Operator op s =
     (if length (sql s) > 0 then s\<lparr>sql := sql s @ '' '' @ op @ '' ''\<rparr> else s)"

definition sqlite_Text ::
  "string \<Rightarrow> string \<Rightarrow> bool \<Rightarrow> bool \<Rightarrow> SqliteExprBuilder \<Rightarrow> SqliteExprBuilder" where
  "sqlite_Text fld term isSequence isWildcard s =
     (let fld = ''$.'' @ fld
      in if isSequence
         then (if isWildcard
               then s\<lparr>sql := sql s @ ''json_extract(e.content, ?) GLOB ?'',
                      args := args s @ [ArgText fld, ArgText term]\<rparr>
               else s\<lparr>sql := sql s @ ''json_extract(e.content, ?) = ?'',
                      args := args s @ [ArgText fld, ArgText term]\<rparr>)
         else s\<lparr>sql := sql s @ ''json_extract(e.content, ?) GLOB ?'',
                args := args s @ [ArgText fld,
                  ArgText (if isWildcard then term else ''*'' @ term @ ''*'')]\<rparr>)"

text \<open>The comma separated placeholders the two \<^verbatim>\<open>In\<close> methods write.\<close>

fun in_list :: "nat \<Rightarrow> string" where
  "in_list 0 = ''''"
| "in_list (Suc 0) = ''?''"
| "in_list (Suc n) = ''?,'' @ in_list n"

definition sqlite_TextIn :: "string \<Rightarrow> string list \<Rightarrow> SqliteExprBuilder \<Rightarrow> SqliteExprBuilder" where
  "sqlite_TextIn fld values s =
     s\<lparr>args := args s @ ArgText (''$.'' @ fld) # map ArgText values,
       sql := sql s @ ''json_extract(e.content, ?) IN ('' @ in_list (length values) @ '')''\<rparr>"

definition sqlite_Number ::
  "string \<Rightarrow> string \<Rightarrow> float64 \<Rightarrow> SqliteExprBuilder \<Rightarrow> SqliteExprBuilder" where
  "sqlite_Number fld condition value s =
     s\<lparr>sql := sql s @ ''CAST(json_extract(e.content, ?) AS NUMERIC) '' @ condition @ '' ? '',
       args := args s @ [ArgText (''$.'' @ fld), ArgFloat value]\<rparr>"

definition sqlite_Between ::
  "string \<Rightarrow> float64 \<Rightarrow> float64 \<Rightarrow> SqliteExprBuilder \<Rightarrow> SqliteExprBuilder" where
  "sqlite_Between fld x y s =
     s\<lparr>sql := sql s @ ''CAST(json_extract(e.content, ?) AS NUMERIC) BETWEEN ? AND ?'',
       args := args s @ [ArgText (''$.'' @ fld), ArgFloat x, ArgFloat y]\<rparr>"

definition sqlite_NumberIn ::
  "string \<Rightarrow> float64 list \<Rightarrow> SqliteExprBuilder \<Rightarrow> SqliteExprBuilder" where
  "sqlite_NumberIn fld values s =
     s\<lparr>sql := sql s @ ''CAST(json_extract(e.content, ?) AS NUMERIC) IN ('' @
                      in_list (length values) @ '')'',
       args := args s @ ArgText (''$.'' @ fld) # map ArgFloat values\<rparr>"

definition sqliteBuilder :: "(SqliteExprBuilder, Expr) ExprBuilder" where
  "sqliteBuilder =
     \<lparr>Build = sqlite_Build, GroupStart = sqlite_GroupStart, GroupEnd = sqlite_GroupEnd,
      Operator = sqlite_Operator, Text = sqlite_Text, Number = sqlite_Number,
      Between = sqlite_Between, TextIn = sqlite_TextIn, NumberIn = sqlite_NumberIn\<rparr>"

definition newSqliteExprBuilder :: SqliteExprBuilder where
  "newSqliteExprBuilder = \<lparr>args = [], sql = '''', groups = []\<rparr>"

definition ExpBuilderFn :: "Expr expr_cache \<Rightarrow> string \<Rightarrow> (expr_error + Expr) \<times> Expr expr_cache" where
  "ExpBuilderFn = build_expr sqliteBuilder (\<lambda>expression. (newSqliteExprBuilder, expression))"

subsection \<open>The language of the generated conditions\<close>

text \<open>
  \<open>sql_operand q n\<close> and \<open>sql_chain q n\<close>: the conditions the builder can write, with the number
  \<open>n\<close> of their placeholders. Nothing of the user's expression occurs in them.
\<close>

inductive sql_operand :: "string \<Rightarrow> nat \<Rightarrow> bool" and sql_chain :: "string \<Rightarrow> nat \<Rightarrow> bool" where
  sql_glob: "sql_operand ''json_extract(e.content, ?) GLOB ?'' 2"
| sql_eq: "sql_operand ''json_extract(e.content, ?) = ?'' 2"
| sql_in: "n > 0 \<Longrightarrow>
    sql_operand (''json_extract(e.content, ?) IN ('' @ in_list n @ '')'') (Suc n)"
| sql_number: "c \<in> set conditions \<Longrightarrow>
    sql_operand (''CAST(json_extract(e.content, ?) AS NUMERIC) '' @ c @ '' ? '') 2"
| sql_between:
    "sql_operand ''CAST(json_extract(e.content, ?) AS NUMERIC) BETWEEN ? AND ?'' 3"
| sql_number_in: "1 < n \<Longrightarrow>
    sql_operand (''CAST(json_extract(e.content, ?) AS NUMERIC) IN ('' @ in_list n @ '')'') (Suc n)"
| sql_group: "sql_chain q n \<Longrightarrow> sql_operand (''('' @ q @ '')'') n"
| sql_none: "sql_chain '''' 0"
| sql_one: "sql_operand q n \<Longrightarrow> sql_chain q n"
| sql_more: "sql_chain q n \<Longrightarrow> q \<noteq> '''' \<Longrightarrow> op \<in> set operators \<Longrightarrow> sql_operand r m
    \<Longrightarrow> sql_chain (q @ '' '' @ op @ '' '' @ r) (n + m)"

definition placeholders :: "string \<Rightarrow> nat" where
  "placeholders q = count_list q CHR ''?''"

lemma placeholders_simps [simp]:
  "placeholders [] = 0"
  "placeholders (c # q) = (if c = CHR ''?'' then Suc (placeholders q) else placeholders q)"
  "placeholders (q @ r) = placeholders q + placeholders r"
  by (simp_all add: placeholders_def)

lemma placeholders_in_list [simp]: "placeholders (in_list n) = n"
  by (induction n rule: in_list.induct) simp_all

lemma placeholders_conditions: "c \<in> set conditions \<Longrightarrow> placeholders c = 0"
  by (auto simp: conditions_def)

lemma placeholders_operators: "op \<in> set operators \<Longrightarrow> placeholders op = 0"
  by (auto simp: operators_def)

lemma sql_placeholders:
  "sql_operand q n \<Longrightarrow> placeholders q = n"
  "sql_chain q n \<Longrightarrow> placeholders q = n"
  by (induction rule: sql_operand_sql_chain.inducts)
    (auto simp: placeholders_conditions placeholders_operators)

lemma sql_operand_nonempty: "sql_operand q n \<Longrightarrow> q \<noteq> ''''"
  by (erule sql_operand.cases) auto

subsection \<open>The builder writes that language\<close>

lemmas sqlite_defs =
  sqliteBuilder_def sqlite_Build_def sqlite_GroupStart_def sqlite_GroupEnd_def
  sqlite_Operator_def sqlite_Text_def sqlite_TextIn_def sqlite_Number_def sqlite_Between_def
  sqlite_NumberIn_def

text \<open>What running calls adds to a builder: text to \<open>sql\<close>, as many arguments as placeholders.\<close>

definition extends :: "(string \<Rightarrow> nat \<Rightarrow> bool) \<Rightarrow> SqliteExprBuilder \<Rightarrow> SqliteExprBuilder \<Rightarrow> bool" where
  "extends P s t =
     (\<exists>q as. sql t = sql s @ q \<and> args t = args s @ as \<and> groups t = groups s \<and> P q (length as))"

lemmas sql_intros =
  sql_operand_sql_chain.intros [simplified, simplified numeral_2_eq_2 numeral_3_eq_3]

lemma extendsI:
  "sql t = sql s @ q \<Longrightarrow> args t = args s @ as \<Longrightarrow> groups t = groups s \<Longrightarrow> P q (length as)
     \<Longrightarrow> extends P s t"
  by (auto simp: extends_def)

lemma sqlite_leaf_extends: "is_leaf c \<Longrightarrow> extends sql_operand s (run_call sqliteBuilder s c)"
  by (cases c) (auto simp: sqlite_defs Let_def extends_def intro: sql_intros)

lemma sqlite_run_extends:
  "operand x \<Longrightarrow> extends sql_operand s (run_calls sqliteBuilder s x)"
  "chain cs \<Longrightarrow> extends (\<lambda>q n. sql_chain q n \<and> (cs \<noteq> [] \<longrightarrow> q \<noteq> '''')) s
                  (run_calls sqliteBuilder s cs)"
proof (induction arbitrary: s and s rule: operand_chain.inducts)
  case (operand_leaf c)
  then show ?case by (simp add: sqlite_leaf_extends)
next
  case (operand_group cs)
  let ?t = "run_calls sqliteBuilder (GroupStart sqliteBuilder s) cs"
  obtain as where "args ?t = args s @ as" "groups ?t = groups s @ [sql s @ ''('']"
    and "sql_chain (sql ?t) (length as)"
    using operand_group.IH [of "GroupStart sqliteBuilder s"]
    by (auto simp: extends_def sqlite_defs)
  then show ?case
    by (intro extendsI [where q = "''('' @ sql ?t @ '')''" and as = as])
      (simp_all add: sqlite_defs sql_group [simplified])
next
  case chain_empty
  show ?case by (rule extendsI [where q = "''''" and as = "[]"]) (simp_all add: sql_none)
next
  case (chain_one x)
  have "sql_operand q n \<Longrightarrow> sql_chain q n \<and> (x \<noteq> [] \<longrightarrow> q \<noteq> '''')" for q n
    using sql_one sql_operand_nonempty by blast
  with chain_one.IH [of s] show ?case
    unfolding extends_def by blast
next
  case (chain_more cs x op)
  let ?t = "run_calls sqliteBuilder s cs"
  obtain q as where q: "sql ?t = sql s @ q" "args ?t = args s @ as" "groups ?t = groups s"
    "sql_chain q (length as)" "q \<noteq> ''''"
    using chain_more.IH(1) [of s] chain_more.hyps(2) by (auto simp: extends_def)
  let ?u = "run_calls sqliteBuilder (Operator sqliteBuilder op ?t) x"
  obtain r bs where r: "sql ?u = sql s @ q @ '' '' @ op @ '' '' @ r" "args ?u = args s @ as @ bs"
    "groups ?u = groups s" "sql_operand r (length bs)"
    using chain_more.IH(2) [of "Operator sqliteBuilder op ?t"] q
    by (auto simp: extends_def sqlite_defs)
  show ?case
    by (rule extendsI [where q = "q @ '' '' @ op @ '' '' @ r" and as = "as @ bs"])
      (use r q(5) sql_more [OF q(4,5) chain_more.hyps(4) r(4)] in simp_all)
qed

lemma sqlite_parse_chain:
  assumes "parse sqliteBuilder expression newSqliteExprBuilder = Inr s"
  shows "sql_chain (sql s) (length (args s)) \<and> groups s = []"
  using assms sqlite_run_extends(2) [OF calls_of_chain, of expression _ newSqliteExprBuilder]
  by (fastforce simp: parse_calls_of map_sum_Inr_iff extends_def newSqliteExprBuilder_def)

text \<open>
  The builder honours the contract of \<open>expr_builder\<close>: placeholders and arguments stay equal in
  number, counting the text of the open groups, and the open groups are its stack.
\<close>

definition sqlite_inv :: "SqliteExprBuilder \<Rightarrow> bool" where
  "sqlite_inv s = (placeholders (concat (groups s) @ sql s) = length (args s))"

lemma sqlite_inv_extends:
  "extends sql_operand s t \<Longrightarrow> sqlite_inv s \<Longrightarrow> sqlite_inv t \<and> groups t = groups s"
  by (auto simp: extends_def sqlite_inv_def dest: sql_placeholders(1))

interpretation sq: expr_builder sqliteBuilder sqlite_inv "\<lambda>s. length (groups s)"
proof
  fix s c
  assume "sqlite_inv s" "is_leaf c"
  then show "sqlite_inv (run_call sqliteBuilder s c)"
    "length (groups (run_call sqliteBuilder s c)) = length (groups s)"
    using sqlite_inv_extends [OF sqlite_leaf_extends] by simp_all
next
  fix s
  assume "sqlite_inv s" "0 < length (groups s)"
  then show "sqlite_inv (GroupEnd sqliteBuilder s)"
    by (cases "groups s" rule: rev_cases) (simp_all add: sqlite_inv_def sqlite_defs Let_def)
qed (auto simp: sqlite_inv_def sqlite_defs placeholders_operators Let_def)

lemma Build_sqlite: "Build sqliteBuilder = sqlite_Build"
  by (simp add: sqliteBuilder_def)

lemma compiled_chain:
  assumes "fst (ExpBuilderFn Map.empty expression) = Inr ex"
  shows "sql_chain (Sql ex) (length (Args ex)) \<and> placeholders (Sql ex) = length (Args ex)"
proof -
  obtain s where "parse sqliteBuilder (TrimSpace expression) newSqliteExprBuilder = Inr s" "ex = sqlite_Build s"
    using assms by (auto simp: ExpBuilderFn_def build_expr_def Let_def Build_sqlite split: sum.splits)
  with sqlite_parse_chain [of "TrimSpace expression" s] sql_placeholders(2) show ?thesis
    by (simp add: sqlite_Build_def)
qed

end
