(* ===== verification/QuerySyntax.thy ===== *)
theory QuerySyntax imports ExprGrammar begin

text \<open>
  The abstract syntax behind the calls of the parser: a \<open>query\<close> is a leaf or a group, a \<open>qchain\<close>
  the operands of one group joined by operators from the left. Two readings of a chain: from
  left to right, and with \<^verbatim>\<open>AND\<close> binding tighter than \<^verbatim>\<open>OR\<close>, as SQL reads it.
\<close>

datatype query = QLeaf bcall | QGroup qchain
  and qchain = QNil | QFirst query | QSnoc qchain string query

fun query_calls :: "query \<Rightarrow> bcall list" and chain_calls :: "qchain \<Rightarrow> bcall list" where
  "query_calls (QLeaf c) = [c]"
| "query_calls (QGroup ch) = CGroupStart # chain_calls ch @ [CGroupEnd]"
| "chain_calls QNil = []"
| "chain_calls (QFirst q) = query_calls q"
| "chain_calls (QSnoc ch op q) = chain_calls ch @ COperator op # query_calls q"

fun wf_query :: "query \<Rightarrow> bool" and wf_chain :: "qchain \<Rightarrow> bool" where
  "wf_query (QLeaf c) = is_leaf c"
| "wf_query (QGroup ch) = wf_chain ch"
| "wf_chain QNil = True"
| "wf_chain (QFirst q) = wf_query q"
| "wf_chain (QSnoc ch op q) = (wf_chain ch \<and> ch \<noteq> QNil \<and> op \<in> set operators \<and> wf_query q)"

lemma calls_syntax:
  "operand x \<Longrightarrow> \<exists>q. wf_query q \<and> x = query_calls q"
  "chain cs \<Longrightarrow> \<exists>ch. wf_chain ch \<and> cs = chain_calls ch"
proof (induction rule: operand_chain.inducts)
  case (operand_leaf c)
  then show ?case by (intro exI [of _ "QLeaf c"]) simp
next
  case (operand_group cs)
  then obtain ch where "wf_chain ch" "cs = chain_calls ch" by blast
  then show ?case by (intro exI [of _ "QGroup ch"]) simp
next
  case chain_empty
  show ?case by (intro exI [of _ QNil]) simp
next
  case (chain_one x)
  then obtain q where "wf_query q" "x = query_calls q" by blast
  then show ?case by (intro exI [of _ "QFirst q"]) simp
next
  case (chain_more cs x op)
  then obtain ch q where "wf_chain ch" "cs = chain_calls ch" "wf_query q" "x = query_calls q"
    by blast
  with chain_more.hyps show ?case by (intro exI [of _ "QSnoc ch op q"]) auto
qed

lemma query_calls_nonempty: "query_calls q \<noteq> []"
  by (cases q) simp_all

lemma chain_calls_nil: "chain_calls ch = [] \<longleftrightarrow> ch = QNil"
  by (cases ch) (simp_all add: query_calls_nonempty)

lemma syntax_calls:
  "wf_query q \<Longrightarrow> operand (query_calls q)"
  "wf_chain ch \<Longrightarrow> chain (chain_calls ch)"
  by (induction q and ch)
    (auto simp: chain_calls_nil intro: operand_chain.intros)

subsection \<open>Two readings\<close>

fun left_query :: "(bcall \<Rightarrow> bool) \<Rightarrow> query \<Rightarrow> bool"
  and left_chain :: "(bcall \<Rightarrow> bool) \<Rightarrow> qchain \<Rightarrow> bool" where
  "left_query v (QLeaf c) = v c"
| "left_query v (QGroup ch) = left_chain v ch"
| "left_chain v QNil = True"
| "left_chain v (QFirst q) = left_query v q"
| "left_chain v (QSnoc ch op q) =
     (if op = ''AND'' then left_chain v ch \<and> left_query v q
      else left_chain v ch \<or> left_query v q)"

text \<open>For SQL: the disjunction of the finished conjunctions, and the conjunction being read.\<close>

fun sql_query :: "(bcall \<Rightarrow> bool) \<Rightarrow> query \<Rightarrow> bool"
  and sql_read :: "(bcall \<Rightarrow> bool) \<Rightarrow> qchain \<Rightarrow> bool \<times> bool" where
  "sql_query v (QLeaf c) = v c"
| "sql_query v (QGroup ch) = (fst (sql_read v ch) \<or> snd (sql_read v ch))"
| "sql_read v QNil = (False, True)"
| "sql_read v (QFirst q) = (False, sql_query v q)"
| "sql_read v (QSnoc ch op q) =
     (let (d, c) = sql_read v ch
      in if op = ''AND'' then (d, c \<and> sql_query v q) else (d \<or> c, sql_query v q))"

definition sql_reading :: "(bcall \<Rightarrow> bool) \<Rightarrow> qchain \<Rightarrow> bool" where
  "sql_reading v ch = (fst (sql_read v ch) \<or> snd (sql_read v ch))"

text \<open>
  The readings agree where no conjunct comes after a disjunction without a group of its own.
\<close>

fun has_or :: "qchain \<Rightarrow> bool" where
  "has_or QNil = False"
| "has_or (QFirst q) = False"
| "has_or (QSnoc ch op q) = (has_or ch \<or> op \<noteq> ''AND'')"

fun unambiguous_query :: "query \<Rightarrow> bool" and unambiguous :: "qchain \<Rightarrow> bool" where
  "unambiguous_query (QLeaf c) = True"
| "unambiguous_query (QGroup ch) = unambiguous ch"
| "unambiguous QNil = True"
| "unambiguous (QFirst q) = unambiguous_query q"
| "unambiguous (QSnoc ch op q) =
     (unambiguous ch \<and> unambiguous_query q \<and> (op = ''AND'' \<longrightarrow> \<not> has_or ch))"

lemma sql_read_no_or: "\<not> has_or ch \<Longrightarrow> \<not> fst (sql_read v ch)"
  by (induction ch rule: has_or.induct) (auto simp: Let_def split: prod.splits)

lemma readings_agree:
  "unambiguous_query q \<Longrightarrow> sql_query v q = left_query v q"
  "unambiguous ch \<Longrightarrow> sql_reading v ch = left_chain v ch"
proof (induction q and ch)
  case (QSnoc ch op q)
  then show ?case
    using sql_read_no_or [of ch v]
    by (auto simp: sql_reading_def Let_def split: prod.splits)
qed (simp_all add: sql_reading_def)

end
