(* ===== verification/Wildcard.thy ===== *)
theory Wildcard imports Prelude begin

text \<open>
  \<^verbatim>\<open>memory/wildcard.go\<close>: the wildcard matcher. Its \<^verbatim>\<open>goto Loop\<close> is \<open>wild_loop\<close>, one turn of which is
  \<open>wild_step\<close>; the indices that are \<open>-1\<close> while unset are options. The section after the model
  gives the matcher a specification (\<open>glob\<close>), proves that it terminates, that it only accepts
  what the specification accepts, and that it decides the patterns without question marks.
\<close>

record wild =
  patternIndex :: nat
  sIndex :: nat
  lastStar :: nat
  lastEroteme :: nat
  lastErotemeByte :: char
  star :: "nat option"
  eroteme :: "nat option"

datatype wild_next = Loop wild | CheckPattern | Answer bool

definition star_backtrack :: "wild \<Rightarrow> nat \<Rightarrow> wild" where
  "star_backtrack w st =
     w\<lparr>patternIndex := st + 1, lastStar := lastStar w + 1, sIndex := lastStar w + 1\<rparr>"

definition advance :: "wild \<Rightarrow> wild" where
  "advance w = w\<lparr>patternIndex := patternIndex w + 1, sIndex := sIndex w + 1\<rparr>"

definition wild_step :: "string \<Rightarrow> string \<Rightarrow> wild \<Rightarrow> wild_next" where
  "wild_step pattern s w =
     (if sIndex w \<ge> length s then CheckPattern
      else if patternIndex w \<ge> length pattern
      then (case star w of
              Some st \<Rightarrow> Loop (star_backtrack w st)
            | None \<Rightarrow> Answer False)
      else if pattern ! patternIndex w = CHR ''?''
      then Loop (advance (w\<lparr>eroteme := Some (patternIndex w), lastEroteme := sIndex w,
                            lastErotemeByte := s ! sIndex w\<rparr>))
      else if pattern ! patternIndex w = CHR ''*''
      then Loop (w\<lparr>star := Some (patternIndex w), lastStar := sIndex w,
                   patternIndex := patternIndex w + 1\<rparr>)
      else if pattern ! patternIndex w \<noteq> s ! sIndex w
      then (case eroteme w of
              Some e \<Rightarrow>
                Loop (w\<lparr>patternIndex := e + 1, sIndex := lastEroteme w, eroteme := None\<rparr>)
            | None \<Rightarrow>
                (case star w of
                   Some st \<Rightarrow> Loop (star_backtrack w st)
                 | None \<Rightarrow> Answer False))
      else if eroteme w \<noteq> None \<and> lastErotemeByte w \<noteq> s ! sIndex w
      then Loop (advance (w\<lparr>eroteme := None\<rparr>))
      else Loop (advance w))"

text \<open>The rest of the pattern may only hold wildcards.\<close>

function check_pattern :: "string \<Rightarrow> nat \<Rightarrow> bool" where
  "check_pattern pattern i =
     (if i < length pattern \<and> (pattern ! i = CHR ''*'' \<or> pattern ! i = CHR ''?'')
      then check_pattern pattern (i + 1)
      else i = length pattern)"
  by pat_completeness auto
termination
  by (relation "measure (\<lambda>(p, i). length p - i)") auto

declare check_pattern.simps [simp del]

text \<open>
  Termination. \<open>low\<close> is the first pattern index the loop can still return to before its star,
  \<open>base\<close> the first it can return to at all: it never decreases. While it stays the same, a
  question mark before the star is given up once, then the star moves right, then its match
  grows, and in between the pattern index moves right past question marks given up.
\<close>

definition low :: "wild \<Rightarrow> nat" where
  "low w = (case eroteme w of None \<Rightarrow> patternIndex w | Some e \<Rightarrow> min (patternIndex w) (e + 1))"

definition base :: "string \<Rightarrow> wild \<Rightarrow> nat" where
  "base pattern w =
     (case star w of None \<Rightarrow> 0 | Some st \<Rightarrow> min (length pattern) (min (low w) (st + 1)))"

definition wild_measures :: "string \<Rightarrow> string \<Rightarrow> (wild \<Rightarrow> nat) list" where
  "wild_measures pattern s =
     [\<lambda>w. if sIndex w < length s then 1 else 0,
      \<lambda>w. length pattern - base pattern w,
      \<lambda>w. case (eroteme w, star w) of (Some e, Some st) \<Rightarrow> if e \<le> st then 1 else 0 | _ \<Rightarrow> 0,
      \<lambda>w. case star w of Some st \<Rightarrow> if patternIndex w \<le> st then 1 else 0 | None \<Rightarrow> 0,
      \<lambda>w. case star w of Some st \<Rightarrow> length pattern - st | None \<Rightarrow> 0,
      \<lambda>w. length s - lastStar w,
      \<lambda>w. length pattern - low w,
      \<lambda>w. if eroteme w = None then 0 else 1,
      \<lambda>w. length pattern - patternIndex w]"

lemma diff_strict: "b < c \<Longrightarrow> c \<le> (n::nat) \<Longrightarrow> n - c < n - b"
  by arith

lemma base_le: "base pattern w \<le> length pattern"
  by (simp add: base_def split: option.split)

text \<open>The first two components: a turn never lowers \<open>base\<close>, and raising it is progress.\<close>

lemma decreasesI:
  assumes "sIndex w < length s" and "base pattern w \<le> base pattern w'"
    and "base pattern w = base pattern w' \<Longrightarrow> sIndex w' < length s
           \<Longrightarrow> (w', w) \<in> measures (drop 2 (wild_measures pattern s))"
  shows "(w', w) \<in> measures (wild_measures pattern s)"
proof -
  consider "length s \<le> sIndex w'" | "sIndex w' < length s" "base pattern w < base pattern w'"
    | "sIndex w' < length s" "base pattern w = base pattern w'"
    using assms(2) by linarith
  then show ?thesis
  proof cases
    case 1
    with assms(1) show ?thesis by (simp add: wild_measures_def)
  next
    case 2
    with diff_strict [OF 2(2) base_le] assms(1) show ?thesis
      by (simp add: wild_measures_def)
  next
    case 3
    with assms(1,3) show ?thesis by (simp add: wild_measures_def)
  qed
qed

lemmas wild_measure_defs =
  wild_measures_def base_def low_def star_backtrack_def advance_def

lemma star_backtrack_decreases:
  assumes "sIndex w < length s" and "star w = Some st"
    and "eroteme w = None \<or> patternIndex w \<ge> length pattern"
  shows "(star_backtrack w st, w) \<in> measures (wild_measures pattern s)"
  by (rule decreasesI [OF assms(1)])
    (use assms in \<open>auto simp: wild_measure_defs split: option.splits\<close>)

lemma eroteme_backtrack_decreases:
  assumes "sIndex w < length s" and "patternIndex w < length pattern" and "eroteme w = Some e"
  shows "(w\<lparr>patternIndex := e + 1, sIndex := lastEroteme w, eroteme := None\<rparr>, w)
           \<in> measures (wild_measures pattern s)"
  by (rule decreasesI [OF assms(1)])
    (use assms in \<open>auto simp: wild_measure_defs split: option.splits\<close>)

lemma eroteme_decreases:
  assumes "sIndex w < length s" and "patternIndex w < length pattern"
  shows "(advance (w\<lparr>eroteme := Some (patternIndex w), lastEroteme := k, lastErotemeByte := c\<rparr>), w)
           \<in> measures (wild_measures pattern s)"
  by (rule decreasesI [OF assms(1)])
    (use assms in \<open>auto simp: wild_measure_defs split: option.splits\<close>)

lemma star_decreases:
  assumes "sIndex w < length s" and "patternIndex w < length pattern"
  shows "(w\<lparr>star := Some (patternIndex w), lastStar := k, patternIndex := patternIndex w + 1\<rparr>, w)
           \<in> measures (wild_measures pattern s)"
  by (rule decreasesI [OF assms(1)])
    (use assms in \<open>auto simp: wild_measure_defs split: option.splits\<close>)

lemma advance_decreases:
  assumes "sIndex w < length s" and "patternIndex w < length pattern"
  shows "(advance w, w) \<in> measures (wild_measures pattern s)"
    "(advance (w\<lparr>eroteme := None\<rparr>), w) \<in> measures (wild_measures pattern s)"
  by (rule decreasesI [OF assms(1)];
      use assms in \<open>auto simp: wild_measure_defs split: option.splits\<close>)+

text \<open>The turns of the loop, by the branch taken.\<close>

lemma wild_step_LoopE:
  assumes "wild_step pattern s w = Loop w'"
  obtains (star_back) st where "sIndex w < length s" "star w = Some st" "w' = star_backtrack w st"
      "eroteme w = None \<or> patternIndex w \<ge> length pattern"
  | (eroteme_back) e where "sIndex w < length s" "patternIndex w < length pattern"
      "eroteme w = Some e"
      "w' = w\<lparr>patternIndex := e + 1, sIndex := lastEroteme w, eroteme := None\<rparr>"
  | (eroteme) "sIndex w < length s" "patternIndex w < length pattern"
      "pattern ! patternIndex w = CHR ''?''"
      "w' = advance (w\<lparr>eroteme := Some (patternIndex w), lastEroteme := sIndex w,
                       lastErotemeByte := s ! sIndex w\<rparr>)"
  | (star) "sIndex w < length s" "patternIndex w < length pattern"
      "pattern ! patternIndex w = CHR ''*''"
      "w' = w\<lparr>star := Some (patternIndex w), lastStar := sIndex w,
              patternIndex := patternIndex w + 1\<rparr>"
  | (advance) "sIndex w < length s" "patternIndex w < length pattern"
      "pattern ! patternIndex w = s ! sIndex w" "pattern ! patternIndex w \<noteq> CHR ''*''"
      "w' = advance w \<or> w' = advance (w\<lparr>eroteme := None\<rparr>)"
proof (cases "sIndex w < length s \<and> patternIndex w < length pattern")
  case False
  with assms star_back show ?thesis by (auto simp: wild_step_def split: if_splits option.splits)
next
  case True
  then have i: "\<not> length s \<le> sIndex w" "\<not> length pattern \<le> patternIndex w" by auto
  consider "pattern ! patternIndex w = CHR ''?''" | "pattern ! patternIndex w = CHR ''*''"
    | "pattern ! patternIndex w \<notin> {CHR ''?'', CHR ''*''}" "pattern ! patternIndex w \<noteq> s ! sIndex w"
    | "pattern ! patternIndex w \<notin> {CHR ''?'', CHR ''*''}" "pattern ! patternIndex w = s ! sIndex w"
    by blast
  then show ?thesis
  proof cases
    case 1
    with assms i eroteme show ?thesis by (simp add: wild_step_def)
  next
    case 2
    with assms i star show ?thesis by (simp add: wild_step_def)
  next
    case 3
    with assms i star_back eroteme_back show ?thesis
      by (auto simp: wild_step_def split: option.splits)
  next
    case 4
    with assms i advance show ?thesis by (auto simp: wild_step_def split: if_splits)
  qed
qed

lemma wild_step_decreases:
  assumes "wild_step pattern s w = Loop w'"
  shows "(w', w) \<in> measures (wild_measures pattern s)"
  using assms
proof (cases rule: wild_step_LoopE)
  case (star_back st)
  then show ?thesis by (simp add: star_backtrack_decreases)
next
  case (eroteme_back e)
  then show ?thesis by (metis eroteme_backtrack_decreases)
next
  case eroteme
  then show ?thesis by (metis eroteme_decreases)
next
  case star
  then show ?thesis by (metis star_decreases)
next
  case advance
  then show ?thesis using advance_decreases by blast
qed

function wild_loop :: "string \<Rightarrow> string \<Rightarrow> wild \<Rightarrow> bool" where
  "wild_loop pattern s w =
     (case wild_step pattern s w of
        Loop w' \<Rightarrow> wild_loop pattern s w'
      | CheckPattern \<Rightarrow> check_pattern pattern (patternIndex w)
      | Answer b \<Rightarrow> b)"
  by pat_completeness auto
termination
proof (relation "same_fst (\<lambda>p. True) (\<lambda>p. same_fst (\<lambda>s. True) (\<lambda>s. measures (wild_measures p s)))",
    goal_cases)
  case 1
  show ?case by (intro wf_same_fst wf_measures)
next
  case (2 pattern s w w')
  then show ?case by (simp add: same_fst_def wild_step_decreases)
qed

declare wild_loop.simps [simp del]

definition wild_init :: wild where
  "wild_init =
     \<lparr>patternIndex = 0, sIndex = 0, lastStar = 0, lastEroteme = 0, lastErotemeByte = CHR 0x00,
      star = None, eroteme = None\<rparr>"

definition wildcardMatch :: "string \<Rightarrow> string \<Rightarrow> bool" where
  "wildcardMatch pattern s =
     (if pattern = '''' then s = pattern
      else if pattern = ''*'' \<or> s = pattern then True
      else wild_loop pattern s wild_init)"

subsection \<open>Specification\<close>

text \<open>A star matches any bytes, a question mark one byte or none.\<close>

fun glob :: "string \<Rightarrow> string \<Rightarrow> bool" where
  "glob [] s = (s = [])"
| "glob (p # ps) [] = ((p = CHR ''*'' \<or> p = CHR ''?'') \<and> glob ps [])"
| "glob (p # ps) (c # cs) =
     (if p = CHR ''*'' then glob ps (c # cs) \<or> glob (p # ps) cs
      else if p = CHR ''?'' then glob ps (c # cs) \<or> glob ps cs
      else p = c \<and> glob ps cs)"

lemma glob_star_skip: "glob ps s \<Longrightarrow> glob (CHR ''*'' # ps) s"
  by (cases s) auto

lemma glob_star_empty: "glob [CHR ''*''] t"
  by (induction t) auto

lemma glob_star: "glob (CHR ''*'' # ps) s \<longleftrightarrow> (\<exists>t u. s = t @ u \<and> glob ps u)"
proof (induction s)
  case Nil
  then show ?case by simp
next
  case (Cons c s)
  have "(\<exists>t u. c # s = t @ u \<and> glob ps u) \<longleftrightarrow>
          glob ps (c # s) \<or> (\<exists>t u. s = t @ u \<and> glob ps u)"
    by (metis append_Cons append_Nil append_eq_Cons_conv)
  with Cons show ?case by simp
qed

lemma glob_append: "glob p s \<Longrightarrow> glob q t \<Longrightarrow> glob (p @ q) (s @ t)"
proof (induction p s rule: glob.induct)
  case (2 p ps)
  then show ?case by (cases t) (auto simp: glob_star_skip)
qed (auto split: if_splits)

lemma glob_refl: "glob p p"
proof (induction p)
  case (Cons c p)
  then show ?case by (auto simp: glob_star_skip)
qed simp

subsection \<open>The matcher accepts only what the specification accepts\<close>

text \<open>What has been matched: the pattern up to its index against the text up to its index, and
  the same at the remembered question mark and star.\<close>

definition sound_inv :: "string \<Rightarrow> string \<Rightarrow> wild \<Rightarrow> bool" where
  "sound_inv pattern s w =
     (glob (take (patternIndex w) pattern) (take (sIndex w) s) \<and>
      (\<forall>st. star w = Some st \<longrightarrow> st < length pattern \<and> pattern ! st = CHR ''*'' \<and>
         glob (take (st + 1) pattern) (take (lastStar w) s)) \<and>
      (\<forall>e. eroteme w = Some e \<longrightarrow> e < length pattern \<and> pattern ! e = CHR ''?'' \<and>
         glob (take e pattern) (take (lastEroteme w) s)))"

lemma glob_take_Suc:
  assumes "glob (take i p) t" and "i < length p" and "glob [p ! i] u"
  shows "glob (take (Suc i) p) (t @ u)"
  using glob_append [OF assms(1,3)] assms(2) by (simp add: take_Suc_conv_app_nth)

lemma glob_star_more: "glob (q @ [CHR ''*'']) t \<Longrightarrow> glob (q @ [CHR ''*'']) (t @ u)"
proof (induction q t rule: glob.induct)
  case (1 t)
  then show ?case by (simp add: glob_star_empty)
next
  case (2 p ps)
  then show ?case by (cases u) (auto simp: glob_star_skip)
next
  case (3 p ps c cs)
  then show ?case by (auto split: if_splits)
qed

lemma glob_take_star_more:
  assumes "glob (take (Suc st) p) (take k s)" and "st < length p" and "p ! st = CHR ''*''"
  shows "glob (take (Suc st) p) (take (Suc k) s)"
proof -
  have stars: "glob (q @ [CHR ''*'']) t \<Longrightarrow> glob (q @ [CHR ''*'']) (t @ u)" for q t u
    using glob_star_more by blast
  have "take (Suc k) s = take k s @ take 1 (drop k s)"
    by (metis Suc_eq_plus1 take_add)
  with stars [of "take st p" "take k s" "take 1 (drop k s)"] assms show ?thesis
    by (simp add: take_Suc_conv_app_nth)
qed

lemma glob_single: "c \<noteq> CHR ''*'' \<Longrightarrow> glob [c] [c]"
  by simp

lemma sound_step:
  assumes "sound_inv pattern s w" and "wild_step pattern s w = Loop w'"
  shows "sound_inv pattern s w'"
proof -
  have adv: "sIndex w < length s \<Longrightarrow> patternIndex w < length pattern
      \<Longrightarrow> glob [pattern ! patternIndex w] [s ! sIndex w]
      \<Longrightarrow> glob (take (Suc (patternIndex w)) pattern) (take (Suc (sIndex w)) s)"
    using glob_take_Suc [of "patternIndex w" pattern "take (sIndex w) s" "[s ! sIndex w]"] assms(1)
    by (simp add: sound_inv_def take_Suc_conv_app_nth)
  have none: "i < length pattern \<Longrightarrow> pattern ! i \<in> {CHR ''*'', CHR ''?''}
      \<Longrightarrow> glob (take i pattern) t \<Longrightarrow> glob (take (Suc i) pattern) t" for i t
    using glob_take_Suc [of i pattern t "[]"] by auto
  have one: "glob [CHR ''?''] [c]" for c
    by simp
  have same: "c \<noteq> CHR ''*'' \<Longrightarrow> glob [c] [c]" for c
    by (rule glob_single)
  note inv = assms(1) [unfolded sound_inv_def]
  from assms(2) show ?thesis
  proof (cases rule: wild_step_LoopE)
    case (star_back st)
    with inv glob_take_star_more [of st pattern "lastStar w" s] show ?thesis
      by (simp add: sound_inv_def star_backtrack_def)
  next
    case (eroteme_back e)
    with inv none [of e] show ?thesis by (simp add: sound_inv_def)
  next
    case eroteme
    with inv adv one show ?thesis by (simp add: sound_inv_def advance_def)
  next
    case star
    with inv none [of "patternIndex w"] show ?thesis by (simp add: sound_inv_def)
  next
    case advance
    with inv adv same [of "s ! sIndex w"] show ?thesis
      by (auto simp: sound_inv_def advance_def)
  qed
qed

lemma check_pattern_glob: "i \<le> length p \<Longrightarrow> check_pattern p i \<Longrightarrow> glob (drop i p) []"
proof (induction p i rule: check_pattern.induct)
  case (1 p i)
  then show ?case
    by (subst (asm) check_pattern.simps)
      (auto simp: Cons_nth_drop_Suc [symmetric] split: if_splits)
qed

lemma wild_loop_sound:
  "sound_inv pattern s w \<Longrightarrow> patternIndex w \<le> length pattern \<Longrightarrow> wild_loop pattern s w
     \<Longrightarrow> glob pattern s"
proof (induction pattern s w rule: wild_loop.induct)
  case (1 pattern s w)
  show ?case
  proof (cases "wild_step pattern s w")
    case (Loop w')
    have "patternIndex w' \<le> length pattern"
      using Loop "1.prems"(1,2)
      by (cases rule: wild_step_LoopE)
        (auto simp: sound_inv_def star_backtrack_def advance_def)
    with 1 Loop sound_step [OF "1.prems"(1) Loop] show ?thesis
      by (simp add: wild_loop.simps [of pattern s w])
  next
    case CheckPattern
    then have "length s \<le> sIndex w"
      by (auto simp: wild_step_def split: if_splits option.splits)
    with "1.prems" CheckPattern have "glob (take (patternIndex w) pattern) s"
      "glob (drop (patternIndex w) pattern) []"
      by (auto simp: sound_inv_def wild_loop.simps [of pattern s w] intro: check_pattern_glob)
    then show ?thesis using glob_append by fastforce
  next
    case (Answer b)
    then have "\<not> b" by (auto simp: wild_step_def split: if_splits option.splits)
    with 1 Answer show ?thesis by (simp add: wild_loop.simps [of pattern s w])
  qed
qed

lemma wild_init_sound: "sound_inv pattern s wild_init"
  by (simp add: sound_inv_def wild_init_def)

lemma wildcard_sound: "wildcardMatch pattern s \<Longrightarrow> glob pattern s"
  using wild_loop_sound [OF wild_init_sound] glob_star_empty glob_refl
  by (fastforce simp: wildcardMatch_def wild_init_def split: if_splits)

subsection \<open>Without question marks the matcher decides the specification\<close>

definition literal :: "string \<Rightarrow> bool" where
  "literal q = (CHR ''*'' \<notin> set q \<and> CHR ''?'' \<notin> set q)"

lemma glob_literal_run: "literal q \<Longrightarrow> glob (q @ r) t \<longleftrightarrow> (\<exists>u. t = q @ u \<and> glob r u)"
proof (induction q arbitrary: t)
  case (Cons c q)
  then show ?case by (cases t) (auto simp: literal_def)
qed (simp add: literal_def)

text \<open>
  After a star the matcher has matched a run of literals right behind it; a match of the whole
  text, if there is one, starts the rest of the pattern at the star's index or later.
\<close>

definition complete_inv :: "string \<Rightarrow> string \<Rightarrow> wild \<Rightarrow> bool" where
  "complete_inv p s w =
     (eroteme w = None \<and> patternIndex w \<le> length p \<and> sIndex w \<le> length s \<and>
      (case star w of
         None \<Rightarrow> glob (drop (patternIndex w) p) (drop (sIndex w) s)
       | Some st \<Rightarrow> st < length p \<and>
           (\<exists>seg. literal seg \<and> drop (Suc st) p = seg @ drop (patternIndex w) p \<and>
              drop (lastStar w) s = seg @ drop (sIndex w) s) \<and>
           (\<exists>k \<ge> lastStar w. glob (drop (Suc st) p) (drop k s))))"

lemma complete_backtrack:
  assumes "complete_inv p s w" and "star w = Some st" and "sIndex w < length s"
    and "\<And>seg. literal seg \<Longrightarrow> \<not> glob (seg @ drop (patternIndex w) p) (seg @ drop (sIndex w) s)"
  shows "complete_inv p s (star_backtrack w st)"
proof -
  from assms(1,2) obtain seg k where
    seg: "literal seg" "drop (Suc st) p = seg @ drop (patternIndex w) p"
      "drop (lastStar w) s = seg @ drop (sIndex w) s" and
    k: "lastStar w \<le> k" "glob (drop (Suc st) p) (drop k s)" and st: "st < length p"
    by (auto simp: complete_inv_def)
  from seg assms(4) have "\<not> glob (drop (Suc st) p) (drop (lastStar w) s)" by simp
  with k have "Suc (lastStar w) \<le> k" by (cases "k = lastStar w") auto
  moreover from seg(3) assms(3) have "lastStar w < length s"
    by (metis append_is_Nil_conv drop_eq_Nil leI not_less)
  ultimately show ?thesis
    using assms(1,2) k(2) st
    by (auto simp: complete_inv_def star_backtrack_def literal_def intro!: exI [of _ "[]"])
qed

lemma complete_star:
  assumes inv: "complete_inv p s w" and i: "patternIndex w < length p" "sIndex w < length s"
    and star: "p ! patternIndex w = CHR ''*''"
  shows "complete_inv p s
    (w\<lparr>star := Some (patternIndex w), lastStar := sIndex w, patternIndex := patternIndex w + 1\<rparr>)"
proof -
  let ?r = "drop (Suc (patternIndex w)) p"
  have p: "drop (patternIndex w) p = CHR ''*'' # ?r"
    using i(1) star by (simp add: Cons_nth_drop_Suc [symmetric])
  have later: "\<exists>k \<ge> sIndex w. glob ?r (drop k s)"
    if "drop k s = seg @ u" "sIndex w \<le> k + length seg" "glob (CHR ''*'' # ?r) u" for k seg u
  proof -
    from that(3) obtain t v where tv: "u = t @ v" "glob ?r v" by (auto simp: glob_star)
    with that(1) have "v = drop (k + length seg + length t) s"
      by (metis add.assoc append_assoc append_eq_conv_conj drop_drop add.commute)
    with tv(2) that(2) show ?thesis by (intro exI [of _ "k + length seg + length t"]) simp
  qed
  have "\<exists>k \<ge> sIndex w. glob ?r (drop k s)"
  proof (cases "star w")
    case None
    with inv p later [of "sIndex w" "[]" "drop (sIndex w) s"] show ?thesis
      by (simp add: complete_inv_def)
  next
    case (Some st)
    with inv obtain seg k where
      seg: "literal seg" "drop (Suc st) p = seg @ drop (patternIndex w) p"
        "drop (lastStar w) s = seg @ drop (sIndex w) s" and
      k: "lastStar w \<le> k" "glob (drop (Suc st) p) (drop k s)"
      by (auto simp: complete_inv_def)
    from seg(1,2) k(2) p obtain u where u: "drop k s = seg @ u" "glob (CHR ''*'' # ?r) u"
      by (auto simp: glob_literal_run)
    from seg(3) i(2) have "sIndex w = lastStar w + length seg"
      by (drule_tac arg_cong [where f = length]) auto
    with k(1) u later show ?thesis by auto
  qed
  with inv i show ?thesis
    by (auto simp: complete_inv_def literal_def intro!: exI [of _ "[]"])
qed

lemma complete_advance:
  assumes inv: "complete_inv p s w" and i: "patternIndex w < length p" "sIndex w < length s"
    and lit: "literal [p ! patternIndex w]" and eq: "p ! patternIndex w = s ! sIndex w"
  shows "complete_inv p s (advance w)"
proof -
  let ?x = "p ! patternIndex w"
  have d: "drop (patternIndex w) p = ?x # drop (Suc (patternIndex w)) p"
    "drop (sIndex w) s = ?x # drop (Suc (sIndex w)) s"
    using i eq by (simp_all add: Cons_nth_drop_Suc [symmetric])
  show ?thesis
  proof (cases "star w")
    case None
    with inv i d lit show ?thesis
      by (auto simp: complete_inv_def advance_def literal_def)
  next
    case (Some st)
    with inv obtain seg where "literal seg" "drop (Suc st) p = seg @ drop (patternIndex w) p"
        "drop (lastStar w) s = seg @ drop (sIndex w) s"
      by (auto simp: complete_inv_def)
    with d lit have "literal (seg @ [?x])"
      "drop (Suc st) p = (seg @ [?x]) @ drop (Suc (patternIndex w)) p"
      "drop (lastStar w) s = (seg @ [?x]) @ drop (Suc (sIndex w)) s"
      by (simp_all add: literal_def)
    with inv Some i show ?thesis
      unfolding complete_inv_def advance_def by fastforce
  qed
qed

lemma glob_nil_check: "i \<le> length p \<Longrightarrow> glob (drop i p) [] \<Longrightarrow> check_pattern p i"
proof (induction p i rule: check_pattern.induct)
  case (1 p i)
  show ?case
  proof (cases "i < length p")
    case True
    with "1.prems"(2) have "(p ! i = CHR ''*'' \<or> p ! i = CHR ''?'') \<and> glob (drop (Suc i) p) []"
      by (simp add: Cons_nth_drop_Suc [symmetric])
    with True 1 show ?thesis by (simp add: check_pattern.simps [of p i])
  next
    case False
    with "1.prems"(1) have "i = length p" by simp
    then show ?thesis by (simp add: check_pattern.simps [of p "length p"])
  qed
qed

lemma wild_loop_complete:
  "CHR ''?'' \<notin> set p \<Longrightarrow> complete_inv p s w \<Longrightarrow> wild_loop p s w"
proof (induction p s w rule: wild_loop.induct)
  case (1 p s w)
  note inv = "1.prems"(2)
  let ?i = "patternIndex w" and ?j = "sIndex w"
  have erot: "eroteme w = None" using inv by (simp add: complete_inv_def)
  have next_turn: "wild_loop p s w" if "wild_step p s w = Loop w'" "complete_inv p s w'" for w'
    using "1.IH" [OF that(1) "1.prems"(1) that(2)] that(1) by (simp add: wild_loop.simps [of p s w])
  consider (finish) "length s \<le> ?j" | (over) "?j < length s" "length p \<le> ?i"
    | (star) "?j < length s" "?i < length p" "p ! ?i = CHR ''*''"
    | (lit) "?j < length s" "?i < length p" "literal [p ! ?i]"
    using "1.prems"(1) by (force simp: literal_def)
  then show ?case
  proof cases
    case finish
    then have s: "drop ?j s = []" by simp
    have "glob (drop ?i p) []"
    proof (cases "star w")
      case None
      with inv s show ?thesis by (simp add: complete_inv_def)
    next
      case (Some st)
      with inv s obtain seg k where "literal seg" "drop (Suc st) p = seg @ drop ?i p"
        "drop (lastStar w) s = seg" "lastStar w \<le> k" "glob (drop (Suc st) p) (drop k s)"
        by (auto simp: complete_inv_def)
      moreover from this obtain u where u: "drop k s = seg @ u" "glob (drop ?i p) u"
        by (auto simp: glob_literal_run)
      ultimately have "length s - k = length seg + length u" "length s - lastStar w = length seg"
        "lastStar w \<le> k"
        by (metis length_append length_drop)+
      then have "length u = 0" by linarith
      with u show ?thesis by simp
    qed
    with inv finish show ?thesis
      by (simp add: wild_loop.simps [of p s w] wild_step_def glob_nil_check complete_inv_def)
  next
    case over
    then obtain y v where s: "drop ?j s = y # v" by (cases "drop ?j s") auto
    from over have p: "drop ?i p = []" by simp
    have ng: "\<not> glob (seg @ drop ?i p) (seg @ drop ?j s)" if "literal seg" for seg
      using that s p by (simp only: glob_literal_run) simp
    show ?thesis
    proof (cases "star w")
      case None
      with inv s p show ?thesis by (simp add: complete_inv_def)
    next
      case (Some st)
      with over next_turn complete_backtrack [OF inv Some over(1) ng] show ?thesis
        by (simp add: wild_step_def)
    qed
  next
    case star
    with next_turn complete_star [OF inv star(2,1,3)] show ?thesis
      by (simp add: wild_step_def)
  next
    case lit
    have d: "drop ?i p = p ! ?i # drop (Suc ?i) p" "drop ?j s = s ! ?j # drop (Suc ?j) s"
      using lit by (simp_all add: Cons_nth_drop_Suc)
    show ?thesis
    proof (cases "p ! ?i = s ! ?j")
      case True
      with lit erot have "wild_step p s w = Loop (advance w)"
        by (auto simp: wild_step_def literal_def)
      then show ?thesis by (rule next_turn [OF _ complete_advance [OF inv lit(2,1,3) True]])
    next
      case False
      have ng: "\<not> glob (seg @ drop ?i p) (seg @ drop ?j s)" if "literal seg" for seg
        using that d False lit(3) by (simp only: glob_literal_run) (auto simp: literal_def)
      show ?thesis
      proof (cases "star w")
        case None
        with inv d False lit(3) show ?thesis by (auto simp: complete_inv_def literal_def)
      next
        case (Some st)
        with lit erot False have "wild_step p s w = Loop (star_backtrack w st)"
          by (auto simp: wild_step_def literal_def)
        then show ?thesis by (rule next_turn [OF _ complete_backtrack [OF inv Some lit(1) ng]])
      qed
    qed
  qed
qed

lemma wildcard_decides:
  assumes "CHR ''?'' \<notin> set pattern"
  shows "wildcardMatch pattern s \<longleftrightarrow> glob pattern s"
proof
  assume "glob pattern s"
  then have "complete_inv pattern s wild_init"
    by (simp add: complete_inv_def wild_init_def)
  with \<open>glob pattern s\<close> wild_loop_complete [OF assms] show "wildcardMatch pattern s"
    by (auto simp: wildcardMatch_def)
qed (rule wildcard_sound)

text \<open>A term between two stars is a substring search.\<close>

lemma glob_substring:
  assumes "literal t"
  shows "glob (CHR ''*'' # t @ ''*'') s \<longleftrightarrow> (\<exists>u v. s = u @ t @ v)"
  by (auto simp: glob_star glob_literal_run [OF assms])

lemma wildcard_substring:
  "literal t \<Longrightarrow> wildcardMatch (''*'' @ t @ ''*'') s \<longleftrightarrow> (\<exists>u v. s = u @ t @ v)"
  using wildcard_decides [of "''*'' @ t @ ''*''" s] glob_substring [of t s]
  by (simp add: literal_def)

end
