(* ===== verification/MemoryExpr.thy ===== *)
theory MemoryExpr imports QuerySyntax Wildcard begin

text \<open>
  \<^verbatim>\<open>memory/memory_expr.go\<close>: the builder that turns an expression into a filter on log entries.
  \<open>json\<close> is the dynamic type of a decoded value. Decoding and encoding are those of Go's
  \<^verbatim>\<open>encoding/json\<close> and parameters of the model: \<open>unmarshal\<close> gives the decoded object of an entry's
  content or nothing on an error, \<open>marshal\<close> the text of a value.

  The evaluation threads the decoded map, because \<^verbatim>\<open>memExprGetText\<close> caches the text of a value
  that is not a string under the key \<^verbatim>\<open>"___cs"+field\<close> of the same map, and it can panic, because
  it asserts that what it finds there is a string.
\<close>

datatype json =
    JNull
  | JBool bool
  | JNum float64
  | JStr string
  | JArr "json list"
  | JObj "(string \<times> json) list"

type_synonym jmap = "string \<rightharpoonup> json"

datatype memExpr =
    MGroup "memExpr list"
  | MOR "memExpr list"
  | MAND "memExpr list"
  | MText string string bool bool
  | MNumber string string float64
  | MBetween string float64 float64
  | MTextIn string "string list"
  | MNumberIn string "float64 list"

record MemoryExprBuilder =
  stack :: "memExpr list"
  groupStack :: "memExpr list list"

subsection \<open>Building\<close>

definition mem_add :: "memExpr \<Rightarrow> MemoryExprBuilder \<Rightarrow> MemoryExprBuilder" where
  "mem_add expr m =
     (if length (stack m) > 0
      then (case last (stack m) of
              MAND es \<Rightarrow> m\<lparr>stack := butlast (stack m) @ [MAND (es @ [expr])]\<rparr>
            | MOR es \<Rightarrow> m\<lparr>stack := butlast (stack m) @ [MOR (es @ [expr])]\<rparr>
            | _ \<Rightarrow> m\<lparr>stack := stack m @ [expr]\<rparr>)
      else m\<lparr>stack := stack m @ [expr]\<rparr>)"

definition mem_Operator :: "string \<Rightarrow> MemoryExprBuilder \<Rightarrow> MemoryExprBuilder" where
  "mem_Operator op m =
     (if length (stack m) = 0 then m
      else if op = ''AND''
      then (case last (stack m) of
              MAND es \<Rightarrow> m
            | e \<Rightarrow> m\<lparr>stack := butlast (stack m) @ [MAND [e]]\<rparr>)
      else (case last (stack m) of
              MOR es \<Rightarrow> m
            | e \<Rightarrow> m\<lparr>stack := butlast (stack m) @ [MOR [e]]\<rparr>))"

definition mem_GroupStart :: "MemoryExprBuilder \<Rightarrow> MemoryExprBuilder" where
  "mem_GroupStart m = m\<lparr>groupStack := groupStack m @ [stack m], stack := []\<rparr>"

definition mem_GroupEnd :: "MemoryExprBuilder \<Rightarrow> MemoryExprBuilder" where
  "mem_GroupEnd m =
     (if length (groupStack m) = 0 then m
      else mem_add (MGroup (stack m))
             (m\<lparr>stack := last (groupStack m), groupStack := butlast (groupStack m)\<rparr>))"

subsection \<open>Evaluating\<close>

definition memExprGetNumber :: "jmap \<Rightarrow> string \<Rightarrow> float64 option" where
  "memExprGetNumber j fld =
     (case j fld of
        None \<Rightarrow> None
      | Some (JNum x) \<Rightarrow> Some x
      | Some (JStr s) \<Rightarrow> ParseFloat s
      | Some _ \<Rightarrow> None)"

text \<open>\<open>None\<close> for an invalid value, and the map afterwards.\<close>

definition memExprGetText ::
  "(json \<Rightarrow> string option) \<Rightarrow> jmap \<Rightarrow> string \<Rightarrow> panic + (string option \<times> jmap)" where
  "memExprGetText marshal j fld =
     (let key = ''___cs'' @ fld; valid = (\<lambda>s. if s = '''' then None else Some s)
      in case j fld of
           None \<Rightarrow> Inr (None, j)
         | Some (JStr tv) \<Rightarrow> Inr (valid tv, j)
         | Some tv \<Rightarrow>
             (case j key of
                None \<Rightarrow>
                  (case marshal tv of
                     None \<Rightarrow> Inr (None, j(key \<mapsto> JStr ''''))
                   | Some b \<Rightarrow> Inr (None, j(key \<mapsto> JStr b)))
              | Some (JStr s) \<Rightarrow> Inr (valid s, j)
              | Some _ \<Rightarrow> Inl TypeAssertion))"

definition text_matches :: "string \<Rightarrow> bool \<Rightarrow> bool \<Rightarrow> string \<Rightarrow> bool" where
  "text_matches term isSequence isWildcard fieldValue =
     (if isSequence
      then (if isWildcard then wildcardMatch term fieldValue else fieldValue = term)
      else if isWildcard then wildcardMatch term fieldValue
      else wildcardMatch (''*'' @ term @ ''*'') fieldValue)"

definition number_matches :: "string \<Rightarrow> float64 \<Rightarrow> float64 \<Rightarrow> bool" where
  "number_matches condition fieldValue value =
     (if condition = ''='' then f64_eq fieldValue value
      else if condition = ''>'' then f64_lt value fieldValue
      else if condition = ''<'' then f64_lt fieldValue value
      else if condition = ''>='' then f64_le value fieldValue
      else if condition = ''<='' then f64_le fieldValue value
      else False)"

fun mem_eval :: "(json \<Rightarrow> string option) \<Rightarrow> memExpr \<Rightarrow> jmap \<Rightarrow> panic + (bool \<times> jmap)"
  and mem_eval_all :: "(json \<Rightarrow> string option) \<Rightarrow> memExpr list \<Rightarrow> jmap \<Rightarrow> panic + (bool \<times> jmap)"
  and mem_eval_any :: "(json \<Rightarrow> string option) \<Rightarrow> memExpr list \<Rightarrow> jmap \<Rightarrow> panic + (bool \<times> jmap)"
where
  "mem_eval marshal (MGroup es) j = mem_eval_all marshal es j"
| "mem_eval marshal (MOR es) j = mem_eval_any marshal es j"
| "mem_eval marshal (MAND es) j = mem_eval_all marshal es j"
| "mem_eval marshal (MText fld term sq w) j =
     (case memExprGetText marshal j fld of
        Inl p \<Rightarrow> Inl p
      | Inr (None, j) \<Rightarrow> Inr (False, j)
      | Inr (Some fieldValue, j) \<Rightarrow> Inr (text_matches term sq w fieldValue, j))"
| "mem_eval marshal (MNumber fld condition value) j =
     (case memExprGetNumber j fld of
        None \<Rightarrow> Inr (False, j)
      | Some fieldValue \<Rightarrow> Inr (number_matches condition fieldValue value, j))"
| "mem_eval marshal (MBetween fld x y) j =
     (case memExprGetNumber j fld of
        None \<Rightarrow> Inr (False, j)
      | Some fieldValue \<Rightarrow> Inr (f64_le x fieldValue \<and> f64_le fieldValue y, j))"
| "mem_eval marshal (MTextIn fld values) j =
     (case memExprGetText marshal j fld of
        Inl p \<Rightarrow> Inl p
      | Inr (None, j) \<Rightarrow> Inr (False, j)
      | Inr (Some fieldValue, j) \<Rightarrow> Inr (List.member values fieldValue, j))"
| "mem_eval marshal (MNumberIn fld values) j =
     (case memExprGetNumber j fld of
        None \<Rightarrow> Inr (False, j)
      | Some fieldValue \<Rightarrow> Inr (list_ex (f64_eq fieldValue) values, j))"
| "mem_eval_all marshal [] j = Inr (True, j)"
| "mem_eval_all marshal (e # es) j =
     (case mem_eval marshal e j of
        Inl p \<Rightarrow> Inl p
      | Inr (b, j) \<Rightarrow> if \<not> b then Inr (False, j) else mem_eval_all marshal es j)"
| "mem_eval_any marshal [] j = Inr (False, j)"
| "mem_eval_any marshal (e # es) j =
     (case mem_eval marshal e j of
        Inl p \<Rightarrow> Inl p
      | Inr (b, j) \<Rightarrow> if b then Inr (True, j) else mem_eval_any marshal es j)"

text \<open>The built filter, on the content of an entry.\<close>

type_synonym MemoryExpr = "string \<Rightarrow> panic + bool"

definition mem_Build ::
  "(string \<Rightarrow> jmap option) \<Rightarrow> (json \<Rightarrow> string option) \<Rightarrow> MemoryExprBuilder \<Rightarrow> MemoryExpr" where
  "mem_Build unmarshal marshal m =
     (if length (stack m) = 0 then (\<lambda>content. Inr True)
      else (\<lambda>content.
        case unmarshal content of
          None \<Rightarrow> Inr False
        | Some j \<Rightarrow> map_sum id fst (mem_eval_all marshal (stack m) j)))"

definition memoryBuilder ::
  "(string \<Rightarrow> jmap option) \<Rightarrow> (json \<Rightarrow> string option) \<Rightarrow> (MemoryExprBuilder, MemoryExpr) ExprBuilder"
where
  "memoryBuilder unmarshal marshal =
     \<lparr>Build = mem_Build unmarshal marshal, GroupStart = mem_GroupStart, GroupEnd = mem_GroupEnd,
      Operator = mem_Operator,
      Text = (\<lambda>fld term sq w. mem_add (MText fld term sq w)),
      Number = (\<lambda>fld condition value. mem_add (MNumber fld condition value)),
      Between = (\<lambda>fld x y. mem_add (MBetween fld x y)),
      TextIn = (\<lambda>fld values. mem_add (MTextIn fld values)),
      NumberIn = (\<lambda>fld values. mem_add (MNumberIn fld values))\<rparr>"

definition newMemoryExprBuilder :: MemoryExprBuilder where
  "newMemoryExprBuilder = \<lparr>stack = [], groupStack = []\<rparr>"

definition MemoryExprBuilderFn ::
  "(string \<Rightarrow> jmap option) \<Rightarrow> (json \<Rightarrow> string option) \<Rightarrow> MemoryExpr expr_cache \<Rightarrow> string
     \<Rightarrow> (expr_error + MemoryExpr) \<times> MemoryExpr expr_cache" where
  "MemoryExprBuilderFn unmarshal marshal =
     build_expr (memoryBuilder unmarshal marshal) (\<lambda>expression. (newMemoryExprBuilder, expression))"

subsection \<open>What a filter computes\<close>

text \<open>The node a leaf call adds, and its truth on a map where the text fields hold strings.\<close>

fun leaf_node :: "bcall \<Rightarrow> memExpr" where
  "leaf_node (CText f t sq w) = MText f t sq w"
| "leaf_node (CNumber f c n) = MNumber f c n"
| "leaf_node (CBetween f x y) = MBetween f x y"
| "leaf_node (CTextIn f vs) = MTextIn f vs"
| "leaf_node (CNumberIn f ns) = MNumberIn f ns"
| "leaf_node _ = MGroup []"

fun leaf_holds :: "jmap \<Rightarrow> bcall \<Rightarrow> bool" where
  "leaf_holds j (CText f t sq w) =
     (\<exists>s. j f = Some (JStr s) \<and> s \<noteq> '''' \<and> text_matches t sq w s)"
| "leaf_holds j (CNumber f c n) =
     (\<exists>x. memExprGetNumber j f = Some x \<and> number_matches c x n)"
| "leaf_holds j (CBetween f x y) =
     (\<exists>z. memExprGetNumber j f = Some z \<and> f64_le x z \<and> f64_le z y)"
| "leaf_holds j (CTextIn f vs) = (\<exists>s. j f = Some (JStr s) \<and> s \<noteq> '''' \<and> s \<in> set vs)"
| "leaf_holds j (CNumberIn f ns) = (\<exists>x. memExprGetNumber j f = Some x \<and> (\<exists>n \<in> set ns. f64_eq x n))"
| "leaf_holds j _ = True"

definition string_field :: "jmap \<Rightarrow> string \<Rightarrow> bool" where
  "string_field j f = (case j f of None \<Rightarrow> True | Some (JStr s) \<Rightarrow> True | Some _ \<Rightarrow> False)"

fun text_field_ok :: "jmap \<Rightarrow> bcall \<Rightarrow> bool" where
  "text_field_ok j (CText f t sq w) = string_field j f"
| "text_field_ok j (CTextIn f vs) = string_field j f"
| "text_field_ok j c = True"

lemma leaf_eval:
  assumes "is_leaf c" and "text_field_ok j c"
  shows "mem_eval marshal (leaf_node c) j = Inr (leaf_holds j c, j)"
  using assms
  by (cases c)
    (auto simp: memExprGetText_def string_field_def list_ex_iff split: option.splits json.splits)

definition is_chain_node :: "memExpr \<Rightarrow> bool" where
  "is_chain_node e = (case e of MAND es \<Rightarrow> True | MOR es \<Rightarrow> True | _ \<Rightarrow> False)"

text \<open>
  Nodes whose evaluation on \<open>j\<close> leaves it unchanged, and the truth of a chain: a list of such
  nodes under one operator, or a single node.
\<close>

definition node_truth :: "(json \<Rightarrow> string option) \<Rightarrow> jmap \<Rightarrow> memExpr \<Rightarrow> bool \<Rightarrow> bool" where
  "node_truth marshal j e b = (mem_eval marshal e j = Inr (b, j))"

definition chain_truth :: "(json \<Rightarrow> string option) \<Rightarrow> jmap \<Rightarrow> memExpr \<Rightarrow> bool \<Rightarrow> bool" where
  "chain_truth marshal j e b =
     (case e of
        MAND es \<Rightarrow> (\<exists>bs. list_all2 (node_truth marshal j) es bs \<and> b = list_all id bs)
      | MOR es \<Rightarrow> (\<exists>bs. list_all2 (node_truth marshal j) es bs \<and> b = list_ex id bs)
      | _ \<Rightarrow> node_truth marshal j e b)"

lemma eval_all_truth:
  "list_all2 (node_truth marshal j) es bs \<Longrightarrow> mem_eval_all marshal es j = Inr (list_all id bs, j)"
  by (induction rule: list_all2_induct) (simp_all add: node_truth_def)

lemma eval_any_truth:
  "list_all2 (node_truth marshal j) es bs \<Longrightarrow> mem_eval_any marshal es j = Inr (list_ex id bs, j)"
  by (induction rule: list_all2_induct) (simp_all add: node_truth_def)

lemma chain_node_truth: "chain_truth marshal j e b \<Longrightarrow> node_truth marshal j e b"
  by (auto simp: chain_truth_def node_truth_def eval_all_truth eval_any_truth
      split: memExpr.splits)

text \<open>Adding an operand with its operator to a chain.\<close>

definition snoc_node :: "string \<Rightarrow> memExpr \<Rightarrow> memExpr \<Rightarrow> memExpr" where
  "snoc_node op e f =
     (if op = ''AND'' then (case e of MAND es \<Rightarrow> MAND (es @ [f]) | _ \<Rightarrow> MAND [e, f])
      else (case e of MOR es \<Rightarrow> MOR (es @ [f]) | _ \<Rightarrow> MOR [e, f]))"

lemma snoc_truth:
  assumes "chain_truth marshal j e b" and "node_truth marshal j f c"
  shows "chain_truth marshal j (snoc_node op e f) (if op = ''AND'' then b \<and> c else b \<or> c)"
proof -
  note e = chain_node_truth [OF assms(1)]
  have two: "list_all2 (node_truth marshal j) [e, f] [b, c]"
    using e assms(2) by simp
  have app: "list_all2 (node_truth marshal j) (es @ [f]) (bs @ [c])"
    if "list_all2 (node_truth marshal j) es bs" for es bs
    using that assms(2) by (simp add: list_all2_appendI)
  show ?thesis
  proof (cases "op = ''AND''")
    case True
    show ?thesis
    proof (cases "\<exists>es. e = MAND es")
      case 1: True
      with assms(1) True app show ?thesis
        by (fastforce simp: chain_truth_def snoc_node_def)
    next
      case False
      then have "snoc_node op e f = MAND [e, f]"
        using True by (simp add: snoc_node_def split: memExpr.split)
      with two True show ?thesis
        by (simp add: chain_truth_def exI [of _ "[b, c]"])
    qed
  next
    case False
    show ?thesis
    proof (cases "\<exists>es. e = MOR es")
      case True
      with assms(1) False app show ?thesis
        by (fastforce simp: chain_truth_def snoc_node_def)
    next
      case 1: False
      then have "snoc_node op e f = MOR [e, f]"
        using False by (simp add: snoc_node_def split: memExpr.split)
      with two False show ?thesis
        by (simp add: chain_truth_def exI [of _ "[b, c]"])
    qed
  qed
qed

subsection \<open>The builder on a query\<close>

fun query_node :: "query \<Rightarrow> memExpr" and chain_nodes :: "qchain \<Rightarrow> memExpr list" where
  "query_node (QLeaf c) = leaf_node c"
| "query_node (QGroup ch) = MGroup (chain_nodes ch)"
| "chain_nodes QNil = []"
| "chain_nodes (QFirst q) = [query_node q]"
| "chain_nodes (QSnoc ch op q) = [snoc_node op (hd (chain_nodes ch)) (query_node q)]"

lemma chain_nodes_one: "ch \<noteq> QNil \<Longrightarrow> \<exists>e. chain_nodes ch = [e]"
  by (cases ch) auto

lemma query_node_single: "wf_query q \<Longrightarrow> \<not> is_chain_node (query_node q)"
proof (cases q)
  case (QLeaf c)
  assume "wf_query q"
  with QLeaf show ?thesis by (cases c) (auto simp: is_chain_node_def)
qed (simp add: is_chain_node_def)

lemma mem_Operator_add:
  "stack m = [e] \<Longrightarrow> mem_add f (mem_Operator op m) = m\<lparr>stack := [snoc_node op e f]\<rparr>"
  by (auto simp: mem_add_def mem_Operator_def snoc_node_def split: memExpr.split)

lemma run_leaf:
  "is_leaf c \<Longrightarrow> run_call (memoryBuilder unmarshal marshal) m c = mem_add (leaf_node c) m"
  by (cases c) (simp_all add: memoryBuilder_def)

lemma run_query:
  "wf_query q \<Longrightarrow>
     run_calls (memoryBuilder unmarshal marshal) m (query_calls q) = mem_add (query_node q) m"
  "wf_chain ch \<Longrightarrow> stack m' = [] \<Longrightarrow>
     run_calls (memoryBuilder unmarshal marshal) m' (chain_calls ch) = m'\<lparr>stack := chain_nodes ch\<rparr>"
proof (induction q and ch arbitrary: m and m')
  case (QLeaf c)
  then show ?case by (simp add: run_leaf)
next
  case (QGroup ch)
  then show ?case
    by (simp add: memoryBuilder_def mem_GroupStart_def mem_GroupEnd_def)
next
  case QNil
  then show ?case by simp
next
  case (QFirst q)
  then show ?case by (simp add: mem_add_def)
next
  case (QSnoc ch op q)
  then obtain e where e: "chain_nodes ch = [e]" using chain_nodes_one [of ch] by auto
  with QSnoc show ?case
    by (simp add: memoryBuilder_def mem_Operator_add [where e = e])
qed

lemma query_truth:
  "wf_query q \<Longrightarrow> list_all (text_field_ok j) (query_calls q) \<Longrightarrow>
     node_truth marshal j (query_node q) (left_query (leaf_holds j) q)"
  "wf_chain ch \<Longrightarrow> list_all (text_field_ok j) (chain_calls ch) \<Longrightarrow>
     (case chain_nodes ch of
        [] \<Rightarrow> left_chain (leaf_holds j) ch
      | e # _ \<Rightarrow> chain_truth marshal j e (left_chain (leaf_holds j) ch))"
proof (induction q and ch)
  case (QLeaf c)
  then show ?case by (simp add: node_truth_def leaf_eval)
next
  case (QGroup ch)
  show ?case
  proof (cases "ch = QNil")
    case True
    then show ?thesis by (simp add: node_truth_def)
  next
    case False
    then obtain e where "chain_nodes ch = [e]" using chain_nodes_one by blast
    with QGroup have "node_truth marshal j e (left_chain (leaf_holds j) ch)"
      by (simp add: chain_node_truth)
    with \<open>chain_nodes ch = [e]\<close> show ?thesis by (simp add: node_truth_def)
  qed
next
  case QNil
  then show ?case by simp
next
  case (QFirst q)
  then have "\<not> is_chain_node (query_node q)" by (simp add: query_node_single)
  with QFirst show ?case
    by (simp add: chain_truth_def is_chain_node_def split: memExpr.splits)
next
  case (QSnoc ch op q)
  then obtain e where e: "chain_nodes ch = [e]" using chain_nodes_one [of ch] by auto
  with QSnoc have "chain_truth marshal j e (left_chain (leaf_holds j) ch)"
    "node_truth marshal j (query_node q) (left_query (leaf_holds j) q)"
    by simp_all
  from snoc_truth [OF this, of op] e show ?case by simp
qed

text \<open>A built filter decides the left to right reading of its expression.\<close>

lemma memory_filter:
  assumes "calls_of expression = Inr (chain_calls ch)" and "wf_chain ch"
    and "parse (memoryBuilder unmarshal marshal) expression newMemoryExprBuilder = Inr m"
    and "unmarshal content = Some j" and "list_all (text_field_ok j) (chain_calls ch)"
  shows "mem_Build unmarshal marshal m content = Inr (left_chain (leaf_holds j) ch)"
proof -
  have m: "stack m = chain_nodes ch"
    using assms(1,2,3) run_query(2) [of ch newMemoryExprBuilder unmarshal marshal]
    by (simp add: parse_calls_of newMemoryExprBuilder_def)
  show ?thesis
  proof (cases "ch = QNil")
    case True
    with m show ?thesis by (simp add: mem_Build_def)
  next
    case False
    then obtain e where e: "chain_nodes ch = [e]" using chain_nodes_one by blast
    with query_truth(2) [OF assms(2,5), of marshal]
    have "node_truth marshal j e (left_chain (leaf_holds j) ch)"
      by (simp add: chain_node_truth)
    with m e assms(4) show ?thesis by (simp add: mem_Build_def node_truth_def)
  qed
qed

subsection \<open>The contract of a builder\<close>

text \<open>No call panics or loses a group: the open groups are the group stack.\<close>

interpretation mem: expr_builder "memoryBuilder unmarshal marshal" "\<lambda>m. True"
  "\<lambda>m. length (groupStack m)" for unmarshal marshal
proof
  fix m :: MemoryExprBuilder and c
  have add: "groupStack (mem_add e m) = groupStack m" for e and m :: MemoryExprBuilder
    by (simp add: mem_add_def split: memExpr.split)
  assume "is_leaf c"
  then show "length (groupStack (run_call (memoryBuilder unmarshal marshal) m c)) = length (groupStack m)"
    by (simp add: run_leaf add)
next
  fix m :: MemoryExprBuilder
  assume "0 < length (groupStack m)"
  then show "length (groupStack (GroupEnd (memoryBuilder unmarshal marshal) m)) = length (groupStack m) - 1"
    by (simp add: memoryBuilder_def mem_GroupEnd_def mem_add_def split: memExpr.split)
qed (auto simp: memoryBuilder_def mem_Operator_def mem_GroupStart_def split: memExpr.split)

end
