(* ===== verification/ExprProperties.thy ===== *)
theory ExprProperties imports SqliteExpr MemoryExpr begin

text \<open>
  What a user of the search expressions can rely on: the parser against any builder, the SQL that
  \<^verbatim>\<open>sqlite/expr.go\<close> compiles, the filters of \<^verbatim>\<open>memory/memory_expr.go\<close>, and where the two differ.
\<close>

subsection \<open>The parser\<close>

text \<open>
  C37 (safety). The parser of \<^verbatim>\<open>expr.go\<close> does not panic, whatever bytes it is given and whatever
  builder it calls: every input is parsed or answered with one of the three errors.
\<close>

theorem parse_never_panics:
  "case parse B expression b of Inl err \<Rightarrow> \<not> has_panic err | Inr b' \<Rightarrow> True"
  by (auto split: sum.split dest: parse_no_panic)

text \<open>
  Parsing with a builder is running, on that builder, the calls the parser
  makes on a recorder: control never depends on the builder, so all builders see one expression.
\<close>

theorem parse_is_call_trace:
  "parse B expression b =
     (case calls_of expression of Inl err \<Rightarrow> Inl err | Inr cs \<Rightarrow> Inr (run_calls B b cs))"
  by (simp add: parse_calls_of map_sum_def split: sum.split)

text \<open>
  The calls of a successful parse are operands joined by \<^verbatim>\<open>AND\<close> and \<^verbatim>\<open>OR\<close>, with
  every group closed; each operand is a group or a leaf with a field name, a non-empty term and
  a condition of the language.
\<close>

theorem parsed_calls_form_chain:
  "case calls_of expression of Inl err \<Rightarrow> True | Inr cs \<Rightarrow> chain cs \<and> closed_le cs \<and> open_groups cs = 0"
proof (cases "calls_of expression")
  case (Inr cs)
  have "closed_le []" "open_groups [] = 0" by (simp_all add: closed_le_def open_groups_def)
  with Inr rec.parse_inv [of expression "[]" cs] calls_of_chain [OF Inr] show ?thesis
    by (simp add: calls_of_def)
qed simp

subsection \<open>The cache\<close>

text \<open>A cache is coherent when it holds, for each expression, what building it anew would give.\<close>

definition uncached :: "('b, 'e) ExprBuilder \<Rightarrow> (string \<Rightarrow> 'b \<times> string) \<Rightarrow> string \<Rightarrow> expr_error + 'e" where
  "uncached B factory expression =
     (case factory expression of (mapper, e) \<Rightarrow> map_sum id (Build B) (parse B e mapper))"

definition coherent :: "('b, 'e) ExprBuilder \<Rightarrow> (string \<Rightarrow> 'b \<times> string) \<Rightarrow> 'e expr_cache \<Rightarrow> bool" where
  "coherent B factory cache = (\<forall>e x. cache e = Some x \<longrightarrow> uncached B factory e = Inr x)"

text \<open>
  The cache is transparent: with any cache the builder function can have
  reached, the answer is that of a build from scratch on the trimmed expression, and the cache
  stays such a cache; an expression with an error is not stored.
\<close>

theorem cache_transparent:
  assumes "coherent B factory cache"
  shows "fst (build_expr B factory cache expression) = uncached B factory (TrimSpace expression) \<and>
    coherent B factory (snd (build_expr B factory cache expression))"
proof (cases "cache (TrimSpace expression)")
  case None
  then show ?thesis
    using assms by (auto simp: build_expr_def uncached_def coherent_def Let_def split: prod.splits sum.splits)
next
  case (Some x)
  then show ?thesis
    using assms by (simp add: build_expr_def coherent_def)
qed

theorem cache_transparent_witness:
  "fst (build_expr recorder (Pair []) [''a:1'' \<mapsto> [CNumber ''a'' ''='' (Fin 4503599627370496 (-52))]] '' a:1 '')
     = uncached recorder (Pair []) ''a:1''"
proof -
  have "uncached recorder (Pair []) ''a:1'' = Inr [CNumber ''a'' ''='' (Fin 4503599627370496 (-52))]" by code_simp
  then have "coherent recorder (Pair []) [''a:1'' \<mapsto> [CNumber ''a'' ''='' (Fin 4503599627370496 (-52))]]"
    by (simp add: coherent_def)
  from cache_transparent [OF this, of "'' a:1 ''"] show ?thesis
    by (simp add: TrimSpace_def trim_left.simps space_encodings_def HasPrefix.simps)
qed

subsection \<open>SQL\<close>

text \<open>The condition and the arguments that stand for a query, written out from its syntax.\<close>

definition json_num :: string where
  "json_num = ''CAST(json_extract(e.content, ?) AS NUMERIC) ''"

fun leaf_sql :: "bcall \<Rightarrow> string \<times> sqlarg list" where
  "leaf_sql (CText f t sq w) =
     (if sq \<and> \<not> w then (''json_extract(e.content, ?) = ?'', [ArgText (''$.'' @ f), ArgText t])
      else (''json_extract(e.content, ?) GLOB ?'',
            [ArgText (''$.'' @ f), ArgText (if w then t else ''*'' @ t @ ''*'')]))"
| "leaf_sql (CNumber f c n) = (json_num @ c @ '' ? '', [ArgText (''$.'' @ f), ArgFloat n])"
| "leaf_sql (CBetween f x y) = (json_num @ ''BETWEEN ? AND ?'', [ArgText (''$.'' @ f), ArgFloat x, ArgFloat y])"
| "leaf_sql (CTextIn f vs) =
     (''json_extract(e.content, ?) IN ('' @ in_list (length vs) @ '')'', ArgText (''$.'' @ f) # map ArgText vs)"
| "leaf_sql (CNumberIn f ns) =
     (json_num @ ''IN ('' @ in_list (length ns) @ '')'', ArgText (''$.'' @ f) # map ArgFloat ns)"
| "leaf_sql _ = ('''', [])"

fun query_sql :: "query \<Rightarrow> string \<times> sqlarg list" and chain_sql :: "qchain \<Rightarrow> string \<times> sqlarg list" where
  "query_sql (QLeaf c) = leaf_sql c"
| "query_sql (QGroup ch) = (''('' @ fst (chain_sql ch) @ '')'', snd (chain_sql ch))"
| "chain_sql QNil = ('''', [])"
| "chain_sql (QFirst q) = query_sql q"
| "chain_sql (QSnoc ch op q) =
     (fst (chain_sql ch) @ '' '' @ op @ '' '' @ fst (query_sql q), snd (chain_sql ch) @ snd (query_sql q))"

definition appended :: "SqliteExprBuilder \<Rightarrow> string \<times> sqlarg list \<Rightarrow> SqliteExprBuilder" where
  "appended s x = s\<lparr>sql := sql s @ fst x, args := args s @ snd x\<rparr>"

lemma leaf_writes: "is_leaf c \<Longrightarrow> run_call sqliteBuilder s c = appended s (leaf_sql c)"
  by (cases c) (simp_all add: sqlite_defs appended_def json_num_def Let_def)

lemma sql_nonempty: "wf_query q \<Longrightarrow> fst (query_sql q) \<noteq> []" "wf_chain ch \<Longrightarrow> ch \<noteq> QNil \<Longrightarrow> fst (chain_sql ch) \<noteq> []"
proof (induction q and ch)
  case (QLeaf c)
  then show ?case by (cases c) (auto simp: json_num_def)
qed auto

lemma query_writes:
  "wf_query q \<Longrightarrow> run_calls sqliteBuilder s (query_calls q) = appended s (query_sql q)"
  "wf_chain ch \<Longrightarrow> run_calls sqliteBuilder s (chain_calls ch) = appended s (chain_sql ch)"
proof (induction q and ch arbitrary: s and s)
  case (QLeaf c)
  then show ?case by (simp add: leaf_writes)
next
  case (QGroup ch)
  then show ?case by (simp add: sqlite_defs appended_def Let_def)
next
  case (QSnoc ch op q)
  then have "fst (chain_sql ch) \<noteq> []" using sql_nonempty(2) by simp
  with QSnoc show ?case by (simp add: sqlite_defs appended_def)
qed (simp_all add: appended_def)

lemma compiled_query:
  assumes "ExpBuilderFn Map.empty expression = (Inr ex, cache)"
  shows "\<exists>ch. wf_chain ch \<and> calls_of (TrimSpace expression) = Inr (chain_calls ch) \<and>
    Sql ex = fst (chain_sql ch) \<and> Args ex = snd (chain_sql ch)"
proof -
  obtain cs where cs: "calls_of (TrimSpace expression) = Inr cs"
    "ex = sqlite_Build (run_calls sqliteBuilder newSqliteExprBuilder cs)"
    using assms by (auto simp: ExpBuilderFn_def build_expr_def parse_calls_of Build_sqlite Let_def
        map_sum_Inr_iff split: sum.splits)
  obtain ch where ch: "wf_chain ch" "cs = chain_calls ch"
    using calls_syntax(2) [OF calls_of_chain [OF cs(1)]] by blast
  with cs query_writes(2) [OF ch(1)] show ?thesis
    by (intro exI [of _ ch]) (simp add: sqlite_Build_def appended_def newSqliteExprBuilder_def)
qed

text \<open>
  C9 (safety). What \<^verbatim>\<open>ExpBuilderFn\<close> compiles is a condition of a fixed language: no byte of the
  user's expression gets into the SQL text, only into the arguments, and there are as many
  placeholders as arguments.
\<close>

theorem compiled_sql_is_safe:
  assumes "ExpBuilderFn Map.empty expression = (Inr ex, cache)"
  shows "sql_chain (Sql ex) (length (Args ex)) \<and> placeholders (Sql ex) = length (Args ex)"
  using compiled_chain [of expression ex] assms by simp

text \<open>A classic attack ends up in an argument.\<close>

definition attack :: string where
  "attack = ''user:'' @ [CHR 0x22] @ ''x') OR 1=1 --'' @ [CHR 0x22]"

theorem compiled_sql_is_safe_witness:
  "sql_chain ''json_extract(e.content, ?) = ?'' 2"
proof -
  have "fst (ExpBuilderFn Map.empty attack) = Inr \<lparr>Sql = ''json_extract(e.content, ?) = ?'',
      Args = [ArgText ''$.user'', ArgText ''x') OR 1=1 --'']\<rparr>"
    by code_simp
  then show ?thesis
    using compiled_sql_is_safe [of attack "\<lparr>Sql = ''json_extract(e.content, ?) = ?'',
      Args = [ArgText ''$.user'', ArgText ''x') OR 1=1 --'']\<rparr>" "snd (ExpBuilderFn Map.empty attack)"]
    by (simp add: prod_eq_iff numeral_2_eq_2)
qed

text \<open>
  C29 (functional). The condition and the arguments of a compiled expression are those of its
  syntax, written out from left to right: parentheses for groups only, so that SQL reads \<^verbatim>\<open>AND\<close>
  and \<^verbatim>\<open>OR\<close> by its own precedence.
\<close>

theorem compiled_sql_text:
  assumes "ExpBuilderFn Map.empty expression = (Inr ex, cache)"
  shows "\<exists>ch. wf_chain ch \<and> calls_of (TrimSpace expression) = Inr (chain_calls ch) \<and>
    ex = \<lparr>Sql = fst (chain_sql ch), Args = snd (chain_sql ch)\<rparr>"
  using compiled_query [OF assms] by (cases ex) auto

theorem compiled_sql_text_witness:
  "\<exists>ch. wf_chain ch \<and> calls_of (TrimSpace attack) = Inr (chain_calls ch) \<and>
     fst (chain_sql ch) = ''json_extract(e.content, ?) = ?''"
proof -
  have "fst (ExpBuilderFn Map.empty attack) = Inr \<lparr>Sql = ''json_extract(e.content, ?) = ?'',
      Args = [ArgText ''$.user'', ArgText ''x') OR 1=1 --'']\<rparr>"
    by code_simp
  then show ?thesis
    using compiled_sql_text [of attack "\<lparr>Sql = ''json_extract(e.content, ?) = ?'',
      Args = [ArgText ''$.user'', ArgText ''x') OR 1=1 --'']\<rparr>" "snd (ExpBuilderFn Map.empty attack)"]
    by (fastforce simp: prod_eq_iff)
qed

subsection \<open>Filters in memory\<close>

text \<open>
  C38 (functional). A filter that \<^verbatim>\<open>MemoryExprBuilderFn\<close> built accepts an entry exactly when the
  expression, read from left to right, holds of the decoded entry, provided the fields that are
  compared as text hold strings there.
\<close>

theorem memory_filter_reads_left_to_right:
  assumes "MemoryExprBuilderFn unmarshal marshal Map.empty expression = (Inr f, cache)"
  shows "\<exists>ch. wf_chain ch \<and> calls_of (TrimSpace expression) = Inr (chain_calls ch) \<and>
    (\<forall>content j. unmarshal content = Some j \<longrightarrow> list_all (text_field_ok j) (chain_calls ch) \<longrightarrow>
       f content = Inr (left_chain (leaf_holds j) ch))"
proof -
  have B: "Build (memoryBuilder unmarshal marshal) = mem_Build unmarshal marshal"
    by (simp add: memoryBuilder_def)
  obtain m where m: "parse (memoryBuilder unmarshal marshal) (TrimSpace expression) newMemoryExprBuilder = Inr m"
    "f = mem_Build unmarshal marshal m"
    using assms by (auto simp: MemoryExprBuilderFn_def build_expr_def Let_def B split: sum.splits)
  then obtain cs where cs: "calls_of (TrimSpace expression) = Inr cs"
    by (auto simp: parse_calls_of map_sum_Inr_iff)
  obtain ch where ch: "wf_chain ch" "cs = chain_calls ch"
    using calls_syntax(2) [OF calls_of_chain [OF cs]] by blast
  with cs m memory_filter [OF _ ch(1) m(1)] show ?thesis by blast
qed

theorem memory_filter_reads_left_to_right_witness:
  "\<exists>ch f. chain_calls ch = [CText ''a'' ''0*'' False True] \<and>
     fst (MemoryExprBuilderFn (\<lambda>c. Some [''a'' \<mapsto> JStr c]) (\<lambda>j. None) Map.empty ''a:0*'') = Inr f \<and>
     f ''01'' = Inr (left_chain (leaf_holds [''a'' \<mapsto> JStr ''01'']) ch)"
proof -
  let ?r = "MemoryExprBuilderFn (\<lambda>c. Some [''a'' \<mapsto> JStr c]) (\<lambda>j. None) Map.empty ''a:0*''"
  have "case fst ?r of Inr f \<Rightarrow> True | Inl e \<Rightarrow> False" by code_simp
  then obtain f where f: "?r = (Inr f, snd ?r)"
    by (cases "fst ?r") (auto simp: prod_eq_iff)
  have c: "calls_of (TrimSpace ''a:0*'') = Inr [CText ''a'' ''0*'' False True]" by code_simp
  have ok: "list_all (text_field_ok [''a'' \<mapsto> JStr ''01'']) [CText ''a'' ''0*'' False True]"
    by (simp add: string_field_def)
  obtain ch where ch: "calls_of (TrimSpace ''a:0*'') = Inr (chain_calls ch)"
    "list_all (text_field_ok [''a'' \<mapsto> JStr ''01'']) (chain_calls ch) \<Longrightarrow> f ''01'' = Inr (left_chain (leaf_holds [''a'' \<mapsto> JStr ''01'']) ch)"
    using memory_filter_reads_left_to_right [OF f] by blast
  have cs: "chain_calls ch = [CText ''a'' ''0*'' False True]" using ch(1) c by simp
  have "f ''01'' = Inr (left_chain (leaf_holds [''a'' \<mapsto> JStr ''01'']) ch)" using ch(2) ok by (simp only: cs)
  moreover have "fst ?r = Inr f" using f by (metis fst_conv)
  ultimately show ?thesis using cs by blast
qed

text \<open>
  One expression compiles to SQL exactly when it builds a filter in memory, of the same syntax; and, with the
  filter's own truth of the single conditions, the filter decides what SQL's precedence of \<^verbatim>\<open>AND\<close> over \<^verbatim>\<open>OR\<close>
  makes of them when no \<^verbatim>\<open>AND\<close> follows an \<^verbatim>\<open>OR\<close> within one group. What SQLite makes of a single condition
  (\<^verbatim>\<open>GLOB\<close>, \<^verbatim>\<open>CAST\<close>, \<^verbatim>\<open>json_extract\<close>) is not modelled: for \<^verbatim>\<open>a:x?\<close> and an entry with \<^verbatim>\<open>a\<close> equal to \<^verbatim>\<open>x\<close>, say, it differs.
\<close>

lemma memory_agrees_with_sql:
  assumes "ExpBuilderFn Map.empty expression = (Inr ex, cache)"
  shows "\<exists>ch f. Sql ex = fst (chain_sql ch) \<and> Args ex = snd (chain_sql ch) \<and>
    fst (MemoryExprBuilderFn unmarshal marshal Map.empty expression) = Inr f \<and>
    (\<forall>content j. unmarshal content = Some j \<longrightarrow> list_all (text_field_ok j) (chain_calls ch) \<longrightarrow>
       unambiguous ch \<longrightarrow> f content = Inr (sql_reading (leaf_holds j) ch))"
proof -
  let ?B = "memoryBuilder unmarshal marshal"
  obtain ch where ch: "wf_chain ch" "calls_of (TrimSpace expression) = Inr (chain_calls ch)"
    "Sql ex = fst (chain_sql ch)" "Args ex = snd (chain_sql ch)"
    using compiled_query [OF assms] by blast
  let ?m = "run_calls ?B newMemoryExprBuilder (chain_calls ch)"
  have m: "parse ?B (TrimSpace expression) newMemoryExprBuilder = Inr ?m"
    using ch(2) by (simp add: parse_calls_of)
  have "Build ?B = mem_Build unmarshal marshal" by (simp add: memoryBuilder_def)
  then have "fst (MemoryExprBuilderFn unmarshal marshal Map.empty expression) = Inr (mem_Build unmarshal marshal ?m)"
    using m by (simp add: MemoryExprBuilderFn_def build_expr_def Let_def)
  with ch memory_filter [OF ch(2,1) m] readings_agree(2) [of ch] show ?thesis by fastforce
qed

lemma memory_agrees_with_sql_example:
  "\<exists>ch f. fst (chain_sql ch) = ''json_extract(e.content, ?) = ?'' \<and>
    fst (MemoryExprBuilderFn (\<lambda>c. Some [''user'' \<mapsto> JStr c]) (\<lambda>j. None) Map.empty attack) = Inr f \<and>
    (list_all (text_field_ok [''user'' \<mapsto> JStr ''x'']) (chain_calls ch) \<longrightarrow> unambiguous ch \<longrightarrow>
       f ''x'' = Inr (sql_reading (leaf_holds [''user'' \<mapsto> JStr ''x'']) ch))"
proof -
  have "fst (ExpBuilderFn Map.empty attack) = Inr \<lparr>Sql = ''json_extract(e.content, ?) = ?'',
      Args = [ArgText ''$.user'', ArgText ''x') OR 1=1 --'']\<rparr>"
    by code_simp
  then show ?thesis
    using memory_agrees_with_sql [of attack "\<lparr>Sql = ''json_extract(e.content, ?) = ?'',
      Args = [ArgText ''$.user'', ArgText ''x') OR 1=1 --'']\<rparr>" "snd (ExpBuilderFn Map.empty attack)"
      "\<lambda>c. Some [''user'' \<mapsto> JStr c]" "\<lambda>j. None"]
    by (fastforce simp: prod_eq_iff)
qed

definition num_leaf :: "string \<Rightarrow> int \<Rightarrow> int \<Rightarrow> bcall" where
  "num_leaf f m e = CNumber f ''='' (Fin m e)"

definition a_or_b_and_c :: qchain where
  "a_or_b_and_c =
     QSnoc (QSnoc (QFirst (QLeaf (num_leaf ''a'' 4503599627370496 (-52)))) ''OR''
       (QLeaf (num_leaf ''b'' 4503599627370496 (-51)))) ''AND'' (QLeaf (num_leaf ''c'' 6755399441055744 (-51)))"

text \<open>
  They differ otherwise: for \<^verbatim>\<open>a:1 OR b:2 AND c:3\<close> an entry with \<^verbatim>\<open>a\<close> equal to 1
  and nothing else satisfies the condition as SQL reads it, and is turned down by the filter.
\<close>

theorem readings_differ:
  "calls_of ''a:1 OR b:2 AND c:3'' = Inr (chain_calls a_or_b_and_c) \<and>
   sql_reading (\<lambda>c. c = num_leaf ''a'' 4503599627370496 (-52)) a_or_b_and_c \<and>
   (case fst (MemoryExprBuilderFn (\<lambda>_. Some [''a'' \<mapsto> JNum (Fin 1 0)]) (\<lambda>_. None) Map.empty
           ''a:1 OR b:2 AND c:3'') of
      Inl err \<Rightarrow> False
    | Inr f \<Rightarrow> f '''' = Inr False)"
  by code_simp

subsection \<open>Wildcards\<close>

text \<open>
  The matcher of \<^verbatim>\<open>memory/wildcard.go\<close>, which ends on every input, accepts only what
  the pattern describes, a \<^verbatim>\<open>*\<close> for any bytes and a \<^verbatim>\<open>?\<close> for at most one.
\<close>

theorem wildcard_accepts_only_matches:
  assumes "wildcardMatch pattern s"
  shows "glob pattern s"
  using assms by (rule wildcard_sound)

theorem wildcard_accepts_only_matches_witness: "glob ''a*c?'' ''abc''"
  by (rule wildcard_accepts_only_matches) code_simp

text \<open>
  C39 (functional). On patterns without \<^verbatim>\<open>?\<close> the matcher decides the specification: its backtracking
  to the last star never misses a match.
\<close>

theorem wildcard_decides_stars:
  assumes "CHR ''?'' \<notin> set pattern"
  shows "wildcardMatch pattern s = glob pattern s"
  using assms by (rule wildcard_decides)

theorem wildcard_decides_stars_witness: "\<not> glob ''a*b*c'' ''acb''"
proof -
  have "\<not> wildcardMatch ''a*b*c'' ''acb''" by code_simp
  then show ?thesis using wildcard_decides_stars [of "''a*b*c''" "''acb''"] by simp
qed

text \<open>
  With \<^verbatim>\<open>?\<close> it does not: \<^verbatim>\<open>??b\<close> stands for \<^verbatim>\<open>ab\<close> as well, each \<^verbatim>\<open>?\<close> being
  optional, and is rejected, while the comments promise exactly one character for each \<^verbatim>\<open>?\<close> and the
  matcher accepts \<^verbatim>\<open>a\<close> for \<^verbatim>\<open>a?\<close>.
\<close>

theorem wildcard_question_marks:
  "\<not> wildcardMatch ''??b'' ''ab'' \<and> glob ''??b'' ''ab'' \<and> wildcardMatch ''a?'' ''a''"
  by code_simp

text \<open>
  A search term without wildcards and quotes finds the entries whose field
  contains it.
\<close>

theorem plain_term_is_substring_search:
  assumes "literal term"
  shows "text_matches term False False fieldValue = (\<exists>u v. fieldValue = u @ term @ v)"
  using wildcard_substring [OF assms] by (simp add: text_matches_def)

theorem plain_term_is_substring_search_witness:
  "text_matches ''rror'' False False ''an error!'' = (\<exists>u v. ''an error!'' = u @ ''rror'' @ v)"
  by (rule plain_term_is_substring_search) (simp add: literal_def)

end
