(* ===== verification/Chunk.thy ===== *)
theory Chunk imports Float64 begin

text \<open>
  \<^verbatim>\<open>chunk.go\<close>: the chunks of the log buffer. A chunk is a record of its fields; the linked list
  from a first chunk is a HOL list, and a chunk of it an index \<open>k\<close> into that list, whose \<^verbatim>\<open>next\<close>
  is the index \<open>Suc k\<close>, or \<^verbatim>\<open>nil\<close> at the end of the list. Each operation here runs alone, from its
  first to its last atomic access.
\<close>

text \<open>A time as its Unix seconds and nanoseconds; \<^verbatim>\<open>IsZero\<close> is the year 1.\<close>

record Time =
  unixSec :: int
  nsec :: int

definition IsZero :: "Time \<Rightarrow> bool" where
  "IsZero t = (unixSec t = - 62135596800 \<and> nsec t = 0)"

record Entry =
  etime :: Time
  level :: int
  content :: string

record Chunk =
  chunk_id :: int
  cap :: int
  book :: int
  writes :: int
  csize :: int
  epochStart :: int
  epochEnd :: int
  retries :: int
  locked :: bool
  entries :: "nat \<Rightarrow> Entry option"

definition zeroChunk :: Chunk where
  "zeroChunk =
     \<lparr>chunk_id = 0, cap = 0, book = 0, writes = 0, csize = 0, epochStart = 0, epochEnd = 0,
      retries = 0, locked = False, entries = (\<lambda>_. None)\<rparr>"

definition NewChunk :: "int \<Rightarrow> Chunk" where
  "NewChunk c = zeroChunk\<lparr>cap := min (max 1 c) 900\<rparr>"

text \<open>\<^verbatim>\<open>Init\<close> links the chunks after \<open>k\<close>, \<open>depth\<close> of them, where there are none yet.\<close>

definition link_next :: "Chunk list \<Rightarrow> nat \<Rightarrow> Chunk list" where
  "link_next cs k =
     (if Suc k < length cs then cs
      else let c = cs ! k;
               c = (if cap c \<le> 0 then c\<lparr>cap := 900\<rparr> else c)
           in cs[k := c] @ [zeroChunk\<lparr>cap := cap c, chunk_id := i32 (chunk_id c + 1)\<rparr>])"

fun Init :: "nat \<Rightarrow> Chunk list \<Rightarrow> nat \<Rightarrow> Chunk list" where
  "Init 0 cs k = cs"
| "Init (Suc depth) cs k = Init depth (link_next cs k) (Suc k)"

definition Empty :: "Chunk \<Rightarrow> bool" where
  "Empty c = (book c = 0)"

definition Ready :: "Chunk \<Rightarrow> bool" where
  "Ready c = (writes c = cap c \<or> (book c > 0 \<and> writes c = book c \<and> locked c))"

definition Lock :: "Chunk \<Rightarrow> Chunk" where
  "Lock c = c\<lparr>locked := True\<rparr>"

text \<open>The number of non-empty chunks from the head of a chain to its first empty one.\<close>

fun Depth :: "Chunk list \<Rightarrow> nat" where
  "Depth [] = 0"
| "Depth (c # rest) = (if Empty c then 0 else if rest = [] then 1 else 1 + Depth rest)"

text \<open>\<^verbatim>\<open>entries[:write]\<close>; a slot that was booked and not yet written is \<open>None\<close>.\<close>

definition List :: "Chunk \<Rightarrow> Entry option list" where
  "List c = map (entries c) [0 ..< nat (writes c)]"

text \<open>\<^verbatim>\<open>time.Since\<close>: a difference in nanoseconds that saturates at 64 bits.\<close>

definition since :: "Time \<Rightarrow> Time \<Rightarrow> int" where
  "since now t =
     max (- (2 ^ 63)) (min (2 ^ 63 - 1)
       ((unixSec now - unixSec t) * 1000000000 + (nsec now - nsec t)))"

text \<open>The time since the last entry; a last slot not yet written is dereferenced as \<^verbatim>\<open>nil\<close>.\<close>

definition TTL :: "Time \<Rightarrow> Chunk \<Rightarrow> panic + int" where
  "TTL now c =
     (let index = writes c - 1
      in if index < 0 \<or> Empty c then Inr 0
         else case entries c (nat index) of
                None \<Rightarrow> Inl NilDereference
              | Some e \<Rightarrow> if IsZero (etime e) then Inr 0 else Inr (since now (etime e)))"

text \<open>The accepting half of \<^verbatim>\<open>Put\<close>: the entry goes into the booked slot \<open>index\<close>.\<close>

definition store :: "Entry \<Rightarrow> int \<Rightarrow> Chunk \<Rightarrow> Chunk" where
  "store e index c =
     (let entryEpoch = unixSec (etime e)
      in c\<lparr>entries := (entries c)(nat index := Some e),
           epochEnd := (if entryEpoch > epochEnd c then entryEpoch else epochEnd c),
           epochStart := (if epochStart c = 0 \<or> entryEpoch < epochStart c then entryEpoch
                          else epochStart c),
           csize := i64 (csize c + int (length (content e))),
           writes := i32 (writes c + 1)\<rparr>)"

definition booked :: "Chunk \<Rightarrow> Chunk" where
  "booked c = c\<lparr>book := i32 (book c + 1)\<rparr>"

text \<open>The slot a \<^verbatim>\<open>Put\<close> books, and whether the chunk turns the entry down.\<close>

definition slot :: "Chunk \<Rightarrow> int" where
  "slot c = i32 (i32 (book c + 1) - 1)"

definition rejects :: "Chunk \<Rightarrow> bool" where
  "rejects c = (locked c \<or> slot c > cap c - 1)"

lemma length_link_next: "k < length cs \<Longrightarrow> length (link_next cs k) = max (length cs) (k + 2)"
  by (auto simp: link_next_def Let_def)

lemma length_Init: "k < length cs \<Longrightarrow> length (Init d cs k) = max (length cs) (k + d + 1)"
  by (induction d arbitrary: cs k) (auto simp: length_link_next)

lemma rejects_linked:
  "0 < c \<Longrightarrow> \<not> rejects (zeroChunk\<lparr>cap := c, chunk_id := i\<rparr>)"
  by (simp add: rejects_def slot_def zeroChunk_def i32_id)

text \<open>
  The chunk that accepts the entry, with the flag that says that it is not the one \<^verbatim>\<open>Put\<close> was
  called on. An index below zero (after \<^verbatim>\<open>book\<close> has wrapped around) or from 900 on panics.
\<close>

function Put :: "Entry \<Rightarrow> Chunk list \<Rightarrow> nat \<Rightarrow> panic + (Chunk list \<times> nat \<times> bool)" where
  "Put e cs k =
     (if k \<ge> length cs then Inl NilDereference
      else let c = cs ! k
      in if locked c
         then (case Put e (link_next cs k) (Suc k) of
                 Inl p \<Rightarrow> Inl p
               | Inr (cs', i, _) \<Rightarrow> Inr (cs', i, True))
         else let index = slot c; c = booked c
         in if index > cap c - 1
            then (case Put e (link_next (cs[k := c]) k) (Suc k) of
                    Inl p \<Rightarrow> Inl p
                  | Inr (cs', i, _) \<Rightarrow> Inr (cs', i, True))
            else if index < 0 \<or> index \<ge> 900 then Inl IndexOutOfRange
            else Inr (cs[k := store e index c], k, False))"
  by pat_completeness auto
termination
proof -
  have drop: "length (filter rejects (drop (Suc k) (link_next (cs[k := c]) k)))
      < length (filter rejects (drop k cs))"
    if "k < length cs" "rejects (cs ! k)" for c k and cs :: "Chunk list"
  proof -
    have "filter rejects (drop (Suc k) (link_next (cs[k := c]) k)) = filter rejects (drop (Suc k) cs)"
      using that(1) by (auto simp: link_next_def Let_def rejects_linked)
    with that show ?thesis by (simp add: Cons_nth_drop_Suc [symmetric])
  qed
  have drop': "length (filter rejects (drop (Suc k) (link_next cs k)))
      < length (filter rejects (drop k cs))"
    if "k < length cs" "rejects (cs ! k)" for k and cs :: "Chunk list"
    using drop [OF that, of "cs ! k"] by simp
  show ?thesis
    by (relation "measure (\<lambda>(e, cs, k). length (filter rejects (drop k cs)))")
      (use drop drop' in \<open>auto simp: rejects_def booked_def\<close>)
qed

declare Put.simps [simp del]

subsection \<open>One chunk\<close>

text \<open>The entries of a chunk whose writes are complete, oldest first.\<close>

definition contents :: "Chunk \<Rightarrow> Entry list" where
  "contents c = map the (List c)"

definition epochs :: "Chunk \<Rightarrow> int list" where
  "epochs c = map (unixSec \<circ> etime) (contents c)"

text \<open>
  The invariant of a chunk between operations: every booked slot below the capacity is written, no
  other is, the size is the sum of the sizes, and the first epoch is one of the entries'.
\<close>

definition wf_chunk :: "Chunk \<Rightarrow> bool" where
  "wf_chunk c =
     (1 \<le> cap c \<and> cap c \<le> 900 \<and> 0 \<le> book c \<and> writes c = min (book c) (cap c) \<and>
      (\<forall>i. (entries c i \<noteq> None) = (int i < writes c)) \<and>
      csize c = i64 (\<Sum>e\<leftarrow>contents c. int (length (content e))) \<and>
      (contents c = [] \<and> epochStart c = 0 \<or> epochStart c \<in> set (epochs c)))"

definition fresh :: "Chunk \<Rightarrow> bool" where
  "fresh c = (wf_chunk c \<and> book c = 0 \<and> \<not> locked c \<and> epochStart c = 0 \<and> epochEnd c = 0)"

definition accept :: "Entry \<Rightarrow> Chunk \<Rightarrow> Chunk" where
  "accept e c = store e (slot c) (booked c)"

text \<open>What a chunk that turns an entry down becomes: a booking past its end, unless it is locked.\<close>

definition pass :: "Chunk \<Rightarrow> Chunk" where
  "pass c = (if locked c then c else booked c)"

lemma slot_book: "0 \<le> book c \<Longrightarrow> book c < 2 ^ 31 - 1 \<Longrightarrow> slot c = book c"
  by (simp add: slot_def i32_id)

lemma rejects_iff:
  "wf_chunk c \<Longrightarrow> book c < 2 ^ 31 - 1 \<Longrightarrow> rejects c = (locked c \<or> cap c \<le> book c)"
  by (auto simp: rejects_def slot_book wf_chunk_def)

lemma fresh_NewChunk: "fresh (NewChunk n)"
  by (simp add: fresh_def wf_chunk_def NewChunk_def zeroChunk_def contents_def List_def i64_id)

lemma fresh_zero: "1 \<le> n \<Longrightarrow> n \<le> 900 \<Longrightarrow> fresh (zeroChunk\<lparr>cap := n, chunk_id := i\<rparr>)"
  by (simp add: fresh_def wf_chunk_def zeroChunk_def contents_def List_def i64_id)

lemma fresh_contents: "fresh c \<Longrightarrow> contents c = []"
  by (simp add: fresh_def wf_chunk_def contents_def List_def)

lemma length_contents: "length (contents c) = nat (writes c)"
  by (simp add: contents_def List_def)

lemma i64_word: "i64 x = sint (word_of_int x :: 64 word)"
  by (simp add: i64_def sint_sbintrunc')

lemma i64_add: "i64 (i64 x + y) = i64 (x + y)"
  by (simp add: i64_word flip: wi_hom_add)

lemma contents_accept:
  assumes "wf_chunk c" "book c < cap c"
  shows "contents (accept e c) = contents c @ [e]"
proof -
  have w: "writes c = book c" "nat (1 + book c) = Suc (nat (book c))" "slot c = book c"
    "i32 (book c + 1) = book c + 1"
    using assms by (auto simp: wf_chunk_def slot_book i32_id)
  then show ?thesis
    by (simp add: contents_def List_def accept_def store_def booked_def Let_def add.commute)
qed

lemma accept_fields:
  "cap (accept e c) = cap c" "chunk_id (accept e c) = chunk_id c"
  "locked (accept e c) = locked c" "retries (accept e c) = retries c"
  by (simp_all add: accept_def store_def booked_def Let_def)

lemma book_accept: "wf_chunk c \<Longrightarrow> book c < cap c \<Longrightarrow> book (accept e c) = book c + 1"
  by (simp add: accept_def store_def booked_def Let_def i32_id wf_chunk_def)

lemma wf_accept:
  assumes "wf_chunk c" "book c < cap c"
  shows "wf_chunk (accept e c)"
proof -
  have w: "slot c = book c" "i32 (book c + 1) = book c + 1" "i32 (writes c + 1) = book c + 1"
    "writes c = book c" "0 \<le> book c"
    using assms by (auto simp: wf_chunk_def slot_book i32_id)
  have s: "csize (accept e c) = i64 (\<Sum>e\<leftarrow>contents (accept e c). int (length (content e)))"
    using assms by (simp add: contents_accept wf_chunk_def i64_add)
      (simp add: accept_def store_def booked_def Let_def i64_add)
  have "\<forall>i. (entries (accept e c) i \<noteq> None) = (int i < book c + 1)"
    using assms w by (auto simp: accept_def store_def booked_def Let_def wf_chunk_def)
  moreover have "epochStart (accept e c) \<in> set (epochs (accept e c))"
  proof -
    have "epochStart c = 0 \<or> epochStart c \<in> set (epochs c)" using assms(1) by (auto simp: wf_chunk_def)
    moreover have "epochStart (accept e c) = unixSec (etime e) \<or> epochStart (accept e c) = epochStart c \<and> epochStart c \<noteq> 0"
      by (simp add: accept_def store_def booked_def Let_def)
    ultimately show ?thesis by (auto simp: epochs_def contents_accept assms)
  qed
  ultimately show ?thesis
    using assms w s by (simp add: wf_chunk_def) (simp add: accept_def store_def booked_def Let_def)
qed

lemma pass_fields:
  "cap (pass c) = cap c" "chunk_id (pass c) = chunk_id c" "locked (pass c) = locked c"
  "retries (pass c) = retries c" "contents (pass c) = contents c" "writes (pass c) = writes c"
  "entries (pass c) = entries c"
  by (simp_all add: pass_def booked_def contents_def List_def)

lemma wf_pass:
  assumes "wf_chunk c" "rejects c" "book c < 2 ^ 31 - 1"
  shows "wf_chunk (pass c)"
  using assms unfolding rejects_iff [OF assms(1,3)]
  by (auto simp: wf_chunk_def pass_def booked_def i32_id contents_def List_def epochs_def)

subsection \<open>First, last, ready\<close>

definition epoch_inv :: "Chunk \<Rightarrow> bool" where
  "epoch_inv c =
     (if contents c = [] then epochStart c = 0 \<and> epochEnd c = 0
      else epochStart c = Min (set (epochs c)) \<and> epochEnd c = Max (set (epochs c)))"

lemma epoch_fresh: "fresh c \<Longrightarrow> epoch_inv c"
  by (simp add: epoch_inv_def fresh_contents) (simp add: fresh_def)

lemma epoch_accept:
  assumes "wf_chunk c" "book c < cap c" "epoch_inv c"
    and pos: "\<forall>t \<in> set (epochs c). 0 < t" "0 < unixSec (etime e)"
  shows "epoch_inv (accept e c)"
proof (cases "contents c = []")
  case True
  then show ?thesis
    using assms by (simp add: epoch_inv_def contents_accept epochs_def)
      (simp add: accept_def store_def booked_def Let_def)
next
  case False
  let ?S = "set (epochs c)" and ?t = "unixSec (etime e)"
  have ne: "finite ?S" "?S \<noteq> {}" using False by (auto simp: epochs_def)
  have se: "epochStart c = Min ?S" "epochEnd c = Max ?S"
    using assms(3) False by (auto simp: epoch_inv_def)
  have "set (epochs (accept e c)) = insert ?t ?S"
    using assms by (simp add: epochs_def contents_accept)
  moreover have "epochStart (accept e c) = min ?t (Min ?S)"
    using se pos(1) Min_in [OF ne]
    by (auto simp: accept_def store_def booked_def Let_def min_def)
  moreover have "epochEnd (accept e c) = max ?t (Max ?S)"
    using se by (simp add: accept_def store_def booked_def Let_def max_def)
  ultimately show ?thesis
    using assms ne by (simp add: epoch_inv_def contents_accept)
qed

lemma epoch_pass: "epoch_inv c \<Longrightarrow> epoch_inv (pass c)"
  unfolding epoch_inv_def epochs_def pass_fields by (simp add: pass_def booked_def)

lemma Ready_iff:
  "wf_chunk c \<Longrightarrow> Ready c = (cap c \<le> book c \<or> (0 < book c \<and> locked c))"
  by (auto simp: Ready_def wf_chunk_def)

lemma TTL_total:
  assumes "wf_chunk c"
  shows "\<exists>d. TTL now c = Inr d"
proof -
  have "entries c (nat (writes c - 1)) \<noteq> None" if "\<not> writes c < 1"
  proof -
    have "int (nat (writes c - 1)) < writes c" using that by simp
    with assms show ?thesis unfolding wf_chunk_def by blast
  qed
  then show ?thesis
    by (cases "writes c < 1") (auto simp: TTL_def Let_def)
qed

subsection \<open>Put along the chain\<close>

definition via :: "panic + (Chunk list \<times> nat \<times> bool) \<Rightarrow> panic + (Chunk list \<times> nat \<times> bool)" where
  "via r = (case r of Inl p \<Rightarrow> Inl p | Inr (cs, i, _) \<Rightarrow> Inr (cs, i, True))"

lemma via_simps: "via (Inl p) = Inl p" "via (Inr (cs, i, b)) = Inr (cs, i, True)" "via (via r) = via r"
  by (auto simp: via_def split: sum.splits prod.splits)

lemma Put_accepts:
  assumes "wf_chunk c" "book c < cap c" "\<not> locked c"
  shows "Put e (pre @ c # rest) (length pre) = Inr (pre @ accept e c # rest, length pre, False)"
proof -
  have "slot c = book c" "0 \<le> book c" "cap c \<le> 900"
    using assms by (auto simp: wf_chunk_def slot_book)
  with assms show ?thesis
    by (subst Put.simps) (simp add: nth_append Let_def accept_def booked_def)
qed

lemma link_some: "link_next (pre @ c # d # rest) (length pre) = pre @ c # d # rest"
  by (simp add: link_next_def)

lemma link_none:
  "1 \<le> cap c \<Longrightarrow> link_next (pre @ [c]) (length pre) =
     pre @ [c, zeroChunk\<lparr>cap := cap c, chunk_id := i32 (chunk_id c + 1)\<rparr>]"
  by (simp add: link_next_def Let_def)

lemma Put_passes:
  assumes "rejects c"
  shows "Put e (pre @ c # rest) (length pre) =
    via (Put e (link_next (pre @ pass c # rest) (length pre)) (Suc (length pre)))"
  using assms by (subst Put.simps) (auto simp: nth_append Let_def pass_def via_def rejects_def
      booked_def split: sum.splits)

lemma Put_skips:
  assumes "\<forall>c \<in> set mid. rejects c" "mid \<noteq> []"
  shows "Put e (pre @ mid @ d # rest) (length pre) =
    via (Put e (pre @ map pass mid @ d # rest) (length pre + length mid))"
  using assms
proof (induction mid arbitrary: pre)
  case (Cons c mid)
  show ?case
  proof (cases mid)
    case Nil
    then show ?thesis
      using Put_passes [of c e pre "d # rest"] Cons.prems by (simp add: link_some)
  next
    case (Cons c' mid')
    have "Put e (pre @ (c # mid) @ d # rest) (length pre) =
        via (Put e ((pre @ [pass c]) @ mid @ d # rest) (length (pre @ [pass c])))"
      using Put_passes [of c e pre "mid @ d # rest"] Cons.prems Cons by (simp add: link_some)
    with Cons.IH [of "pre @ [pass c]"] Cons.prems Cons show ?thesis
      by (simp add: via_simps)
  qed
qed simp

lemma contents_map_pass: "concat (map (contents \<circ> pass) cs) = concat (map contents cs)"
  by (simp add: comp_def pass_fields)

subsection \<open>The frontier\<close>

text \<open>
  The shape of the chain between operations: the chunks before \<open>w\<close> turn entries down, the
  chunks after \<open>w\<close> are untouched. The entries of the whole chain, in order, are \<open>written\<close>.
\<close>

definition written :: "Chunk list \<Rightarrow> Entry list" where
  "written cs = concat (map contents cs)"

definition frontier :: "Chunk list \<Rightarrow> nat \<Rightarrow> bool" where
  "frontier cs w =
     (w < length cs \<and> list_all wf_chunk cs \<and> list_all rejects (take w cs) \<and>
      list_all fresh (drop (Suc w) cs))"

text \<open>No chunk has been booked so often that the next booking could wrap around.\<close>

definition unwrapped :: "Chunk list \<Rightarrow> bool" where
  "unwrapped cs = list_all (\<lambda>c. book c < 2 ^ 31 - 2) cs"

lemma frontier_split:
  assumes "frontier cs w"
  obtains pre c rest where "cs = pre @ c # rest" "length pre = w" "list_all wf_chunk pre"
    "list_all rejects pre" "wf_chunk c" "list_all fresh rest"
proof -
  have "cs = take w cs @ cs ! w # drop (Suc w) cs"
    using assms by (simp add: frontier_def id_take_nth_drop)
  moreover have "list_all wf_chunk (take w cs)"
    using assms by (auto simp: frontier_def list_all_iff dest: in_set_takeD)
  moreover have "wf_chunk (cs ! w)"
    using assms by (simp add: frontier_def list_all_length)
  ultimately show ?thesis
    using that [of "take w cs" "cs ! w" "drop (Suc w) cs"] assms by (simp add: frontier_def)
qed

lemma frontierI:
  "list_all wf_chunk pre \<Longrightarrow> list_all rejects pre \<Longrightarrow> wf_chunk c \<Longrightarrow> list_all fresh rest
    \<Longrightarrow> frontier (pre @ c # rest) (length pre)"
  by (auto simp: frontier_def fresh_def list_all_iff)

lemma rejects_pass: "wf_chunk c \<Longrightarrow> rejects c \<Longrightarrow> book c < 2 ^ 31 - 2 \<Longrightarrow> rejects (pass c)"
  by (auto simp: rejects_iff) (auto simp: rejects_def pass_def booked_def slot_def i32_id wf_chunk_def)

lemma pass_all:
  assumes "list_all wf_chunk cs" "list_all rejects cs" "unwrapped cs"
  shows "list_all wf_chunk (map pass cs)" "list_all rejects (map pass cs)"
  using assms by (auto simp: list_all_iff unwrapped_def wf_pass rejects_pass)

lemma written_simps:
  "written (cs @ cs') = written cs @ written cs'" "written (c # cs) = contents c @ written cs"
  "written [] = []" "written (map pass cs) = written cs"
  by (simp_all add: written_def comp_def pass_fields)

lemma written_fresh: "list_all fresh cs \<Longrightarrow> written cs = []"
  by (auto simp: written_def list_all_iff fresh_contents)

lemma accept_at:
  assumes pre: "list_all wf_chunk pre" "list_all rejects pre"
    and c: "wf_chunk c" "book c < cap c" "\<not> locked c" and rest: "list_all fresh rest"
    and un: "unwrapped pre" and k: "k \<le> length pre"
  shows "\<exists>cs'. Put e (pre @ c # rest) k = Inr (cs', length pre, length pre \<noteq> k)
    \<and> frontier cs' (length pre) \<and> written cs' = written (pre @ [c]) @ [e]
    \<and> cs' = take k pre @ map pass (drop k pre) @ accept e c # rest"
proof -
  let ?a = "take k pre" and ?m = "drop k pre"
  let ?cs = "?a @ map pass ?m @ accept e c # rest"
  have m: "list_all wf_chunk ?m" "list_all rejects ?m" "unwrapped ?m"
    "list_all wf_chunk ?a" "list_all rejects ?a"
    using pre un by (auto simp: list_all_iff unwrapped_def dest: in_set_takeD in_set_dropD)
  have "frontier ((?a @ map pass ?m) @ accept e c # rest) (length (?a @ map pass ?m))"
    by (rule frontierI) (use m pass_all [OF m(1-3)] c rest wf_accept in auto)
  then have f: "frontier ?cs (length pre)" using k by simp
  have w: "written ?cs = written (pre @ [c]) @ [e]"
    using c rest by (simp add: written_simps written_fresh contents_accept)
      (simp flip: append_assoc written_simps(1))
  have "Put e (pre @ c # rest) k = Inr (?cs, length pre, length pre \<noteq> k)"
  proof (cases "?m = []")
    case True
    then show ?thesis using k Put_accepts [OF c, of e pre rest] by simp
  next
    case False
    have eq: "?a @ ?m @ c # rest = pre @ c # rest"
      by (simp only: append_assoc [symmetric] append_take_drop_id)
    have "Put e (?a @ ?m @ c # rest) (length ?a) =
        via (Put e ((?a @ map pass ?m) @ c # rest) (length (?a @ map pass ?m)))"
      using Put_skips [of ?m e ?a c rest] m(2) False by (simp add: list_all_iff)
    also have "\<dots> = Inr (?cs, length pre, True)"
      unfolding Put_accepts [OF c] via_simps using k by simp
    finally show ?thesis
      unfolding eq using k False by (simp add: min_absorb2)
  qed
  with f w show ?thesis by blast
qed

text \<open>Linking the next chunk first makes no difference to a full chunk at the end of the chain.\<close>

lemma Put_linked:
  assumes "list_all rejects pre" "rejects c" "1 \<le> cap c" "k \<le> length pre"
  shows "Put e (pre @ [c]) k = Put e (link_next (pre @ [c]) (length pre)) k"
proof -
  let ?d = "zeroChunk\<lparr>cap := cap c, chunk_id := i32 (chunk_id c + 1)\<rparr>"
  have last: "Put e (q @ [c]) (length q) = Put e (q @ [c, ?d]) (length q)" for q
    using assms(3) by (simp add: Put_passes [OF assms(2)] link_none link_some pass_fields)
  show ?thesis
  proof (cases "drop k pre = []")
    case True
    then show ?thesis using assms last [of pre] link_none [OF assms(3), of pre] by simp
  next
    case False
    have eq: "take k pre @ drop k pre @ c # r = pre @ c # r" for r
      by (simp only: append_assoc [symmetric] append_take_drop_id)
    have "Put e (pre @ c # r) k =
        via (Put e ((take k pre @ map pass (drop k pre)) @ c # r)
          (length (take k pre @ map pass (drop k pre))))" for r
      using Put_skips [of "drop k pre" e "take k pre" c r] False assms(1,4)
      by (simp add: eq list_all_iff min_absorb2 in_set_dropD)
    with last [of "take k pre @ map pass (drop k pre)"] assms(3) show ?thesis
      by (simp add: link_none)
  qed
qed

lemma fresh_open: "fresh d \<Longrightarrow> wf_chunk d \<and> book d < cap d \<and> \<not> locked d"
  by (auto simp: fresh_def wf_chunk_def)

lemma Put_next:
  assumes pre: "list_all wf_chunk pre" "list_all rejects pre" "wf_chunk c" "rejects c"
    and rest: "fresh d" "list_all fresh r" and un: "unwrapped (pre @ [c])" and k: "k \<le> length pre"
  shows "\<exists>cs'. Put e (pre @ c # d # r) k = Inr (cs', Suc (length pre), True)
    \<and> frontier cs' (Suc (length pre)) \<and> written cs' = written (pre @ [c]) @ [e]
    \<and> cs' ! Suc (length pre) = accept e d \<and> length cs' = length pre + 2 + length r"
proof -
  have d: "contents d = []" using rest(1) by (rule fresh_contents)
  show ?thesis
    using accept_at [of "pre @ [c]" d r k e] fresh_open [OF rest(1)] pre rest un k
    by (auto simp: written_simps d nth_append)
qed

lemma Put_frontier:
  assumes f: "frontier cs w" and un: "unwrapped cs" and k: "k \<le> w"
  shows "\<exists>cs' i. Put e cs k = Inr (cs', i, i \<noteq> k) \<and> frontier cs' i \<and> w \<le> i \<and> i \<le> Suc w
    \<and> written cs' = written cs @ [e] \<and> contents (cs' ! i) \<noteq> []"
  using f
proof (rule frontier_split)
  fix pre c rest
  assume cs: "cs = pre @ c # rest" "length pre = w" and pre: "list_all wf_chunk pre"
    "list_all rejects pre" and c: "wf_chunk c" and rest: "list_all fresh rest"
  have u: "unwrapped (pre @ [c])" "unwrapped pre" "book c < 2 ^ 31 - 1"
    using un cs by (auto simp: unwrapped_def)
  have w: "written cs = written (pre @ [c])"
    using rest by (simp add: cs written_simps written_fresh)
  have ne: "contents (accept e d) \<noteq> []" if "wf_chunk d" "book d < cap d" for d
    using that by (simp add: contents_accept)
  show ?thesis
  proof (cases "rejects c")
    case False
    then have "book c < cap c" "\<not> locked c" using rejects_iff [OF c u(3)] by auto
    with accept_at [OF pre c this rest u(2), of k e] k cs w ne [OF c] show ?thesis
      by (auto simp: nth_append)
  next
    case True
    have step: "?thesis" if d: "fresh d" "list_all fresh r" and eq: "Put e cs k = Put e (pre @ c # d # r) k"
      for d r
    proof -
      obtain cs' where cs': "Put e (pre @ c # d # r) k = Inr (cs', Suc w, True)"
        "frontier cs' (Suc w)" "written cs' = written cs @ [e]" "cs' ! Suc w = accept e d"
        using Put_next [OF pre c True d u(1), of k e] k w cs(2) by auto
      then show ?thesis
        using eq k ne [of d] fresh_open [OF d(1)] by (intro exI [of _ cs'] exI [of _ "Suc w"]) simp
    qed
    show ?thesis
    proof (cases rest)
      case Nil
      have cap: "1 \<le> cap c" "cap c \<le> 900" using c by (auto simp: wf_chunk_def)
      show ?thesis
        by (rule step [OF fresh_zero [OF cap], of "[]"])
          (use Put_linked [OF pre(2) True cap(1)] k cs Nil link_none [OF cap(1), of pre] in simp_all)
    next
      case (Cons d r)
      show ?thesis by (rule step [of d r]) (use rest cs Cons in simp_all)
    qed
  qed
qed

subsection \<open>Growing the chain\<close>

definition new_chunk :: "Chunk \<Rightarrow> bool" where
  "new_chunk c = (fresh c \<and> retries c = 0)"

text \<open>\<^verbatim>\<open>Init\<close> only appends untouched chunks.\<close>

lemma link_appends:
  assumes "list_all wf_chunk cs" "k < length cs"
  shows "\<exists>new. link_next cs k = cs @ new \<and> list_all new_chunk new"
proof (cases "Suc k < length cs")
  case False
  have "wf_chunk (cs ! k)" using assms by (simp add: list_all_length)
  then have cap: "1 \<le> cap (cs ! k)" "cap (cs ! k) \<le> 900" by (auto simp: wf_chunk_def)
  have "new_chunk (zeroChunk\<lparr>cap := cap (cs ! k), chunk_id := j\<rparr>)" for j
    unfolding new_chunk_def using fresh_zero [OF cap] by (simp add: zeroChunk_def)
  with False cap show ?thesis by (simp add: link_next_def Let_def)
qed (simp add: link_next_def)

lemma new_wf: "new_chunk c \<Longrightarrow> wf_chunk c"
  by (simp add: new_chunk_def fresh_def)

lemma Init_appends:
  assumes "list_all wf_chunk cs" "k < length cs"
  shows "\<exists>new. Init d cs k = cs @ new \<and> list_all new_chunk new"
  using assms
proof (induction d arbitrary: cs k)
  case (Suc d)
  obtain new where new: "link_next cs k = cs @ new" "list_all new_chunk new"
    using link_appends [OF Suc.prems] by blast
  have "list_all wf_chunk (cs @ new)" "Suc k < length (cs @ new)"
    using Suc.prems new length_link_next [OF Suc.prems(2)] new_wf by (auto simp: list_all_iff)
  from Suc.IH [OF this] new show ?case by auto
qed simp

lemma frontier_grow:
  "frontier cs w \<Longrightarrow> list_all new_chunk new \<Longrightarrow> frontier (cs @ new) w"
  by (auto simp: frontier_def list_all_iff new_chunk_def fresh_def)

lemma written_grow: "list_all new_chunk new \<Longrightarrow> written (cs @ new) = written cs"
  by (simp add: written_simps, rule written_fresh) (auto simp: list_all_iff new_chunk_def)

text \<open>What \<^verbatim>\<open>Put\<close> does at the frontier, chunk by chunk.\<close>

lemma Put_head:
  assumes f: "frontier cs w" and un: "unwrapped cs"
  obtains
    (accepted) "\<not> rejects (cs ! w)" "Put e cs w = Inr (cs[w := accept e (cs ! w)], w, False)"
  | (moved) new where "rejects (cs ! w)" "list_all new_chunk new" "Suc w < length (cs @ new)"
      "Put e cs w = Inr ((cs @ new)[w := pass (cs ! w), Suc w := accept e ((cs @ new) ! Suc w)],
         Suc w, True)"
  using f
proof (rule frontier_split)
  fix pre c rest
  assume cs: "cs = pre @ c # rest" "length pre = w" and c: "wf_chunk c" and
    rest: "list_all fresh rest"
  have nth: "cs ! w = c" using cs by auto
  have book: "book c < 2 ^ 31 - 1" using un cs by (auto simp: unwrapped_def)
  show thesis
  proof (cases "rejects c")
    case False
    then have "book c < cap c" "\<not> locked c" using rejects_iff [OF c book] by auto
    from Put_accepts [OF c this, of e pre rest] False show thesis
      using accepted cs by auto
  next
    case True
    have put: "Put e (pre @ c # d # r) w = Inr (pre @ pass c # accept e d # r, Suc w, True)"
      if "fresh d" for d r
      using Put_passes [OF True, of e pre "d # r"] Put_accepts [of d e "pre @ [pass c]" r]
        fresh_open [OF that] cs(2) link_some [of pre "pass c" d r] by (simp add: via_simps)
    show thesis
    proof (cases rest)
      case Nil
      have cap: "1 \<le> cap c" "cap c \<le> 900" using c by (auto simp: wf_chunk_def)
      let ?d = "zeroChunk\<lparr>cap := cap c, chunk_id := i32 (chunk_id c + 1)\<rparr>"
      have "Put e cs w = Put e (pre @ [c, ?d]) w"
        using Put_passes [OF True, of e pre "[]"] Put_passes [OF True, of e pre "[?d]"] cap(1)
        by (simp add: cs Nil link_none link_some pass_fields flip: cs(2))
      moreover have "new_chunk ?d"
        unfolding new_chunk_def using fresh_zero [OF cap] by (simp add: zeroChunk_def)
      ultimately show thesis
        using moved [of "[?d]"] put [OF fresh_zero [OF cap], of _ "[]"] True cs Nil
        by (auto simp: nth_append list_update_append)
    next
      case (Cons d r)
      then show thesis
        using moved [of "[]"] put [of d r] True cs rest
        by (auto simp: nth_append list_update_append)
    qed
  qed
qed

end
