(* ===== verification/ChunkProperties.thy ===== *)
theory ChunkProperties imports Chunk begin

text \<open>What a caller of \<^verbatim>\<open>chunk.go\<close> can rely on when the calls do not overlap.\<close>

text \<open>
  \<^verbatim>\<open>Put\<close> on any chunk of the chain that is not past the one being written never
  panics, and appends the entry at the end of what the whole chain holds, in the chunk being
  written or the next one; the flag says whether that is another chunk than the one called.
\<close>

theorem put_appends:
  assumes "frontier cs w" "unwrapped cs" "k \<le> w"
  shows "\<exists>cs' i. Put e cs k = Inr (cs', i, i \<noteq> k) \<and> frontier cs' i \<and> w \<le> i \<and> i \<le> Suc w
    \<and> written cs' = written cs @ [e]"
  using Put_frontier [OF assms, of e] by blast

theorem put_appends_witness:
  "\<exists>cs' i. Put \<lparr>etime = \<lparr>unixSec = 3, nsec = 0\<rparr>, level = 0, content = ''x''\<rparr> [NewChunk 2] 0 = Inr (cs', i, i \<noteq> 0)
    \<and> written cs' = [\<lparr>etime = \<lparr>unixSec = 3, nsec = 0\<rparr>, level = 0, content = ''x''\<rparr>]"
proof -
  have "frontier [NewChunk 2] 0" "unwrapped [NewChunk 2]"
    using fresh_NewChunk [of 2] by (simp_all add: frontier_def fresh_def unwrapped_def)
  moreover have "written [NewChunk 2] = []"
    using fresh_contents [OF fresh_NewChunk] by (simp add: written_simps)
  ultimately show ?thesis
    using put_appends [of "[NewChunk 2]" 0 0 "\<lparr>etime = \<lparr>unixSec = 3, nsec = 0\<rparr>, level = 0, content = ''x''\<rparr>"]
    by force
qed

definition epochs_ok :: "Chunk \<Rightarrow> bool" where
  "epochs_ok c = (epoch_inv c \<and> list_all (\<lambda>t. 0 < t) (epochs c))"

lemma epochs_ok_accept:
  "epochs_ok c \<Longrightarrow> wf_chunk c \<Longrightarrow> book c < cap c \<Longrightarrow> 0 < unixSec (etime e) \<Longrightarrow> epochs_ok (accept e c)"
  by (auto simp: epochs_ok_def epoch_accept epochs_def contents_accept list_all_iff)

lemma epochs_ok_pass: "epochs_ok c \<Longrightarrow> epochs_ok (pass c)"
  by (simp add: epochs_ok_def epoch_pass epochs_def pass_fields)

lemma epochs_ok_fresh: "fresh c \<Longrightarrow> epochs_ok c"
  by (simp add: epochs_ok_def epoch_fresh epochs_def fresh_contents)

text \<open>
  \<^verbatim>\<open>First\<close> and \<^verbatim>\<open>Last\<close> of every chunk are the smallest and the largest epoch of its
  entries, as long as these are after 1970 (a stored 0 means that nothing was written).
\<close>

theorem put_keeps_epochs:
  assumes "frontier cs w" "unwrapped cs" "list_all epochs_ok cs" "0 < unixSec (etime e)"
    and "Put e cs w = Inr (cs', i, full)"
  shows "list_all epochs_ok cs'"
  using assms(1,2)
proof (cases rule: Put_head [of _ _ e])
  case accepted
  have w: "w < length cs" "wf_chunk (cs ! w)"
    using assms(1) by (auto simp: frontier_def list_all_length)
  moreover have "book (cs ! w) < 2 ^ 31 - 1"
    using assms(2) w(1) by (auto simp: unwrapped_def list_all_length)
  ultimately have "book (cs ! w) < cap (cs ! w)" using accepted(1) rejects_iff by force
  then have "list_all epochs_ok (cs[w := accept e (cs ! w)])"
    using assms(3,4) w epochs_ok_accept by (intro list_all_update) auto
  with assms(5) accepted(2) show ?thesis by auto
next
  case (moved new)
  let ?d = "(cs @ new) ! Suc w"
  have w: "w < length cs" using assms(1) by (simp add: frontier_def)
  have all: "list_all epochs_ok (cs @ new)"
    using assms(3) moved(2) epochs_ok_fresh by (auto simp: list_all_iff new_chunk_def)
  have "fresh ?d"
    using frontier_grow [OF assms(1) moved(2)] moved(3)
    unfolding frontier_def by (auto simp: list_all_length dest!: spec [of _ 0] simp del: drop_append)
  then have d: "wf_chunk ?d" "book ?d < cap ?d" using fresh_open by auto
  have "epochs_ok ?d" "epochs_ok (cs ! w)"
    using all assms(3) moved(3) w by (simp_all only: list_all_length)
  then have "epochs_ok (accept e ?d)" "epochs_ok (pass (cs ! w))"
    using d assms(4) by (auto intro: epochs_ok_pass epochs_ok_accept)
  then have "list_all epochs_ok ((cs @ new)[w := pass (cs ! w), Suc w := accept e ?d])"
    using all by (intro list_all_update) auto
  with moved(4) assms(5) show ?thesis by simp
qed

theorem put_keeps_epochs_witness:
  "\<exists>cs' i full. Put \<lparr>etime = \<lparr>unixSec = 3, nsec = 0\<rparr>, level = 0, content = ''x''\<rparr> [NewChunk 2] 0 = Inr (cs', i, full)
    \<and> list_all epochs_ok cs'"
proof -
  have f: "frontier [NewChunk 2] 0" "unwrapped [NewChunk 2]" "list_all epochs_ok [NewChunk 2]"
    using fresh_NewChunk [of 2] epochs_ok_fresh by (simp_all add: frontier_def fresh_def unwrapped_def)
  let ?e = "\<lparr>etime = \<lparr>unixSec = 3, nsec = 0\<rparr>, level = 0, content = ''x''\<rparr>"
  obtain cs' i where "Put ?e [NewChunk 2] 0 = Inr (cs', i, i \<noteq> 0)"
    using Put_frontier [OF f(1,2) order_refl, of ?e] by blast
  with put_keeps_epochs [OF f, of ?e cs' i "i \<noteq> 0"] show ?thesis by auto
qed

end
