(* ===== verification/ChunkConc.thy ===== *)
theory ChunkConc imports Chunk begin

text \<open>
  \<^verbatim>\<open>Chunk.Put\<close> in \<^verbatim>\<open>chunk.go\<close>, run by many goroutines at once on one chunk, with the flusher
  locking it at any time. Each atomic load, compare-and-swap and add of the code is one step, as
  is the plain store to the booked slot. The steps are those on one chunk: a goroutine that is turned down
  leaves it, and what it does then, \<^verbatim>\<open>c.Next().Put(e)\<close>, is a step of \<open>ingest_step\<close> in \<open>IngestConc\<close>, where
  the goroutine starts anew at the next chunk.
\<close>

subsection \<open>The goroutines\<close>

text \<open>
  Where a goroutine is in \<^verbatim>\<open>Put\<close>; from \<open>Booked\<close> on it owns the slot \<open>k\<close>. At \<open>LeftLocked\<close> and \<open>LeftFull\<close> it
  has done with this chunk.
\<close>

datatype pc =
    Called
  | Unlocked
  | Booked nat
  | Stored nat
  | LastRead nat int
  | LastDone nat
  | FirstRead nat int
  | Retrying nat nat
  | RetryRead nat nat int
  | FirstDone nat
  | Sized nat
  | Finished nat
  | LeftLocked
  | LeftFull

type_synonym goroutine = "Entry \<times> pc"
type_synonym conc = "Chunk \<times> goroutine list"

fun slot_of :: "pc \<Rightarrow> nat option" where
  "slot_of (Booked k) = Some k"
| "slot_of (Stored k) = Some k"
| "slot_of (LastRead k _) = Some k"
| "slot_of (LastDone k) = Some k"
| "slot_of (FirstRead k _) = Some k"
| "slot_of (Retrying k _) = Some k"
| "slot_of (RetryRead k _ _) = Some k"
| "slot_of (FirstDone k) = Some k"
| "slot_of (Sized k) = Some k"
| "slot_of (Finished k) = Some k"
| "slot_of _ = None"

text \<open>One step of a goroutine with entry \<open>e\<close> on this chunk: the shared chunk and the new place.\<close>

fun put_step :: "Entry \<Rightarrow> pc \<Rightarrow> Chunk \<Rightarrow> Chunk \<times> pc" where
  "put_step e Called c = (c, if locked c then LeftLocked else Unlocked)"
| "put_step e Unlocked c =
     (booked c, if slot c > cap c - 1 then LeftFull else Booked (nat (slot c)))"
| "put_step e (Booked k) c = (c\<lparr>entries := (entries c)(k := Some e)\<rparr>, Stored k)"
| "put_step e (Stored k) c =
     (c, if unixSec (etime e) > epochEnd c then LastRead k (epochEnd c) else LastDone k)"
| "put_step e (LastRead k seen) c =
     (if epochEnd c = seen then c\<lparr>epochEnd := unixSec (etime e)\<rparr> else c, LastDone k)"
| "put_step e (LastDone k) c =
     (c, if epochStart c = 0 \<or> unixSec (etime e) < epochStart c then FirstRead k (epochStart c)
         else FirstDone k)"
| "put_step e (FirstRead k seen) c =
     (if epochStart c = seen then (c\<lparr>epochStart := unixSec (etime e)\<rparr>, FirstDone k)
      else (c, Retrying k 0))"
| "put_step e (Retrying k n) c =
     (c, if n < 3 \<and> unixSec (etime e) < epochStart c then RetryRead k n (epochStart c)
         else FirstDone k)"
| "put_step e (RetryRead k n seen) c =
     (if epochStart c = seen then (c\<lparr>epochStart := unixSec (etime e)\<rparr>, FirstDone k)
      else (c, Retrying k (n + 1)))"
| "put_step e (FirstDone k) c = (c\<lparr>csize := i64 (csize c + int (length (content e)))\<rparr>, Sized k)"
| "put_step e (Sized k) c = (c\<lparr>writes := i32 (writes c + 1)\<rparr>, Finished k)"
| "put_step e p c = (c, p)"

inductive conc_step :: "conc \<Rightarrow> conc \<Rightarrow> bool" where
  put: "i < length gs \<Longrightarrow> gs ! i = (e, p) \<Longrightarrow> put_step e p c = (c', p')
    \<Longrightarrow> conc_step (c, gs) (c', gs[i := (e, p')])"
| lock: "conc_step (c, gs) (Lock c, gs)"

text \<open>The same, with the choice made explicit: a goroutine by its index, or the flusher's lock.\<close>

fun schedule :: "nat option list \<Rightarrow> conc \<Rightarrow> conc" where
  "schedule [] s = s"
| "schedule (None # ts) (c, gs) = schedule ts (Lock c, gs)"
| "schedule (Some i # ts) (c, gs) =
     (if i < length gs then
        (case put_step (fst (gs ! i)) (snd (gs ! i)) c of
           (c, p) \<Rightarrow> schedule ts (c, gs[i := (fst (gs ! i), p)]))
      else schedule ts (c, gs))"

lemma schedule_steps: "conc_step\<^sup>*\<^sup>* s (schedule ts s)"
proof (induction ts s rule: schedule.induct)
  case (2 ts c gs)
  then show ?case using conc_step.lock by (auto intro: converse_rtranclp_into_rtranclp)
next
  case (3 i ts c gs)
  show ?case
  proof (cases "i < length gs")
    case True
    obtain c' p' where st: "put_step (fst (gs ! i)) (snd (gs ! i)) c = (c', p')" by fastforce
    have "conc_step (c, gs) (c', gs[i := (fst (gs ! i), p')])"
      by (rule conc_step.put [OF True _ st]) simp
    with 3(1) [OF True st [symmetric]] show ?thesis
      using True st by (simp add: converse_rtranclp_into_rtranclp)
  qed (use 3(2) in simp)
qed simp

definition start :: "int \<Rightarrow> Entry list \<Rightarrow> conc" where
  "start n es = (NewChunk n, map (\<lambda>e. (e, Called)) es)"

subsection \<open>The invariant\<close>

definition has_booked :: "pc \<Rightarrow> bool" where
  "has_booked p = (slot_of p \<noteq> None \<or> p = LeftFull)"

fun is_finished :: "pc \<Rightarrow> bool" where
  "is_finished (Finished _) = True"
| "is_finished _ = False"

definition count :: "(pc \<Rightarrow> bool) \<Rightarrow> goroutine list \<Rightarrow> nat" where
  "count P gs = length (filter (\<lambda>g. P (snd g)) gs)"

text \<open>
  Every booking is counted in \<^verbatim>\<open>book\<close>, every finished write in \<^verbatim>\<open>write\<close>; the slots below both
  \<^verbatim>\<open>book\<close> and \<^verbatim>\<open>cap\<close> are owned by one goroutine each, and hold its entry once it is stored.
\<close>

definition conc_inv :: "conc \<Rightarrow> bool" where
  "conc_inv s =
     (case s of (c, gs) \<Rightarrow>
        1 \<le> cap c \<and> cap c \<le> 900 \<and> length gs < 2 ^ 31 - 1 \<and>
        book c = int (count has_booked gs) \<and> writes c = int (count is_finished gs) \<and>
        (\<forall>i < length gs. \<forall>k. slot_of (snd (gs ! i)) = Some k \<longrightarrow>
           int k < book c \<and> int k < cap c \<and>
           ((\<exists>j. snd (gs ! i) = Booked j) \<or> entries c k = Some (fst (gs ! i)))) \<and>
        (\<forall>i < length gs. \<forall>j < length gs. \<forall>k.
           slot_of (snd (gs ! i)) = Some k \<longrightarrow> slot_of (snd (gs ! j)) = Some k \<longrightarrow> i = j))"

lemma count_update:
  "i < length gs \<Longrightarrow> count P (gs[i := g]) + (if P (snd (gs ! i)) then 1 else 0) =
     count P gs + (if P (snd g) then 1 else 0)"
proof (induction gs arbitrary: i)
  case (Cons a gs)
  then show ?case by (cases i) (auto simp: count_def)
qed simp

lemma count_le: "count P gs \<le> length gs"
  by (simp add: count_def)

lemma put_step_finished: "put_step e (Finished k) c = (c, Finished k)"
  by simp

text \<open>What one step can do to the shared chunk and to the goroutine.\<close>

lemma put_step_frame:
  assumes "put_step e p c = (c', p')" "p \<noteq> Unlocked"
  shows "cap c' = cap c" "book c' = book c" "locked c' = locked c" "slot_of p' = slot_of p"
    "has_booked p' = has_booked p" "retries c' = retries c" "chunk_id c' = chunk_id c"
    "is_finished p' = (is_finished p \<or> (\<exists>k. p = Sized k))"
    "writes c' = (if \<exists>k. p = Sized k then i32 (writes c + 1) else writes c)"
    "entries c' = (case p of Booked k \<Rightarrow> (entries c)(k := Some e) | _ \<Rightarrow> entries c)"
    "(\<exists>j. p' = Booked j) \<longrightarrow> (\<exists>j. p = Booked j) \<and> False"
  using assms by (cases p; auto simp: has_booked_def split: if_splits)+

lemma put_step_Unlocked:
  assumes "put_step e Unlocked c = (c', p')" "0 \<le> book c" "book c < 2 ^ 31 - 1"
  shows "c' = c\<lparr>book := book c + 1\<rparr>"
    "p' = (if book c < cap c then Booked (nat (book c)) else LeftFull)"
  using assms by (auto simp: booked_def slot_book i32_id)

lemma nth_update_cases:
  "j < length (xs[i := x]) \<Longrightarrow> (j = i \<Longrightarrow> P x) \<Longrightarrow> (j \<noteq> i \<Longrightarrow> j < length xs \<Longrightarrow> P (xs ! j)) \<Longrightarrow> P (xs[i := x] ! j)"
  by (cases "j = i") auto

definition owned :: "Chunk \<Rightarrow> goroutine \<Rightarrow> bool" where
  "owned c g = (\<forall>k. slot_of (snd g) = Some k \<longrightarrow> int k < book c \<and> int k < cap c \<and>
     ((\<exists>j. snd g = Booked j) \<or> entries c k = Some (fst g)))"

definition apart :: "goroutine list \<Rightarrow> bool" where
  "apart gs = (\<forall>i < length gs. \<forall>j < length gs. \<forall>k.
     slot_of (snd (gs ! i)) = Some k \<longrightarrow> slot_of (snd (gs ! j)) = Some k \<longrightarrow> i = j)"

lemma conc_inv_alt:
  "conc_inv (c, gs) = (1 \<le> cap c \<and> cap c \<le> 900 \<and> length gs < 2 ^ 31 - 1 \<and>
     book c = int (count has_booked gs) \<and> writes c = int (count is_finished gs) \<and>
     (\<forall>i < length gs. owned c (gs ! i)) \<and> apart gs)"
  by (simp add: conc_inv_def owned_def apart_def)

lemma apart_update:
  assumes "apart gs" "i < length gs"
    and "\<And>k j. slot_of (snd g) = Some k \<Longrightarrow> j < length gs \<Longrightarrow> j \<noteq> i \<Longrightarrow> slot_of (snd (gs ! j)) \<noteq> Some k"
  shows "apart (gs[i := g])"
  unfolding apart_def
proof (intro allI impI)
  fix j j' k
  assume jj: "j < length (gs[i := g])" "j' < length (gs[i := g])"
    and k: "slot_of (snd (gs[i := g] ! j)) = Some k" "slot_of (snd (gs[i := g] ! j')) = Some k"
  consider "j = i" "j' = i" | "j = i" "j' \<noteq> i" | "j \<noteq> i" "j' = i" | "j \<noteq> i" "j' \<noteq> i" by blast
  then show "j = j'"
  proof cases
    case 2
    then show ?thesis using assms(3) [of k j'] jj k assms(2) by simp
  next
    case 3
    then show ?thesis using assms(3) [of k j] jj k assms(2) by simp
  next
    case 4
    then have "slot_of (snd (gs ! j)) = Some k" "slot_of (snd (gs ! j')) = Some k" using k by simp_all
    then show ?thesis using assms(1) jj unfolding apart_def length_list_update by blast
  qed simp
qed

lemma owned_book: "owned c g \<Longrightarrow> owned (c\<lparr>book := book c + 1\<rparr>) g"
  by (fastforce simp: owned_def)

lemma conc_inv_step:
  assumes "conc_step s s'" "conc_inv s"
  shows "conc_inv s'"
  using assms
proof (induction rule: conc_step.induct)
  case (put i gs e p c c' p')
  have inv: "1 \<le> cap c" "cap c \<le> 900" "length gs < 2 ^ 31 - 1" "book c = int (count has_booked gs)"
    "writes c = int (count is_finished gs)" "apart gs"
    and own: "\<And>j. j < length gs \<Longrightarrow> owned c (gs ! j)"
    using put.prems by (auto simp: conc_inv_alt)
  have i: "i < length gs" "gs ! i = (e, p)" using put.hyps by auto
  have cb: "count has_booked (gs[i := (e, p')]) + (if has_booked p then 1 else 0) =
      count has_booked gs + (if has_booked p' then 1 else 0)"
    and cf: "count is_finished (gs[i := (e, p')]) + (if is_finished p then 1 else 0) =
      count is_finished gs + (if is_finished p' then 1 else 0)"
    using count_update [OF i(1), of _ "(e, p')"] i by auto
  show ?case
  proof (cases "p = Unlocked")
    case True
    have b: "0 \<le> book c" "book c < 2 ^ 31 - 1"
      using inv(3,4) count_le [of has_booked gs] by auto
    note u = put_step_Unlocked [OF put.hyps(3) [unfolded True] b]
    have h: "has_booked p'" "\<not> has_booked p" "\<not> is_finished p'" "\<not> is_finished p"
      using u by (auto simp: True has_booked_def)
    have "owned c' (gs[i := (e, p')] ! j)" if "j < length (gs[i := (e, p')])" for j
      using that
    proof (rule nth_update_cases)
      show "owned c' (e, p')" using u b by (auto simp: owned_def split: if_splits)
    qed (use u own owned_book in auto)
    moreover have "apart (gs[i := (e, p')])"
    proof (rule apart_update [OF inv(6) i(1)])
      fix k j
      assume "slot_of (snd (e, p')) = Some k" "j < length gs" "j \<noteq> i"
      with u b own [of j] show "slot_of (snd (gs ! j)) \<noteq> Some k"
        by (auto simp: owned_def split: if_splits)
    qed
    ultimately show ?thesis
      using inv cb cf u(1) h by (simp add: conc_inv_alt)
  next
    case False
    note fr = put_step_frame [OF put.hyps(3) False]
    have other: "slot_of (snd (gs ! j)) \<noteq> Some k" if "slot_of p = Some k" "j < length gs" "j \<noteq> i" for j k
      using inv(6) i that by (auto simp: apart_def)
    have "owned c' (gs[i := (e, p')] ! j)" if "j < length (gs[i := (e, p')])" for j
      using that
    proof (rule nth_update_cases)
      show "owned c' (e, p')"
        using own [OF i(1)] i fr by (cases p) (auto simp: owned_def)
    next
      assume "j \<noteq> i" "j < length gs"
      with own [of j] other [of _ j] fr show "owned c' (gs ! j)"
        by (cases p) (auto simp: owned_def)
    qed
    moreover have "apart (gs[i := (e, p')])"
      by (rule apart_update [OF inv(6) i(1)]) (use other fr(4) in auto)
    moreover have "writes c' = int (count is_finished (gs[i := (e, p')]))"
    proof -
      have "\<not> is_finished (Sized k)" for k by simp
      then show ?thesis
        using fr(8,9) cf inv(3,5) count_le [of is_finished gs] by (auto simp: i32_id split: if_splits)
    qed
    ultimately show ?thesis
      using inv cb fr by (simp add: conc_inv_alt)
  qed
next
  case (lock c gs)
  have "owned (Lock c) g = owned c g" for g by (simp add: owned_def Lock_def)
  with lock show ?case by (simp add: conc_inv_alt) (simp add: Lock_def)
qed

lemma conc_inv_start:
  assumes "length es < 2 ^ 31 - 1"
  shows "conc_inv (start n es)"
proof -
  have "count P (map (\<lambda>e. (e, Called)) es) = (if P Called then length es else 0)" for P
    by (simp add: count_def)
  then show ?thesis
    using assms by (simp add: start_def conc_inv_alt owned_def apart_def NewChunk_def zeroChunk_def has_booked_def)
qed

interpretation slots: step_invariant conc_step conc_inv
  by unfold_locales (rule conc_inv_step)

lemma conc_inv_reachable: "conc_step\<^sup>*\<^sup>* (start n es) s \<Longrightarrow> length es < 2 ^ 31 - 1 \<Longrightarrow> conc_inv s"
  by (rule slots.reachable [OF _ conc_inv_start])

lemma conc_inv_schedule: "length es < 2 ^ 31 - 1 \<Longrightarrow> conc_inv (schedule ts (start n es))"
  using conc_inv_reachable schedule_steps by blast

inductive_cases conc_stepE: "conc_step (c, gs) s'"

lemma put_step_cap: "put_step e p c = (c', p') \<Longrightarrow> cap c' = cap c"
  by (cases p) (auto simp: booked_def split: if_splits)

lemma conc_step_cap: "conc_step (c, gs) s' \<Longrightarrow> cap (fst s') = cap c \<and> length (snd s') = length gs"
  by (elim conc_stepE) (auto dest: put_step_cap simp: Lock_def)

interpretation capacity: step_invariant conc_step "\<lambda>s. cap (fst s) = n" for n :: int
  using conc_step_cap by unfold_locales force

subsection \<open>Properties\<close>

text \<open>
  C30 (safety). However the goroutines interleave with each other and with the flusher's lock, two
  of them never own the same slot, and the entry of a goroutine whose \<^verbatim>\<open>Put\<close> has returned is in
  the slot it booked.
\<close>

theorem put_slots_apart:
  assumes "conc_step\<^sup>*\<^sup>* (start n es) (c, gs)" "length es < 2 ^ 31 - 1"
    and "i < length gs" "gs ! i = (e, Finished k)" "j < length gs" "slot_of (snd (gs ! j)) = Some k"
  shows "i = j \<and> entries c k = Some e \<and> int k < cap c"
proof -
  have inv: "owned c (gs ! i)" "apart gs"
    using conc_inv_reachable [OF assms(1,2)] assms(3) by (auto simp: conc_inv_alt)
  have "i = j" using inv(2) assms(3-6) unfolding apart_def by (metis slot_of.simps(10) snd_conv)
  with inv(1) assms(4) show ?thesis by (simp add: owned_def)
qed

definition entry_at :: "int \<Rightarrow> string \<Rightarrow> Entry" where
  "entry_at t s = \<lparr>etime = \<lparr>unixSec = t, nsec = 0\<rparr>, level = 0, content = s\<rparr>"

text \<open>Two goroutines, the second runs through while the first has only booked its slot.\<close>

definition overtaken :: conc where
  "overtaken = schedule ([Some 0, Some 0] @ replicate 9 (Some 1)) (start 3 [entry_at 5 ''a'', entry_at 6 ''b''])"

theorem put_slots_apart_witness:
  "entries (fst overtaken) 1 = Some (entry_at 6 ''b'')"
proof -
  have f: "snd overtaken ! 1 = (entry_at 6 ''b'', Finished 1)" "length (snd overtaken) = 2"
    by code_simp+
  have "conc_step\<^sup>*\<^sup>* (start 3 [entry_at 5 ''a'', entry_at 6 ''b'']) (fst overtaken, snd overtaken)"
    unfolding overtaken_def prod.collapse by (rule schedule_steps)
  from put_slots_apart [OF this _ _ f(1), of 1] f show ?thesis by simp
qed

text \<open>
  C33 (safety). When \<^verbatim>\<open>write\<close> has reached the capacity, as \<^verbatim>\<open>Ready\<close> asks for a full chunk, every
  slot is written, by a goroutine whose \<^verbatim>\<open>Put\<close> has returned: \<^verbatim>\<open>List\<close> has no hole.
\<close>

theorem full_chunk_complete:
  assumes "conc_step\<^sup>*\<^sup>* (start n es) (c, gs)" "length es < 2 ^ 31 - 1" "writes c = cap c" "k < nat (cap c)"
  shows "\<exists>i < length gs. snd (gs ! i) = Finished k \<and> List c ! k = Some (fst (gs ! i))"
proof -
  have inv: "\<And>i. i < length gs \<Longrightarrow> owned c (gs ! i)" "apart gs" "writes c = int (count is_finished gs)"
    using conc_inv_reachable [OF assms(1,2)] by (auto simp: conc_inv_alt)
  let ?F = "{i. i < length gs \<and> is_finished (snd (gs ! i))}"
  let ?s = "\<lambda>i. the (slot_of (snd (gs ! i)))"
  have fin: "\<exists>k. snd (gs ! i) = Finished k" if "i \<in> ?F" for i
    using that by (cases "snd (gs ! i)") auto
  have inj: "inj_on ?s ?F"
  proof (rule inj_onI)
    fix x y
    assume "x \<in> ?F" "y \<in> ?F" "?s x = ?s y"
    with fin [of x] fin [of y] inv(2) show "x = y" by (auto simp: apart_def)
  qed
  have sub: "?s ` ?F \<subseteq> {..<nat (cap c)}"
  proof
    fix x
    assume "x \<in> ?s ` ?F"
    then obtain i where "i < length gs" "snd (gs ! i) = Finished x" using fin by force
    with inv(1) [of i] show "x \<in> {..<nat (cap c)}" by (auto simp: owned_def)
  qed
  have "card ?F = nat (cap c)"
    using inv(3) assms(3) by (simp add: count_def length_filter_conv_card)
  then have "?s ` ?F = {..<nat (cap c)}"
    using card_subset_eq [OF _ sub] card_image [OF inj] by simp
  then have "k \<in> ?s ` ?F" using assms(4) by simp
  then obtain i where F: "i \<in> ?F" "?s i = k" by (elim imageE) simp
  obtain k' where "snd (gs ! i) = Finished k'" using fin [OF F(1)] by blast
  with F have i: "i < length gs" "snd (gs ! i) = Finished k" by simp_all
  with inv(1) [of i] have "entries c k = Some (fst (gs ! i))" by (auto simp: owned_def)
  then have "List c ! k = Some (fst (gs ! i))" using assms(3,4) by (simp add: List_def)
  with i show ?thesis by blast
qed

theorem full_chunk_complete_witness:
  "List (fst (schedule (replicate 9 (Some 0)) (start 1 [entry_at 5 ''a'']))) ! 0 = Some (entry_at 5 ''a'')"
proof -
  let ?s = "schedule (replicate 9 (Some 0)) (start 1 [entry_at 5 ''a''])"
  have st: "conc_step\<^sup>*\<^sup>* (start 1 [entry_at 5 ''a'']) (fst ?s, snd ?s)"
    unfolding prod.collapse by (rule schedule_steps)
  have f: "writes (fst ?s) = cap (fst ?s)" "0 < nat (cap (fst ?s))" "length (snd ?s) = 1"
    "fst (snd ?s ! 0) = entry_at 5 ''a''"
    by code_simp+
  obtain i where "i < length (snd ?s)" "List (fst ?s) ! 0 = Some (fst (snd ?s ! i))"
    using full_chunk_complete [OF st _ f(1,2)] by force
  then show ?thesis using f(3,4) by (metis less_one)
qed

definition has_slot :: "pc \<Rightarrow> bool" where
  "has_slot p = (slot_of p \<noteq> None)"

text \<open>The first bookings, as many as there are slots, own one each.\<close>

definition filled :: "conc \<Rightarrow> bool" where
  "filled s = (int (count has_slot (snd s)) = min (book (fst s)) (cap (fst s)))"

lemma count_mono: "(\<And>p. P p \<Longrightarrow> Q p) \<Longrightarrow> count P gs \<le> count Q gs"
  by (induction gs) (auto simp: count_def)

lemma count_all: "(\<And>p. P p \<Longrightarrow> Q p) \<Longrightarrow> count Q gs \<le> count P gs \<Longrightarrow> list_all (\<lambda>g. Q (snd g) \<longrightarrow> P (snd g)) gs"
proof (induction gs)
  case (Cons g gs)
  have "count P gs \<le> count Q gs" using Cons.prems(1) by (rule count_mono)
  with Cons show ?case by (auto simp: count_def split: if_splits)
qed (simp add: count_def)

lemma booked_room:
  assumes "conc_inv (c, gs)"
  shows "0 \<le> book c" "book c < 2 ^ 31 - 1" "1 \<le> cap c"
  using assms count_le [of has_booked gs] by (auto simp: conc_inv_alt)

lemma filled_step:
  assumes "conc_step s s'" "conc_inv s" "filled s"
  shows "filled s'"
  using assms
proof (induction rule: conc_step.induct)
  case (put i gs e p c c' p')
  have i: "i < length gs" "gs ! i = (e, p)" using put.hyps by auto
  have n: "count has_slot (gs[i := (e, p')]) + (if has_slot p then 1 else 0) = count has_slot gs + (if has_slot p' then 1 else 0)"
    using count_update [OF i(1), of has_slot "(e, p')"] i(2) by simp
  show ?case
  proof (cases "p = Unlocked")
    case True
    note b = booked_room [OF put.prems(1)]
    note u = put_step_Unlocked [OF put.hyps(3) [unfolded True] b(1,2)]
    have "\<not> has_slot p" "has_slot p' \<longleftrightarrow> book c < cap c" using u(2) by (simp_all add: True has_slot_def)
    with n put.prems(2) u(1) b(3) show ?thesis by (auto simp: filled_def)
  next
    case False
    note fr = put_step_frame [OF put.hyps(3) False]
    with n put.prems(2) show ?thesis by (simp add: filled_def has_slot_def)
  qed
next
  case (lock c gs)
  then show ?case by (simp add: filled_def Lock_def)
qed

interpretation fills: step_invariant conc_step "\<lambda>s. conc_inv s \<and> filled s"
  by unfold_locales (auto intro: conc_inv_step filled_step)

lemma filled_reachable: "conc_step\<^sup>*\<^sup>* (start n es) s \<Longrightarrow> length es < 2 ^ 31 - 1 \<Longrightarrow> conc_inv s \<and> filled s"
proof (rule fills.reachable)
  assume "length es < 2 ^ 31 - 1"
  then show "conc_inv (start n es) \<and> filled (start n es)"
    using conc_inv_start [of es n] by (auto simp: filled_def start_def NewChunk_def zeroChunk_def count_def has_slot_def)
qed

text \<open>
  No goroutine works on the chunk any more: those that own a slot have returned, and either all slots are
  taken or the lock keeps everyone else out.
\<close>

definition settled_chunk :: "conc \<Rightarrow> bool" where
  "settled_chunk s =
     (case s of (c, gs) \<Rightarrow>
        list_all (\<lambda>g. has_slot (snd g) \<longrightarrow> is_finished (snd g)) gs \<and>
        (writes c = cap c \<and> cap c \<le> book c \<or>
         locked c \<and> 0 < book c \<and> writes c = book c \<and> list_all (\<lambda>g. snd g \<noteq> Unlocked) gs))"

lemma finished_slot: "is_finished p \<Longrightarrow> has_slot p" "has_slot p \<Longrightarrow> has_booked p"
  by (cases p; simp add: has_slot_def has_booked_def)+

lemma ready_settled:
  assumes "conc_inv (c, gs)" "filled (c, gs)" "Ready c" "writes c = cap c \<or> list_all (\<lambda>g. snd g \<noteq> Unlocked) gs"
  shows "settled_chunk (c, gs)"
proof -
  have w: "writes c = int (count is_finished gs)" "book c = int (count has_booked gs)" using assms(1) by (auto simp: conc_inv_alt)
  have s: "int (count has_slot gs) = min (book c) (cap c)" using assms(2) by (simp add: filled_def)
  have le: "count is_finished gs \<le> count has_slot gs" "count has_slot gs \<le> count has_booked gs"
    using finished_slot by (auto intro: count_mono)
  show ?thesis
  proof (cases "writes c = cap c")
    case True
    then have "count has_slot gs \<le> count is_finished gs" "cap c \<le> book c" using w s le by linarith+
    with True count_all [OF finished_slot(1)] show ?thesis by (simp add: settled_chunk_def)
  next
    case False
    then have r: "locked c" "0 < book c" "writes c = book c" using assms(3) by (auto simp: Ready_def)
    then have "count has_slot gs \<le> count is_finished gs" using w le by linarith
    with r False assms(4) count_all [OF finished_slot(1)] show ?thesis by (simp add: settled_chunk_def)
  qed
qed

definition same_content :: "Chunk \<Rightarrow> Chunk \<Rightarrow> bool" where
  "same_content c c' = (Ready c' \<and> List c' = List c \<and> epochStart c' = epochStart c \<and> epochEnd c' = epochEnd c \<and> csize c' = csize c)"

lemma settled_step:
  assumes "conc_step s s'" "conc_inv s" "settled_chunk s"
  shows "settled_chunk s' \<and> same_content (fst s) (fst s')"
  using assms
proof (induction rule: conc_step.induct)
  case (put i gs e p c c' p')
  have i: "i < length gs" "gs ! i = (e, p)" using put.hyps by auto
  have fin: "has_slot p \<longrightarrow> is_finished p" and fins: "list_all (\<lambda>g. has_slot (snd g) \<longrightarrow> is_finished (snd g)) gs"
    using put.prems(2) i by (auto simp: settled_chunk_def list_all_length dest: spec [of _ i])
  have R: "Ready c" using put.prems(2) by (auto simp: settled_chunk_def Ready_def)
  show ?case
  proof (cases "p = Unlocked")
    case True
    note b = booked_room [OF put.prems(1)]
    note u = put_step_Unlocked [OF put.hyps(3) [unfolded True] b(1,2)]
    have "\<not> list_all (\<lambda>g. snd g \<noteq> Unlocked) gs" using i True by (auto simp: list_all_length intro!: exI [of _ i])
    then have w: "writes c = cap c" "cap c \<le> book c" using put.prems(2) by (auto simp: settled_chunk_def)
    then have "p' = LeftFull" "c' = c\<lparr>book := book c + 1\<rparr>" using u by simp_all
    with fins w show ?thesis
      by (auto simp: settled_chunk_def same_content_def Ready_def List_def has_slot_def intro!: list_all_update)
  next
    case False
    have p: "c' = c" "p' = p \<or> p = Called" "locked c \<longrightarrow> p' \<noteq> Unlocked" "\<not> has_slot p' \<or> is_finished p'"
      using put.hyps(3) fin False by (cases p; auto simp: has_slot_def split: if_splits)+
    with put.prems(2) fins R show ?thesis
      by (auto simp: settled_chunk_def same_content_def intro!: list_all_update)
  qed
next
  case (lock c gs)
  then show ?case by (auto simp: settled_chunk_def same_content_def Lock_def Ready_def List_def)
qed

lemma settled_run: "conc_step\<^sup>*\<^sup>* s s' \<Longrightarrow> conc_inv s \<Longrightarrow> settled_chunk s \<Longrightarrow>
   conc_inv s' \<and> settled_chunk s' \<and> (Ready (fst s) \<longrightarrow> same_content (fst s) (fst s'))"
proof (induction rule: rtranclp_induct)
  case base
  then show ?case by (simp add: same_content_def)
next
  case (step s' s'')
  then have "conc_inv s'" "settled_chunk s'" by blast+
  with settled_step [OF step.hyps(2)] conc_inv_step [OF step.hyps(2)] step show ?case by (auto simp: same_content_def)
qed

text \<open>
  C32 (safety). A chunk that \<^verbatim>\<open>Ready\<close> reports stays as it is, and stays ready, whatever \<^verbatim>\<open>Put\<close>s run on and whenever it is
  locked: what the flusher reads from \<^verbatim>\<open>List\<close>, its times and its size are all the chunk will ever hold. The one
  condition is that a chunk which is not full has no goroutine between the check of the lock and its booking.
\<close>

theorem ready_chunk_final:
  assumes "conc_step\<^sup>*\<^sup>* (start n es) (c, gs)" "length es < 2 ^ 31 - 1"
    and "Ready c" "writes c = cap c \<or> list_all (\<lambda>g. snd g \<noteq> Unlocked) gs"
    and "conc_step\<^sup>*\<^sup>* (c, gs) (c', gs')"
  shows "Ready c' \<and> List c' = List c \<and> epochStart c' = epochStart c \<and> epochEnd c' = epochEnd c \<and> csize c' = csize c"
proof -
  have I: "conc_inv (c, gs)" "filled (c, gs)" using filled_reachable [OF assms(1,2)] by simp_all
  from settled_run [OF assms(5) I(1) ready_settled [OF I assms(3,4)]] assms(3) show ?thesis by (simp add: same_content_def)
qed

text \<open>One slot for two: the second one finds it taken after the first one has returned.\<close>

theorem ready_chunk_final_witness:
  "let s = schedule (replicate 9 (Some 0) @ [Some 1]) (start 1 [entry_at 5 ''a'', entry_at 6 ''b'']);
       s' = schedule [Some 1, None, Some 1] s
   in Ready (fst s) \<and> List (fst s') = List (fst s) \<and> csize (fst s') = csize (fst s) \<and> book (fst s') = 2"
proof -
  let ?init = "start 1 [entry_at 5 ''a'', entry_at 6 ''b'']"
  let ?s = "schedule (replicate 9 (Some 0) @ [Some 1]) ?init"
  let ?t = "schedule [Some 1, None, Some 1] ?s"
  have f: "Ready (fst ?s)" "writes (fst ?s) = cap (fst ?s)" "book (fst ?t) = 2" by code_simp+
  have st: "conc_step\<^sup>*\<^sup>* ?init (fst ?s, snd ?s)" "conc_step\<^sup>*\<^sup>* (fst ?s, snd ?s) (fst ?t, snd ?t)"
    unfolding prod.collapse by (rule schedule_steps)+
  show ?thesis using ready_chunk_final [OF st(1) _ f(1) disjI1 [OF f(2)] st(2)] f by (simp add: Let_def)
qed

definition race_flushed :: conc where
  "race_flushed =
     schedule (Some 0 # replicate 9 (Some 1) @ [None]) (start 5 [entry_at 5 ''lost'', entry_at 6 ''kept''])"

text \<open>
  Without that condition an entry is lost: a goroutine that has seen the chunk
  unlocked pauses, the flusher locks the chunk and finds it \<^verbatim>\<open>Ready\<close>, and the goroutine then books
  and fills a slot of the chunk that was already flushed. Its \<^verbatim>\<open>Put\<close> returns as for any other entry.
\<close>

theorem lock_race_loses_entry:
  "Ready (fst race_flushed) \<and> List (fst race_flushed) = [Some (entry_at 6 ''kept'')] \<and>
   (let s = schedule (replicate 8 (Some 0)) race_flushed
    in snd s ! 0 = (entry_at 5 ''lost'', Finished 1) \<and>
       List (fst s) = [Some (entry_at 6 ''kept''), Some (entry_at 5 ''lost'')])"
  by code_simp

text \<open>
  A goroutine that overtakes another leaves a hole below \<^verbatim>\<open>write\<close>: \<^verbatim>\<open>TTL\<close>, which the
  routine calls on every tick, then dereferences \<^verbatim>\<open>nil\<close> and panics.
\<close>

theorem overtaking_panics_TTL:
  "List (fst overtaken) = [None] \<and> TTL now (fst overtaken) = Inl NilDereference"
proof -
  have "writes (fst overtaken) = 1" "book (fst overtaken) = 2" "entries (fst overtaken) 0 = None"
    by code_simp+
  then show ?thesis by (simp add: TTL_def List_def Empty_def)
qed

text \<open>
  \<^verbatim>\<open>epochEnd\<close> is set by a single compare-and-swap that is not repeated: two
  entries that are written at the same time can leave \<^verbatim>\<open>Last\<close> below the latest of them.
\<close>

theorem last_epoch_missed:
  "let s = schedule ([Some 0, Some 0, Some 0, Some 0] @ replicate 9 (Some 1) @ replicate 5 (Some 0))
             (start 5 [entry_at 9 ''late'', entry_at 6 ''early''])
   in map snd (snd s) = [Finished 0, Finished 1] \<and> epochEnd (fst s) = 6"
  by code_simp

text \<open>The steps a goroutine still has in front of it.\<close>

fun rank :: "pc \<Rightarrow> nat" where
  "rank Called = 18"
| "rank Unlocked = 17"
| "rank (Booked _) = 16"
| "rank (Stored _) = 15"
| "rank (LastRead _ _) = 14"
| "rank (LastDone _) = 13"
| "rank (FirstRead _ _) = 12"
| "rank (Retrying _ n) = 4 + 2 * (3 - n)"
| "rank (RetryRead _ n _) = 3 + 2 * (3 - n)"
| "rank (FirstDone _) = 2"
| "rank (Sized _) = 1"
| "rank _ = 0"

definition retrying_ok :: "pc \<Rightarrow> bool" where
  "retrying_ok p = (case p of RetryRead _ n _ \<Rightarrow> n < 3 | _ \<Rightarrow> True)"

text \<open>
  \<^verbatim>\<open>Put\<close> is wait-free on one chunk: whatever the others do in between, each of its own steps brings a
  goroutine nearer to leaving the chunk, which is at most 18 steps away. The way through the next chunks is in
  \<^verbatim>\<open>IngestConc\<close>.
\<close>

lemma put_wait_free:
  assumes "put_step e p c = (c', p')" "retrying_ok p"
  shows "retrying_ok p' \<and> rank p \<le> 18 \<and> (rank p' < rank p \<or> (rank p = 0 \<and> p' = p \<and> c' = c))"
  using assms by (cases p) (auto simp: retrying_ok_def split: if_splits)

lemma put_wait_free_example:
  "retrying_ok (Stored 0) \<and> rank (Stored 0) < rank (Booked 0)"
  using put_wait_free [of "entry_at 5 ''a''" "Booked 0" "NewChunk 1" _ "Stored 0"]
  by (simp add: retrying_ok_def)

end
