(* ===== verification/Ingester.thy ===== *)
theory Ingester imports Chunk "HOL-Library.Sublist" begin

text \<open>
  \<^verbatim>\<open>ingester.go\<close> and the contract of \<^verbatim>\<open>storage.go\<close>: the log buffer between the handler and a
  storage. The chunks are one list, \<open>flushChunk\<close> and \<open>writeChunk\<close> are indices into it; chunks
  before both are garbage in Go, here they keep the history. The routine and the callers of
  \<^verbatim>\<open>Ingest\<close> take turns here, one whole call each; their interleaving inside \<^verbatim>\<open>Put\<close> is the
  subject of \<^verbatim>\<open>ChunkConc\<close>.
\<close>

subsection \<open>Configuration\<close>

record IngesterConfig =
  Chunks :: int
  ChunkSize :: int
  MaxChunkSizeBytes :: int
  MaxDirtyChunks :: int
  MaxFlushRetry :: int
  FlushAfterSec :: int
  IntervalCheckMs :: int

definition with_defaults :: "IngesterConfig \<Rightarrow> IngesterConfig" where
  "with_defaults c =
     (let c = (if Chunks c \<le> 0 then c\<lparr>Chunks := 3\<rparr> else c);
          c = (if MaxDirtyChunks c \<le> Chunks c then c\<lparr>MaxDirtyChunks := 50\<rparr> else c);
          c = (if FlushAfterSec c \<le> 0 then c\<lparr>FlushAfterSec := 3\<rparr> else c);
          c = (if MaxFlushRetry c \<le> 0 then c\<lparr>MaxFlushRetry := 3\<rparr> else c);
          c = (if ChunkSize c \<le> 0 \<or> ChunkSize c > 900 then c\<lparr>ChunkSize := 900\<rparr> else c);
          c = (if IntervalCheckMs c \<le> 0 then c\<lparr>IntervalCheckMs := 100\<rparr> else c)
      in c)"

text \<open>The storage as the ingester sees it: each call returns an error, or none, and its new state.\<close>

record 's Storage =
  Flush :: "Chunk \<Rightarrow> 's \<Rightarrow> string option \<times> 's"
  CloseStorage :: "'s \<Rightarrow> string option \<times> 's"

definition DummyStorage :: "'s Storage" where
  "DummyStorage = \<lparr>Flush = (\<lambda>_ s. (None, s)), CloseStorage = (\<lambda>s. (None, s))\<rparr>"

record ingester =
  chunks :: "Chunk list"
  flushChunk :: nat
  writeChunk :: nat
  flushChunkId :: int
  writeChunkId :: int
  config :: IngesterConfig
  quit :: bool

definition NewIngester :: "IngesterConfig option \<Rightarrow> ingester" where
  "NewIngester cfg =
     (let c = with_defaults (case cfg of Some c \<Rightarrow> c
                | None \<Rightarrow> \<lparr>Chunks = 0, ChunkSize = 0, MaxChunkSizeBytes = 0, MaxDirtyChunks = 0,
                           MaxFlushRetry = 0, FlushAfterSec = 0, IntervalCheckMs = 0\<rparr>);
          root = NewChunk (ChunkSize c)
      in \<lparr>chunks = Init (nat (Chunks c)) [root] 0, flushChunk = 0, writeChunk = 0,
          flushChunkId = 0, writeChunkId = chunk_id root, config = c, quit = False\<rparr>)"

subsection \<open>Writing\<close>

text \<open>The compare-and-swap sees the id it read at the start, since the call is not interrupted.\<close>

definition Ingest :: "Time \<Rightarrow> int \<Rightarrow> string \<Rightarrow> ingester \<Rightarrow> panic + ingester" where
  "Ingest t lvl bytes i =
     (let lastWriteId = writeChunkId i
      in case Put \<lparr>etime = t, level = lvl, content = bytes\<rparr> (chunks i) (writeChunk i) of
           Inl p \<Rightarrow> Inl p
         | Inr (cs, k, isFull) \<Rightarrow>
             let i = i\<lparr>chunks := cs\<rparr>
             in Inr (if isFull \<and> writeChunkId i = lastWriteId
                     then i\<lparr>writeChunkId := chunk_id (cs ! k), writeChunk := k\<rparr> else i))"

subsection \<open>The routine\<close>

text \<open>
  \<^verbatim>\<open>int(d.Seconds())\<close>: whole seconds and the fraction are added as floats and truncated, so a
  duration of many seconds less a nanosecond may round up.
\<close>

definition Seconds :: "int \<Rightarrow> int" where
  "Seconds d =
     (let sec = \<bar>d\<bar> div 1000000000;
          v = (case f64_round (\<bar>d\<bar> mod 1000000000) 1000000000 of
                 None \<Rightarrow> 0
               | Some (m, e) \<Rightarrow>
                   (case f64_round (sec * pow2 (- e) + m) (pow2 (- e)) of
                      None \<Rightarrow> 0
                    | Some (m', e') \<Rightarrow> if 0 \<le> e' then m' * pow2 e' else m' div pow2 (- e')))
      in if d < 0 then - v else v)"

definition at_chunk :: "nat \<Rightarrow> (Chunk \<Rightarrow> Chunk) \<Rightarrow> ingester \<Rightarrow> ingester" where
  "at_chunk k g i = i\<lparr>chunks := (chunks i)[k := g (chunks i ! k)]\<rparr>"

definition init_at :: "int \<Rightarrow> nat \<Rightarrow> ingester \<Rightarrow> ingester" where
  "init_at depth k i = i\<lparr>chunks := Init (nat depth) (chunks i) k\<rparr>"

definition add_retry :: "Chunk \<Rightarrow> Chunk" where
  "add_retry c = c\<lparr>retries := i32 (retries c + 1)\<rparr>"

text \<open>\<^verbatim>\<open>i.flushChunk = i.flushChunk.Next()\<close> and the store of its id.\<close>

definition next_flush :: "ingester \<Rightarrow> ingester" where
  "next_flush i =
     (let i = init_at 1 (flushChunk i) i; f = Suc (flushChunk i)
      in i\<lparr>flushChunk := f, flushChunkId := chunk_id (chunks i ! f)\<rparr>)"

text \<open>The chunk is locked when it has been idle for too long, or has grown too large.\<close>

definition lock_idle :: "Time \<Rightarrow> ingester \<Rightarrow> panic + ingester" where
  "lock_idle now i =
     (let f = flushChunk i; chunk = chunks i ! f
      in case TTL now chunk of
           Inl p \<Rightarrow> Inl p
         | Inr ttl \<Rightarrow>
             if Seconds ttl > FlushAfterSec (config i)
                \<or> (MaxChunkSizeBytes (config i) > 0 \<and> csize chunk > MaxChunkSizeBytes (config i))
             then Inr (init_at (Chunks (config i)) f (at_chunk f Lock i))
             else Inr i)"

abbreviation nonempty :: "Chunk list \<Rightarrow> Chunk list" where
  "nonempty cs \<equiv> filter (\<lambda>c. \<not> Empty c) cs"

lemma Empty_update [simp]: "Empty (c\<lparr>cap := n\<rparr>) = Empty c" "Empty (zeroChunk\<lparr>cap := n, chunk_id := j\<rparr>)"
  "Empty (add_retry c) = Empty c" "Empty (Lock c) = Empty c"
  by (simp_all add: Empty_def zeroChunk_def add_retry_def Lock_def)

lemma nonempty_update:
  "Empty (g (cs ! k)) = Empty (cs ! k) \<Longrightarrow>
     length (nonempty (drop n (cs[k := g (cs ! k)]))) = length (nonempty (drop n cs))"
proof (induction cs arbitrary: n k)
  case (Cons c cs)
  show ?case
  proof (cases k)
    case 0
    then show ?thesis using Cons.prems by (cases n) simp_all
  next
    case (Suc k')
    then show ?thesis using Cons by (cases n) (use Cons.IH [of k' 0] in auto)
  qed
qed simp

lemma nonempty_link: "k < length cs \<Longrightarrow>
    length (nonempty (drop n (link_next cs k))) = length (nonempty (drop n cs))"
  using nonempty_update [of "\<lambda>c. c\<lparr>cap := 900\<rparr>" cs k n]
  by (cases "n \<le> length cs") (auto simp: link_next_def Let_def)

lemma nonempty_Init: "k < length cs \<Longrightarrow>
    length (nonempty (drop n (Init d cs k))) = length (nonempty (drop n cs))"
proof (induction d arbitrary: cs k)
  case (Suc d)
  have "Suc k < length (link_next cs k)"
    using Suc.prems by (simp add: length_link_next)
  then show ?case
    using Suc by (simp add: nonempty_link)
qed simp

lemma nonempty_step: "f < length cs \<Longrightarrow> \<not> Empty (cs ! f) \<Longrightarrow>
    length (nonempty (drop (Suc f) cs)) < length (nonempty (drop f cs))"
  by (simp add: Cons_nth_drop_Suc [symmetric])

text \<open>The flush loop of \<^verbatim>\<open>doRoutineCheck\<close>.\<close>

function flush_loop :: "'s Storage \<Rightarrow> Time \<Rightarrow> ingester \<Rightarrow> 's \<Rightarrow> panic + (ingester \<times> 's)" where
  "flush_loop S now i s =
     (let f = flushChunk i; chunk = chunks i ! f; depth = u8 (Chunks (config i) + 1)
      in if f \<ge> length (chunks i) then Inl NilDereference
         else if Empty chunk then Inr (i, s)
         else if Ready chunk then
           (case Flush S chunk s of
              (None, s) \<Rightarrow> flush_loop S now (next_flush (init_at depth f i)) s
            | (Some err, s) \<Rightarrow>
                let i = at_chunk f add_retry i
                in if retries (chunks i ! f) > MaxFlushRetry (config i)
                   then flush_loop S now (next_flush (init_at depth f i)) s
                   else Inr (i, s))
         else map_sum (\<lambda>p. p) (\<lambda>i. (i, s)) (lock_idle now i))"
  by pat_completeness auto
termination
proof -
  have adv: "length (nonempty (drop (flushChunk (next_flush (init_at d (flushChunk i) i)))
        (chunks (next_flush (init_at d (flushChunk i) i)))))
      < length (nonempty (drop (flushChunk i) (chunks i)))"
    if "flushChunk i < length (chunks i)" "\<not> Empty (chunks i ! flushChunk i)" for d i
  proof -
    let ?cs = "Init (nat d) (chunks i) (flushChunk i)" and ?f = "flushChunk i"
    have f: "?f < length ?cs" "?f < length (link_next ?cs ?f)"
      using that(1) by (simp_all add: length_Init length_link_next)
    have "length (nonempty (drop (Suc ?f) (link_next ?cs ?f))) = length (nonempty (drop (Suc ?f) (chunks i)))"
      using f that by (simp add: nonempty_Init nonempty_link)
    then show ?thesis
      using nonempty_step [OF that] by (simp add: next_flush_def init_at_def Let_def)
  qed
  have adv': "length (nonempty (drop (flushChunk (next_flush (init_at d (flushChunk i) (at_chunk (flushChunk i) add_retry i))))
        (chunks (next_flush (init_at d (flushChunk i) (at_chunk (flushChunk i) add_retry i))))))
      < length (nonempty (drop (flushChunk i) (chunks i)))"
    if "flushChunk i < length (chunks i)" "\<not> Empty (chunks i ! flushChunk i)" for d i
    using adv [of "at_chunk (flushChunk i) add_retry i" d] that
    by (simp add: at_chunk_def nonempty_update)
  show ?thesis
    by (relation "measure (\<lambda>(S, now, i, s). length (nonempty (drop (flushChunk i) (chunks i))))")
      (use adv adv' in \<open>auto simp: at_chunk_def Let_def\<close>)
qed

declare flush_loop.simps [simp del]

text \<open>Chunks beyond the limit are dropped. With a negative limit the loop would not end.\<close>

definition dirty :: "ingester \<Rightarrow> int" where
  "dirty i = int (Depth (drop (flushChunk i) (chunks i)))"

partial_function (option) discard_loop :: "ingester \<Rightarrow> ingester option" where
  "discard_loop i =
     (if dirty i > MaxDirtyChunks (config i) then discard_loop (next_flush i) else Some i)"

definition doRoutineCheck ::
    "'s Storage \<Rightarrow> Time \<Rightarrow> ingester \<Rightarrow> 's \<Rightarrow> (panic + (ingester \<times> 's)) option" where
  "doRoutineCheck S now i s =
     (case flush_loop S now i s of
        Inl p \<Rightarrow> Some (Inl p)
      | Inr (i, s) \<Rightarrow>
          if \<not> Empty (chunks i ! flushChunk i) \<and> dirty i > MaxDirtyChunks (config i)
          then (case discard_loop i of
                  None \<Rightarrow> None
                | Some i \<Rightarrow> Some (Inr (init_at (Chunks (config i)) (flushChunk i) i, s)))
          else Some (Inr (i, s)))"

subsection \<open>Closing\<close>

text \<open>
  The loop of the \<^verbatim>\<open>quit\<close> branch, on its local \<^verbatim>\<open>chunk\<close> (the index \<open>k\<close>) and \<^verbatim>\<open>t\<close>. The sleeps
  between the attempts are left out.
\<close>

definition lock_next :: "nat \<Rightarrow> ingester \<Rightarrow> ingester" where
  "lock_next k i = at_chunk (Suc k) Lock (init_at 1 k i)"

partial_function (option) drain :: "'s Storage \<Rightarrow> nat \<Rightarrow> nat \<Rightarrow> ingester \<Rightarrow> 's
    \<Rightarrow> (nat \<times> ingester \<times> 's) option" where
  "drain S t k i s =
     (let chunk = chunks i ! k
      in if Empty chunk then Some (k, i, s)
         else if Ready chunk then
           (case Flush S chunk s of
              (None, s) \<Rightarrow> drain S t (Suc k) (lock_next k i) s
            | (Some err, s) \<Rightarrow>
                let i = at_chunk k add_retry i
                in if retries (chunks i ! k) > MaxFlushRetry (config i)
                   then drain S t (Suc k) (lock_next k i) s
                   else drain S t k i s)
         else let t = t + 1
              in if t > 3 then drain S t (Suc k) (lock_next k i) s
                 else drain S 0 k (at_chunk k Lock i) s)"

definition quit_routine :: "'s Storage \<Rightarrow> ingester \<Rightarrow> 's \<Rightarrow> (ingester \<times> 's) option" where
  "quit_routine S i s =
     (let k = flushChunk i
      in case drain S 0 k (at_chunk k Lock i) s of
           None \<Rightarrow> None
         | Some (k, i, s) \<Rightarrow>
             let i = i\<lparr>flushChunk := k, flushChunkId := chunk_id (chunks i ! k)\<rparr>
             in Some (i, snd (CloseStorage S s)))"

definition ErrIngesterClosed :: string where
  "ErrIngesterClosed = ''[sqlog] the ingester was already closed''"

text \<open>The second \<^verbatim>\<open>close\<close> of the channel panics, which \<^verbatim>\<open>recover\<close> turns into the error.\<close>

definition Close :: "'s Storage \<Rightarrow> ingester \<Rightarrow> 's \<Rightarrow> (string option \<times> ingester \<times> 's) option" where
  "Close S i s =
     (if quit i then Some (Some ErrIngesterClosed, i, s)
      else case quit_routine S (i\<lparr>quit := True\<rparr>) s of
             None \<Rightarrow> None
           | Some (i, s) \<Rightarrow> Some (None, i, s))"

subsection \<open>Runs\<close>

text \<open>What can happen to an ingester: a record, a tick of the routine, a call of \<^verbatim>\<open>Close\<close>.\<close>

datatype event = Log Time int string | Tick Time | Stop

fun step :: "'s Storage \<Rightarrow> event \<Rightarrow> ingester \<times> 's \<Rightarrow> (panic + (ingester \<times> 's)) option" where
  "step S (Log t l b) (i, s) = Some (map_sum (\<lambda>p. p) (\<lambda>i. (i, s)) (Ingest t l b i))"
| "step S (Tick now) (i, s) = (if quit i then Some (Inr (i, s)) else doRoutineCheck S now i s)"
| "step S Stop (i, s) = (case Close S i s of None \<Rightarrow> None | Some (_, i, s) \<Rightarrow> Some (Inr (i, s)))"

fun run :: "'s Storage \<Rightarrow> event list \<Rightarrow> ingester \<times> 's \<Rightarrow> (panic + (ingester \<times> 's)) option" where
  "run S [] x = Some (Inr x)"
| "run S (ev # evs) x =
     (case step S ev x of
        None \<Rightarrow> None | Some (Inl p) \<Rightarrow> Some (Inl p) | Some (Inr x) \<Rightarrow> run S evs x)"

text \<open>The records a sequence of events logs.\<close>

fun logged :: "event list \<Rightarrow> Entry list" where
  "logged [] = []"
| "logged (Log t l b # evs) = \<lparr>etime = t, level = l, content = b\<rparr> # logged evs"
| "logged (_ # evs) = logged evs"

subsection \<open>The invariant\<close>

definition config_ok :: "IngesterConfig \<Rightarrow> bool" where
  "config_ok c =
     (1 \<le> Chunks c \<and> Chunks c \<le> 255 \<and> 1 \<le> ChunkSize c \<and> ChunkSize c \<le> 900 \<and>
      1 \<le> MaxDirtyChunks c \<and> 1 \<le> MaxFlushRetry c \<and> MaxFlushRetry c < 2 ^ 31 - 1)"

text \<open>
  What holds of every chunk of an open ingester with limit \<open>m\<close> on the retries: a locked chunk
  is not empty, and a full one was booked past its end at most once.
\<close>

definition chunk_ok :: "int \<Rightarrow> Chunk \<Rightarrow> bool" where
  "chunk_ok m c =
     (wf_chunk c \<and> (locked c \<longrightarrow> 0 < book c) \<and> book c \<le> cap c + 1 \<and>
      0 \<le> retries c \<and> retries c \<le> m + 1)"

definition ingester_inv :: "ingester \<Rightarrow> bool" where
  "ingester_inv i =
     (config_ok (config i) \<and> frontier (chunks i) (writeChunk i) \<and>
      list_all (chunk_ok (MaxFlushRetry (config i))) (chunks i) \<and>
      list_all (\<lambda>c. retries c \<le> MaxFlushRetry (config i)) (drop (flushChunk i) (chunks i)) \<and>
      book (chunks i ! writeChunk i) \<le> cap (chunks i ! writeChunk i) \<and>
      flushChunk i < length (chunks i) \<and> flushChunk i \<le> Suc (writeChunk i) \<and>
      (flushChunk i = Suc (writeChunk i) \<longrightarrow> rejects (chunks i ! writeChunk i)) \<and>
      \<not> quit i)"

definition pending :: "ingester \<Rightarrow> Entry list" where
  "pending i = written (drop (flushChunk i) (chunks i))"

subsection \<open>Writing keeps the invariant\<close>

lemma frontier_after: "frontier cs w \<Longrightarrow> w < k \<Longrightarrow> k < length cs \<Longrightarrow> fresh (cs ! k)"
  by (auto simp: frontier_def list_all_length dest: spec [of _ "k - Suc w"])

lemma frontier_before: "frontier cs w \<Longrightarrow> k < w \<Longrightarrow> rejects (cs ! k) \<and> wf_chunk (cs ! k)"
  by (auto simp: frontier_def list_all_length)

lemma map_contents_update:
  "contents x = contents (cs ! k) \<Longrightarrow> map contents (cs[k := x]) = map contents cs"
  by (cases "k < length cs") (auto simp: map_update list_update_beyond list_update_same_conv)

lemma written_update:
  assumes "contents x = contents (cs ! k)"
  shows "written (cs[k := x]) = written cs" "written (take f (cs[k := x])) = written (take f cs)"
    "written (drop f (cs[k := x])) = written (drop f cs)"
  unfolding written_def using map_contents_update [OF assms] by (metis, metis take_map, metis drop_map)

lemma inv_unwrapped:
  assumes "ingester_inv i"
  shows "unwrapped (chunks i)"
proof -
  have "book c < 2 ^ 31 - 2" if "chunk_ok m c" for m c
    using that by (simp add: chunk_ok_def wf_chunk_def)
  then show ?thesis using assms by (auto simp: ingester_inv_def unwrapped_def list_all_iff)
qed

lemma chunk_ok_new: "new_chunk c \<Longrightarrow> 0 \<le> m \<Longrightarrow> chunk_ok m c"
  by (auto simp: chunk_ok_def new_chunk_def fresh_def wf_chunk_def)

lemma chunk_ok_accept:
  "chunk_ok m c \<Longrightarrow> book c < cap c \<Longrightarrow> \<not> locked c \<Longrightarrow> chunk_ok m (accept e c)"
  by (simp add: chunk_ok_def wf_accept book_accept accept_fields)

lemma chunk_ok_pass:
  assumes "chunk_ok m c" "rejects c" "book c \<le> cap c"
  shows "chunk_ok m (pass c)"
proof -
  have wf: "wf_chunk c" "book c < 2 ^ 31 - 1"
    using assms(1) by (auto simp: chunk_ok_def wf_chunk_def)
  have "locked (pass c) \<longrightarrow> 0 < book (pass c)" "book (pass c) \<le> cap (pass c) + 1"
    using assms wf by (auto simp: pass_def booked_def i32_id chunk_ok_def wf_chunk_def)
  with wf_pass [OF wf(1) assms(2) wf(2)] assms(1) show ?thesis
    by (simp add: chunk_ok_def pass_fields)
qed

lemma inv_grow:
  assumes "ingester_inv i" "list_all new_chunk new"
  shows "ingester_inv (i\<lparr>chunks := chunks i @ new\<rparr>)"
  using assms frontier_grow [OF _ assms(2), of "chunks i" "writeChunk i"]
  by (auto simp: ingester_inv_def list_all_iff nth_append frontier_def chunk_ok_new config_ok_def
      new_chunk_def)

text \<open>One write: what happens to the chain, and to the chunks that are already flushed.\<close>

lemma Put_keeps:
  assumes i: "ingester_inv i"
  shows "\<exists>cs' k. Put e (chunks i) (writeChunk i) = Inr (cs', k, k \<noteq> writeChunk i)
    \<and> ingester_inv (i\<lparr>chunks := cs', writeChunk := k\<rparr>)
    \<and> written cs' = written (chunks i) @ [e]
    \<and> written (take (flushChunk i) cs') = written (take (flushChunk i) (chunks i))"
proof -
  let ?cs = "chunks i" and ?w = "writeChunk i" and ?f = "flushChunk i" and ?m = "MaxFlushRetry (config i)"
  have f: "frontier ?cs ?w" and fw: "?f \<le> Suc ?w" "?f = Suc ?w \<longrightarrow> rejects (?cs ! ?w)"
    and ok: "list_all (chunk_ok ?m) ?cs" and bw: "book (?cs ! ?w) \<le> cap (?cs ! ?w)"
    and re: "list_all (\<lambda>c. retries c \<le> ?m) (drop ?f ?cs)"
    using i by (auto simp: ingester_inv_def)
  have w: "?w < length ?cs" using f by (simp add: frontier_def)
  have okw: "chunk_ok ?m (?cs ! ?w)" using ok w by (simp add: list_all_length)
  have un: "unwrapped ?cs" using i by (rule inv_unwrapped)
  from Put_frontier [OF f un order_refl, of e] obtain cs' k where
    P: "Put e ?cs ?w = Inr (cs', k, k \<noteq> ?w)" "frontier cs' k" "written cs' = written ?cs @ [e]"
    by blast
  from f un show ?thesis
  proof (cases rule: Put_head [of _ _ e])
    case accepted
    then have cs': "cs' = ?cs[?w := accept e (?cs ! ?w)]" "k = ?w" using P(1) by auto
    have c: "book (?cs ! ?w) < cap (?cs ! ?w)" "\<not> locked (?cs ! ?w)"
      using accepted(1) okw rejects_iff [of "?cs ! ?w"] by (auto simp: chunk_ok_def wf_chunk_def)
    have "ingester_inv (i\<lparr>chunks := cs', writeChunk := k\<rparr>)"
      using i P(2) c accepted(1) okw w
      by (auto simp: ingester_inv_def cs' accept_fields book_accept chunk_ok_def
          wf_accept intro!: list_all_update list_all_drop_update)
    moreover have "take ?f cs' = take ?f ?cs" using fw accepted(1) by (auto simp: cs' take_update_cancel)
    ultimately show ?thesis using P cs' by auto
  next
    case (moved new)
    let ?d = "(?cs @ new) ! Suc ?w"
    have cs': "cs' = (?cs @ new)[?w := pass (?cs ! ?w), Suc ?w := accept e ?d]" "k = Suc ?w"
      using moved(4) P(1) by auto
    have i': "ingester_inv (i\<lparr>chunks := ?cs @ new\<rparr>)" using inv_grow [OF i moved(2)] .
    have d: "fresh ?d"
      using frontier_after [OF frontier_grow [OF f moved(2)], of "Suc ?w"] moved(3) by simp
    have ok': "list_all (chunk_ok ?m) (?cs @ new)" "list_all (\<lambda>c. retries c \<le> ?m) (drop ?f (?cs @ new))"
      using i' by (auto simp: ingester_inv_def)
    have okd: "chunk_ok ?m ?d" using ok'(1) moved(3) by (simp only: list_all_length)
    have od: "wf_chunk ?d" "book ?d = 0" "book ?d < cap ?d" "\<not> locked ?d"
      using d by (auto simp: fresh_def wf_chunk_def)
    have "list_all (chunk_ok ?m) cs'" unfolding cs'
      by (intro list_all_update)
        (use ok' okd okw od moved(1) bw w in \<open>auto intro: chunk_ok_pass chunk_ok_accept\<close>)
    moreover have "list_all (\<lambda>c. retries c \<le> ?m) (drop ?f cs')" unfolding cs'
      by (intro list_all_drop_update) (use ok'(2) in \<open>auto simp: pass_fields accept_fields nth_append w\<close>)
    moreover have "book (cs' ! k) \<le> cap (cs' ! k)"
      using moved(3) od by (simp add: cs' accept_fields book_accept)
    ultimately have "ingester_inv (i\<lparr>chunks := cs', writeChunk := k\<rparr>)"
      using i P(2) fw moved(3) by (auto simp: ingester_inv_def cs'(2) frontier_def)
    moreover have "take ?f cs' = take ?f (?cs[?w := pass (?cs ! ?w)])"
      using fw(1) w by (simp add: cs' take_update_cancel list_update_append1)
    then have "written (take ?f cs') = written (take ?f ?cs)"
      by (simp add: written_update pass_fields)
    ultimately show ?thesis using P cs' by auto
  qed
qed

lemma written_take_drop: "written (take f cs) @ written (drop f cs) = written cs"
  by (simp flip: written_simps(1))

text \<open>The state after a write, as the rest of the development sees it.\<close>

lemma Ingest_keeps:
  assumes i: "ingester_inv i"
  shows "\<exists>i'. Ingest t l b i = Inr i' \<and> ingester_inv i' \<and> config i' = config i
    \<and> written (chunks i') = written (chunks i) @ [\<lparr>etime = t, level = l, content = b\<rparr>]
    \<and> written (take (flushChunk i') (chunks i')) = written (take (flushChunk i) (chunks i))
    \<and> flushChunk i' = flushChunk i"
proof -
  have id: "ingester_inv (i\<lparr>chunks := cs, writeChunkId := j, writeChunk := k\<rparr>) =
      ingester_inv (i\<lparr>chunks := cs, writeChunk := k\<rparr>)" for cs j k
    by (simp add: ingester_inv_def)
  have id': "i\<lparr>chunks := cs, writeChunk := writeChunk i\<rparr> = i\<lparr>chunks := cs\<rparr>" for cs
    by simp
  show ?thesis
    using Put_keeps [OF i, of "\<lparr>etime = t, level = l, content = b\<rparr>"] id id'
    by (auto simp: Ingest_def Let_def)
qed

subsection \<open>The flush loop keeps the invariant\<close>

text \<open>The chunk to flush is replaced by \<open>x\<close>, and with \<open>advanced\<close> the loop moves on to the next.\<close>

definition updated :: "ingester \<Rightarrow> Chunk \<Rightarrow> ingester \<Rightarrow> bool" where
  "updated i x i' =
     (\<exists>new. list_all new_chunk new \<and> i' = i\<lparr>chunks := (chunks i)[flushChunk i := x] @ new\<rparr>)"

definition advanced :: "ingester \<Rightarrow> Chunk \<Rightarrow> ingester \<Rightarrow> bool" where
  "advanced i x i' =
     (\<exists>new j. list_all new_chunk new \<and> Suc (flushChunk i) < length (chunks i) + length new \<and>
        i' = i\<lparr>chunks := (chunks i)[flushChunk i := x] @ new, flushChunk := Suc (flushChunk i),
               flushChunkId := j\<rparr>)"

text \<open>\<open>x\<close> holds the same entries, and still turns new ones down if it did.\<close>

definition same_log :: "int \<Rightarrow> Chunk \<Rightarrow> Chunk \<Rightarrow> bool" where
  "same_log m c x =
     (chunk_ok m x \<and> contents x = contents c \<and> book x = book c \<and> cap x = cap c \<and>
      (rejects c \<longrightarrow> rejects x))"

lemma frontier_update:
  assumes "frontier cs w" "wf_chunk x" "f \<le> w" "f < w \<Longrightarrow> rejects x"
  shows "frontier (cs[f := x]) w"
proof -
  have "list_all rejects (take w (cs[f := x]))"
    using assms by (cases "f < w") (auto simp: frontier_def take_update_swap take_update_cancel
        intro!: list_all_update)
  then show ?thesis
    using assms by (auto simp: frontier_def intro!: list_all_update)
qed

lemma flush_target:
  assumes i: "ingester_inv i" and ne: "\<not> Empty (chunks i ! flushChunk i)"
  shows "flushChunk i \<le> writeChunk i" "chunk_ok (MaxFlushRetry (config i)) (chunks i ! flushChunk i)"
    "Ready (chunks i ! flushChunk i) = rejects (chunks i ! flushChunk i)"
    "retries (chunks i ! flushChunk i) \<le> MaxFlushRetry (config i)"
    "flushChunk i < writeChunk i \<Longrightarrow> rejects (chunks i ! flushChunk i)"
proof -
  let ?c = "chunks i ! flushChunk i"
  have f: "frontier (chunks i) (writeChunk i)" "flushChunk i < length (chunks i)"
    "flushChunk i \<le> Suc (writeChunk i)"
    using i by (auto simp: ingester_inv_def)
  show le: "flushChunk i \<le> writeChunk i"
  proof (rule ccontr)
    assume "\<not> flushChunk i \<le> writeChunk i"
    then have "fresh ?c" using frontier_after [OF f(1), of "flushChunk i"] f by simp
    with ne show False by (simp add: fresh_def Empty_def)
  qed
  show ok: "chunk_ok (MaxFlushRetry (config i)) ?c"
    using i f(2) by (auto simp: ingester_inv_def list_all_length)
  then have "wf_chunk ?c" "book ?c < 2 ^ 31 - 1" "0 < book ?c"
    using ne by (auto simp: chunk_ok_def wf_chunk_def Empty_def)
  then show "Ready ?c = rejects ?c" by (auto simp: Ready_iff rejects_iff)
  show "retries ?c \<le> MaxFlushRetry (config i)"
    using i f(2) by (auto simp: ingester_inv_def list_all_length dest: spec [of _ 0])
  show "rejects ?c" if "flushChunk i < writeChunk i"
    using frontier_before [OF f(1) that] by simp
qed

lemma updated_inv:
  assumes i: "ingester_inv i" and ne: "\<not> Empty (chunks i ! flushChunk i)"
    and x: "same_log (MaxFlushRetry (config i)) (chunks i ! flushChunk i) x"
      "retries x \<le> MaxFlushRetry (config i)"
    and u: "updated i x i'"
  shows "ingester_inv i'"
proof -
  let ?m = "MaxFlushRetry (config i)" and ?cs = "chunks i" and ?f = "flushChunk i"
  note t = flush_target [OF i ne]
  have "ingester_inv (i\<lparr>chunks := ?cs[?f := x]\<rparr>)"
  proof -
    have "frontier (?cs[?f := x]) (writeChunk i)"
      by (rule frontier_update) (use i x t in \<open>auto simp: ingester_inv_def same_log_def chunk_ok_def\<close>)
    moreover have "book (?cs[?f := x] ! writeChunk i) \<le> cap (?cs[?f := x] ! writeChunk i)"
      using i x t by (cases "?f = writeChunk i") (auto simp: ingester_inv_def same_log_def)
    ultimately show ?thesis
      using i x t by (auto simp: ingester_inv_def same_log_def intro!: list_all_update list_all_drop_update)
  qed
  with u inv_grow [OF this] show ?thesis by (auto simp: updated_def)
qed

lemma advanced_inv:
  assumes i: "ingester_inv i" and ne: "\<not> Empty (chunks i ! flushChunk i)"
    and r: "rejects (chunks i ! flushChunk i)"
    and x: "same_log (MaxFlushRetry (config i)) (chunks i ! flushChunk i) x"
    and a: "advanced i x i'"
  shows "ingester_inv i'"
proof -
  let ?m = "MaxFlushRetry (config i)" and ?cs = "chunks i" and ?f = "flushChunk i"
  note t = flush_target [OF i ne]
  from a obtain new j where new: "list_all new_chunk new" "Suc ?f < length ?cs + length new"
    and i': "i' = i\<lparr>chunks := ?cs[?f := x] @ new, flushChunk := Suc ?f, flushChunkId := j\<rparr>"
    by (auto simp: advanced_def)
  have f: "frontier (?cs[?f := x] @ new) (writeChunk i)"
    by (intro frontier_grow frontier_update)
      (use i x t new r in \<open>auto simp: ingester_inv_def same_log_def chunk_ok_def\<close>)
  have m: "0 \<le> ?m" using i by (simp add: ingester_inv_def config_ok_def)
  have w: "writeChunk i < length ?cs" using i by (simp add: ingester_inv_def frontier_def)
  have "book (chunks i' ! writeChunk i) \<le> cap (chunks i' ! writeChunk i)"
    using i x t w by (cases "?f = writeChunk i") (auto simp: i' ingester_inv_def same_log_def nth_append)
  moreover have "list_all (chunk_ok ?m) (chunks i')"
    using i x new(1) m by (auto simp: i' ingester_inv_def same_log_def list_all_iff chunk_ok_new
        dest!: set_update_subset_insert [THEN subsetD])
  moreover have "list_all (\<lambda>c. retries c \<le> ?m) (drop (Suc ?f) (?cs[?f := x] @ new))"
  proof -
    have "list_all (\<lambda>c. retries c \<le> ?m) (drop (Suc ?f) ?cs)"
      using i set_drop_subset_set_drop [of ?f "Suc ?f" ?cs] by (auto simp: ingester_inv_def list_all_iff)
    then show ?thesis
      using new(1) m by (auto simp: list_all_iff new_chunk_def dest: in_set_dropD)
  qed
  moreover have "Suc ?f = Suc (writeChunk i) \<longrightarrow> rejects (chunks i' ! writeChunk i)"
    using r x w by (auto simp: i' same_log_def nth_append)
  ultimately show ?thesis
    using i t f new(2) by (simp add: ingester_inv_def i')
qed

lemma advance_advanced:
  assumes wf: "list_all wf_chunk ((chunks i)[flushChunk i := x])" and f: "flushChunk i < length (chunks i)"
    and j: "j = i\<lparr>chunks := (chunks i)[flushChunk i := x]\<rparr>"
  shows "advanced i x (next_flush (init_at d (flushChunk i) j))"
proof -
  let ?cs = "(chunks i)[flushChunk i := x]" and ?f = "flushChunk i"
  obtain n1 where n1: "Init (nat d) ?cs ?f = ?cs @ n1" "list_all new_chunk n1"
    using Init_appends [OF wf, of ?f "nat d"] f by auto
  have wf1: "list_all wf_chunk (?cs @ n1)" "?f < length (?cs @ n1)"
    using wf n1(2) f new_wf by (auto simp: list_all_iff)
  obtain n2 where n2: "link_next (?cs @ n1) ?f = (?cs @ n1) @ n2" "list_all new_chunk n2"
    using link_appends [OF wf1] by blast
  have "Suc ?f < length ((?cs @ n1) @ n2)"
    using length_link_next [OF wf1(2)] n2(1) by simp
  then show ?thesis
    using n1 n2 by (auto simp: j advanced_def next_flush_def init_at_def Let_def intro!: exI [of _ "n1 @ n2"])
qed

lemma same_log_refl: "chunk_ok m c \<Longrightarrow> same_log m c c"
  by (simp add: same_log_def)

lemma contents_field_updates [simp]:
  "contents (c\<lparr>retries := r\<rparr>) = contents c" "contents (c\<lparr>locked := b\<rparr>) = contents c"
  "epochs (c\<lparr>retries := r\<rparr>) = epochs c" "epochs (c\<lparr>locked := b\<rparr>) = epochs c"
  by (simp_all add: contents_def List_def epochs_def)

lemma same_log_retry:
  assumes "chunk_ok m c" "retries c \<le> m" "m < 2 ^ 31 - 1"
  shows "same_log m c (add_retry c)" "retries (add_retry c) = retries c + 1"
proof -
  have r: "i32 (retries c + 1) = retries c + 1" using assms by (simp add: i32_id chunk_ok_def)
  then show "retries (add_retry c) = retries c + 1" by (simp add: add_retry_def)
  have "contents (add_retry c) = contents c" by (simp add: add_retry_def)
  then show "same_log m c (add_retry c)"
    using assms r by (simp add: same_log_def chunk_ok_def wf_chunk_def)
      (simp add: add_retry_def rejects_def slot_def)
qed

lemma same_log_Lock:
  assumes "chunk_ok m c" "\<not> Empty c"
  shows "same_log m c (Lock c)"
proof -
  have "contents (Lock c) = contents c" by (simp add: Lock_def)
  then show ?thesis
    using assms by (simp add: same_log_def chunk_ok_def wf_chunk_def)
      (simp add: Lock_def rejects_def slot_def Empty_def)
qed

text \<open>
  The flush loop, as a rule: what holds before it and is kept by each kind of turn holds after
  it. It never panics, and it stops at an empty chunk, at the chunk being written, or after a
  failed flush.
\<close>

definition to_flush :: "ingester \<Rightarrow> Chunk" where
  "to_flush i = chunks i ! flushChunk i"

definition settled :: "(ingester \<Rightarrow> 's \<Rightarrow> bool) \<Rightarrow> 's Storage \<Rightarrow> ingester \<Rightarrow> bool" where
  "settled Q S i = (Empty (to_flush i) \<or> flushChunk i = writeChunk i \<or>
     (\<exists>j s err s'. ingester_inv j \<and> Q j s \<and> Flush S (to_flush j) s = (Some err, s')))"

lemma inv_wf: "ingester_inv i \<Longrightarrow> list_all wf_chunk (chunks i)"
  by (auto simp: ingester_inv_def frontier_def)

lemma advance_any:
  assumes "ingester_inv i" "same_log m (to_flush i) x"
  shows "advanced i x (next_flush (init_at d (flushChunk i) (i\<lparr>chunks := (chunks i)[flushChunk i := x]\<rparr>)))"
  by (rule advance_advanced [OF _ _ refl])
    (use assms inv_wf in \<open>auto simp: ingester_inv_def same_log_def chunk_ok_def intro!: list_all_update\<close>)

lemma lock_updated:
  assumes i: "ingester_inv i" and ne: "\<not> Empty (to_flush i)"
  shows "updated i (Lock (to_flush i)) (init_at d (flushChunk i) (at_chunk (flushChunk i) Lock i))"
proof -
  have "same_log (MaxFlushRetry (config i)) (to_flush i) (Lock (to_flush i))"
    using same_log_Lock flush_target(2) [OF i] ne by (simp add: to_flush_def)
  then have "list_all wf_chunk ((chunks i)[flushChunk i := Lock (to_flush i)])"
    using inv_wf [OF i] by (auto simp: same_log_def chunk_ok_def intro!: list_all_update)
  from Init_appends [OF this, of "flushChunk i" "nat d"] i show ?thesis
    by (auto simp: updated_def init_at_def at_chunk_def to_flush_def ingester_inv_def)
qed

lemma advanced_less:
  assumes "advanced i x j" "\<not> Empty (to_flush i)" "flushChunk i < length (chunks i)"
  shows "length (nonempty (drop (flushChunk j) (chunks j))) < length (nonempty (drop (flushChunk i) (chunks i)))"
proof -
  obtain new where new: "list_all new_chunk new" "flushChunk j = Suc (flushChunk i)"
    "chunks j = (chunks i)[flushChunk i := x] @ new"
    using assms(1) by (auto simp: advanced_def)
  have "nonempty (drop n new) = []" for n
    using new(1) by (auto simp: filter_empty_conv list_all_iff new_chunk_def fresh_def Empty_def
        dest: in_set_dropD)
  then have "nonempty (drop (flushChunk j) (chunks j)) = nonempty (drop (Suc (flushChunk i)) (chunks i))"
    by (simp add: new)
  then show ?thesis
    using nonempty_step [OF assms(3)] assms(2) by (simp add: to_flush_def)
qed

lemma flush_loop_rule:
  assumes "ingester_inv i" and "Q i s"
    and flushed: "\<And>i s s' i'. ingester_inv i \<Longrightarrow> \<not> Empty (to_flush i) \<Longrightarrow> Ready (to_flush i) \<Longrightarrow> Q i s
      \<Longrightarrow> Flush S (to_flush i) s = (None, s') \<Longrightarrow> advanced i (to_flush i) i' \<Longrightarrow> Q i' s'"
    and gave_up: "\<And>i s s' err i'. ingester_inv i \<Longrightarrow> \<not> Empty (to_flush i) \<Longrightarrow> Ready (to_flush i) \<Longrightarrow> Q i s
      \<Longrightarrow> Flush S (to_flush i) s = (Some err, s') \<Longrightarrow> retries (to_flush i) = MaxFlushRetry (config i)
      \<Longrightarrow> advanced i (add_retry (to_flush i)) i' \<Longrightarrow> Q i' s'"
    and failed: "\<And>i s s' err i'. ingester_inv i \<Longrightarrow> \<not> Empty (to_flush i) \<Longrightarrow> Ready (to_flush i) \<Longrightarrow> Q i s
      \<Longrightarrow> Flush S (to_flush i) s = (Some err, s') \<Longrightarrow> retries (to_flush i) < MaxFlushRetry (config i)
      \<Longrightarrow> updated i (add_retry (to_flush i)) i' \<Longrightarrow> Q i' s'"
    and locked: "\<And>i s i'. ingester_inv i \<Longrightarrow> \<not> Empty (to_flush i) \<Longrightarrow> \<not> Ready (to_flush i) \<Longrightarrow> Q i s
      \<Longrightarrow> updated i (Lock (to_flush i)) i' \<Longrightarrow> Q i' s"
  shows "\<exists>i' s'. flush_loop S now i s = Inr (i', s') \<and> ingester_inv i' \<and> Q i' s' \<and> settled Q S i'"
  using assms(1,2)
proof (induction "length (nonempty (drop (flushChunk i) (chunks i)))" arbitrary: i s rule: less_induct)
  case less
  let ?c = "to_flush i" and ?f = "flushChunk i" and ?m = "MaxFlushRetry (config i)"
  have f: "?f < length (chunks i)" and m: "?m < 2 ^ 31 - 1"
    using less.prems by (auto simp: ingester_inv_def config_ok_def)
  show ?case
  proof (cases "Empty ?c")
    case True
    then show ?thesis
      using less.prems f by (subst flush_loop.simps) (auto simp: to_flush_def Let_def settled_def)
  next
    case ne: False
    note t = flush_target [OF less.prems(1) ne [unfolded to_flush_def], folded to_flush_def]
    have go: "\<exists>i' s'. flush_loop S now j u = Inr (i', s') \<and> ingester_inv i' \<and> Q i' s' \<and> settled Q S i'"
      if "advanced i x j" "same_log ?m ?c x" "Q j u" "Ready ?c" for x j u
      using less.hyps [OF advanced_less [OF that(1) ne f]] that t(3)
        advanced_inv [OF less.prems(1) _ _ that(2) [unfolded to_flush_def] that(1)] ne
      by (auto simp: to_flush_def)
    let ?d = "u8 (Chunks (config i) + 1)"
    have retry: "same_log ?m ?c (add_retry ?c)" "retries (add_retry ?c) = retries ?c + 1"
      using same_log_retry [OF t(2) t(4) m] by auto
    have at: "at_chunk ?f add_retry i = i\<lparr>chunks := (chunks i)[?f := add_retry ?c]\<rparr>"
      by (simp add: at_chunk_def to_flush_def)
    consider (ok) s' where "Ready ?c" "Flush S ?c s = (None, s')"
      | (err) e s' where "Ready ?c" "Flush S ?c s = (Some e, s')"
      | (wait) "\<not> Ready ?c"
      by (metis old.prod.exhaust option.exhaust)
    then show ?thesis
    proof cases
      case ok
      have adv: "advanced i ?c (next_flush (init_at ?d ?f i))"
        using advance_any [OF less.prems(1) same_log_refl [OF t(2)], of ?d] by (simp add: to_flush_def)
      have "flush_loop S now i s = flush_loop S now (next_flush (init_at ?d ?f i)) s'"
        using ok ne f by (subst flush_loop.simps) (simp add: to_flush_def Let_def)
      with go [OF adv same_log_refl [OF t(2)] flushed [OF less.prems(1) ne ok(1) less.prems(2) ok(2) adv] ok(1)]
      show ?thesis by simp
    next
      case err
      show ?thesis
      proof (cases "retries ?c < ?m")
        case True
        have u: "updated i (add_retry ?c) (at_chunk ?f add_retry i)"
          by (auto simp: at updated_def intro!: exI [of _ "[]"])
        have "flush_loop S now i s = Inr (at_chunk ?f add_retry i, s')"
          using err ne f True retry(2) by (subst flush_loop.simps) (simp add: to_flush_def Let_def at_chunk_def)
        moreover have "ingester_inv (at_chunk ?f add_retry i)"
          using updated_inv [OF less.prems(1) _ _ _ u] retry True ne by (simp add: to_flush_def)
        moreover have "settled Q S (at_chunk ?f add_retry i)"
          using err(2) less.prems unfolding settled_def by blast
        ultimately show ?thesis
          using failed [OF less.prems(1) ne err(1) less.prems(2) err(2) True u] by blast
      next
        case False
        let ?j = "next_flush (init_at ?d ?f (at_chunk ?f add_retry i))"
        have eq: "retries ?c = ?m" using False t(4) by simp
        have adv: "advanced i (add_retry ?c) ?j"
          unfolding at by (rule advance_any [OF less.prems(1) retry(1)])
        have "flush_loop S now i s = flush_loop S now ?j s'"
          using err ne f eq retry(2) by (subst flush_loop.simps) (simp add: to_flush_def Let_def at_chunk_def)
        with go [OF adv retry(1) gave_up [OF less.prems(1) ne err(1) less.prems(2) err(2) eq adv] err(1)]
        show ?thesis by simp
      qed
    next
      case wait
      have fw: "?f = writeChunk i" using t(1,3,5) wait le_neq_implies_less by blast
      obtain d where d: "TTL now ?c = Inr d"
        using TTL_total t(2) by (auto simp: chunk_ok_def)
      let ?j = "init_at (Chunks (config i)) ?f (at_chunk ?f Lock i)"
      have u: "updated i (Lock ?c) ?j" by (rule lock_updated [OF less.prems(1) ne])
      have "same_log ?m ?c (Lock ?c)" "retries (Lock ?c) = retries ?c"
        using same_log_Lock [OF t(2) ne] by (simp_all add: Lock_def)
      then have j: "ingester_inv ?j"
        using updated_inv [OF less.prems(1) _ _ _ u] ne t(4) by (simp add: to_flush_def)
      have sj: "settled Q S ?j" "settled Q S i"
        using fw u by (auto simp: settled_def updated_def)
      have "flush_loop S now i s = Inr (?j, s) \<or> flush_loop S now i s = Inr (i, s)"
        using wait ne f d by (subst (1 2) flush_loop.simps) (auto simp: to_flush_def Let_def lock_idle_def)
      with locked [OF less.prems(1) ne wait less.prems(2) u] j sj less.prems show ?thesis by blast
    qed
  qed
qed

subsection \<open>The whole routine\<close>

lemma Depth_Cons: "Depth (c # cs) = (if Empty c then 0 else Suc (Depth cs))"
  by simp

lemma Depth_fresh: "list_all new_chunk new \<Longrightarrow> Depth new = 0"
  by (cases new) (auto simp: new_chunk_def fresh_def Empty_def)

lemma Depth_grow: "list_all new_chunk new \<Longrightarrow> Depth (cs @ new) = Depth cs"
  by (induction cs) (simp_all add: Depth_fresh Depth_Cons del: Depth.simps(2))

lemma Depth_frontier: "frontier cs w \<Longrightarrow> Depth (drop (Suc w) cs) = 0"
  by (cases "drop (Suc w) cs") (auto simp: frontier_def fresh_def Empty_def)

lemma Depth_step: "f < length cs \<Longrightarrow> Depth (drop f cs) = (if Empty (cs ! f) then 0 else Suc (Depth (drop (Suc f) cs)))"
  by (simp only: Cons_nth_drop_Suc [symmetric] Depth_Cons)

lemma dirty_target:
  assumes i: "ingester_inv i" and d: "dirty i > MaxDirtyChunks (config i)"
  shows "\<not> Empty (to_flush i)" "rejects (to_flush i)" "flushChunk i < writeChunk i"
proof -
  let ?f = "flushChunk i"
  have two: "2 \<le> Depth (drop ?f (chunks i))" and f: "?f < length (chunks i)"
    using i d by (auto simp: ingester_inv_def config_ok_def dirty_def)
  then show ne: "\<not> Empty (to_flush i)" by (auto simp: Depth_step to_flush_def split: if_splits)
  have "?f \<noteq> writeChunk i"
    using two f ne i by (auto simp: Depth_step Depth_frontier ingester_inv_def to_flush_def)
  with flush_target(1,5) [OF i ne [unfolded to_flush_def]]
  show "?f < writeChunk i" "rejects (to_flush i)" by (auto simp: to_flush_def)
qed

lemma dirty_advanced:
  assumes "advanced i x i'" "\<not> Empty (to_flush i)" "flushChunk i < length (chunks i)"
  shows "dirty i = dirty i' + 1" "config i' = config i"
proof -
  obtain new where new: "list_all new_chunk new" "flushChunk i' = Suc (flushChunk i)"
    "chunks i' = (chunks i)[flushChunk i := x] @ new" "config i' = config i"
    using assms(1) by (auto simp: advanced_def)
  have "Depth (drop (Suc (flushChunk i)) (chunks i')) = Depth (drop (Suc (flushChunk i)) (chunks i))"
    using assms(3) by (simp add: new Depth_grow)
  then show "dirty i = dirty i' + 1" "config i' = config i"
    using assms(2,3) by (simp_all add: dirty_def new(2,4) Depth_step [of "flushChunk i"] to_flush_def)
qed

lemma discard_rule:
  assumes "ingester_inv i" "Q i"
    and dropped: "\<And>i i'. ingester_inv i \<Longrightarrow> dirty i > MaxDirtyChunks (config i) \<Longrightarrow> \<not> Empty (to_flush i)
      \<Longrightarrow> Q i \<Longrightarrow> advanced i (to_flush i) i' \<Longrightarrow> Q i'"
  shows "\<exists>i'. discard_loop i = Some i' \<and> ingester_inv i' \<and> Q i' \<and> dirty i' \<le> MaxDirtyChunks (config i')"
  using assms(1,2)
proof (induction "nat (dirty i)" arbitrary: i rule: less_induct)
  case less
  show ?case
  proof (cases "dirty i > MaxDirtyChunks (config i)")
    case False
    then show ?thesis using less.prems by (subst discard_loop.simps) auto
  next
    case True
    note t = dirty_target [OF less.prems(1) True]
    have f: "flushChunk i < length (chunks i)" using less.prems(1) by (simp add: ingester_inv_def)
    have ok: "same_log (MaxFlushRetry (config i)) (to_flush i) (to_flush i)"
      using same_log_refl flush_target(2) [OF less.prems(1)] t(1) by (simp add: to_flush_def)
    have adv: "advanced i (to_flush i) (next_flush i)"
      using advance_any [OF less.prems(1) ok, of 0] by (simp add: to_flush_def init_at_def)
    have "ingester_inv (next_flush i)"
      using advanced_inv [OF less.prems(1) _ _ ok [unfolded to_flush_def] adv [unfolded to_flush_def]] t
      by (simp add: to_flush_def)
    moreover have "nat (dirty (next_flush i)) < nat (dirty i)"
      using dirty_advanced [OF adv t(1) f] by (simp add: dirty_def)
    moreover have "discard_loop i = discard_loop (next_flush i)"
      using True by (subst discard_loop.simps) simp
    ultimately show ?thesis
      using less.hyps dropped [OF less.prems(1) True t(1) less.prems(2) adv] by simp
  qed
qed

text \<open>
  One tick: it ends without a panic, and at most \<open>MaxDirtyChunks\<close> chunks are left to flush.
  A predicate that every kind of turn keeps holds at the end.
\<close>

lemma routine_rule:
  assumes i: "ingester_inv i" and "Q i s"
    and flushed: "\<And>i s s' i'. ingester_inv i \<Longrightarrow> \<not> Empty (to_flush i) \<Longrightarrow> Q i s
      \<Longrightarrow> Flush S (to_flush i) s = (None, s') \<Longrightarrow> advanced i (to_flush i) i' \<Longrightarrow> Q i' s'"
    and gave_up: "\<And>i s s' err i'. ingester_inv i \<Longrightarrow> \<not> Empty (to_flush i) \<Longrightarrow> Q i s
      \<Longrightarrow> Flush S (to_flush i) s = (Some err, s') \<Longrightarrow> retries (to_flush i) = MaxFlushRetry (config i)
      \<Longrightarrow> advanced i (add_retry (to_flush i)) i' \<Longrightarrow> Q i' s'"
    and failed: "\<And>i s s' err i'. ingester_inv i \<Longrightarrow> \<not> Empty (to_flush i) \<Longrightarrow> Q i s
      \<Longrightarrow> Flush S (to_flush i) s = (Some err, s') \<Longrightarrow> retries (to_flush i) < MaxFlushRetry (config i)
      \<Longrightarrow> updated i (add_retry (to_flush i)) i' \<Longrightarrow> Q i' s'"
    and same: "\<And>i s i' x. ingester_inv i \<Longrightarrow> Q i s \<Longrightarrow> x = to_flush i \<or> x = Lock (to_flush i)
      \<Longrightarrow> updated i x i' \<Longrightarrow> Q i' s"
    and dropped: "\<And>i s i'. ingester_inv i \<Longrightarrow> \<exists>j. ingester_inv j \<and> settled Q S j \<and> dirty j > MaxDirtyChunks (config j)
      \<Longrightarrow> \<not> Empty (to_flush i) \<Longrightarrow> Q i s \<Longrightarrow> advanced i (to_flush i) i' \<Longrightarrow> Q i' s"
  shows "\<exists>i' s'. doRoutineCheck S now i s = Some (Inr (i', s')) \<and> ingester_inv i' \<and> Q i' s'
    \<and> dirty i' \<le> MaxDirtyChunks (config i')"
proof -
  have "\<exists>i' s'. flush_loop S now i s = Inr (i', s') \<and> ingester_inv i' \<and> Q i' s' \<and> settled Q S i'"
    by (rule flush_loop_rule [where Q = Q, OF i assms(2)])
      (use flushed in blast, use gave_up in blast, use failed in blast, use same in blast)
  then obtain i1 s1 where l: "flush_loop S now i s = Inr (i1, s1)" "ingester_inv i1" "Q i1 s1" "settled Q S i1"
    by blast
  show ?thesis
  proof (cases "dirty i1 > MaxDirtyChunks (config i1)")
    case False
    then show ?thesis using l by (auto simp: doRoutineCheck_def)
  next
    case True
    have j: "\<exists>j. ingester_inv j \<and> settled Q S j \<and> dirty j > MaxDirtyChunks (config j)"
      using l True by blast
    have "\<exists>i'. discard_loop i1 = Some i' \<and> ingester_inv i' \<and> Q i' s1 \<and> dirty i' \<le> MaxDirtyChunks (config i')"
      by (rule discard_rule [where Q = "\<lambda>i. Q i s1", OF l(2,3)]) (use dropped [OF _ j] in blast)
    then obtain i2 where d: "discard_loop i1 = Some i2" "ingester_inv i2" "Q i2 s1" "dirty i2 \<le> MaxDirtyChunks (config i2)"
      by blast
    have f: "flushChunk i2 < length (chunks i2)" using d(2) by (simp add: ingester_inv_def)
    obtain new where new: "Init (nat (Chunks (config i2))) (chunks i2) (flushChunk i2) = chunks i2 @ new"
      "list_all new_chunk new"
      using Init_appends [OF inv_wf [OF d(2)] f] by blast
    let ?i3 = "init_at (Chunks (config i2)) (flushChunk i2) i2"
    have i3: "?i3 = i2\<lparr>chunks := chunks i2 @ new\<rparr>" by (simp add: init_at_def new)
    have u: "updated i2 (to_flush i2) ?i3"
      using new by (auto simp: updated_def i3 to_flush_def)
    have "dirty ?i3 = dirty i2" "config ?i3 = config i2"
      using f new(2) by (simp_all add: dirty_def i3 Depth_grow)
    then show ?thesis
      using same [OF d(2,3) _ u] inv_grow [OF d(2) new(2)] d(1,4) l True dirty_target(1) [OF l(2) True] i3
      by (auto simp: doRoutineCheck_def to_flush_def)
  qed
qed

end
