(* ===== verification/IngestConc.thy ===== *)
theory IngestConc imports ChunkConc Ingester begin

text \<open>
  \<^verbatim>\<open>ingester.Ingest\<close> in \<^verbatim>\<open>ingester.go\<close>, run by many goroutines at once over the whole chain of chunks: the load of
  \<^verbatim>\<open>writeChunkId\<close>, the load of \<^verbatim>\<open>writeChunk\<close>, the steps of \<^verbatim>\<open>Put\<close> on one chunk after the other, the compare-and-swap
  and the store of the new \<^verbatim>\<open>writeChunk\<close> are steps of their own. The flusher locks and links chunks at any time. Seen
  from one chunk, every run is a run of \<^verbatim>\<open>ChunkConc\<close>.
\<close>

subsection \<open>The goroutines\<close>

record buffer =
  chain :: "Chunk list"
  writeAt :: nat
  writeId :: int

text \<open>
  Where a goroutine is in \<^verbatim>\<open>Ingest\<close>: the id it has read; in \<^verbatim>\<open>Put\<close>, the index of the first chunk it tried, how it
  left the chunks that turned it down, and where it is in the last one; then the slot it has filled. \<^verbatim>\<open>Put\<close> reports a full
  chunk when some chunk has turned the entry down.
\<close>

datatype place =
    Entering
  | Seen int
  | Putting int nat "pc list" pc
  | Returned int nat "pc list" nat
  | Swapped nat "pc list" nat
  | Done nat "pc list" nat

definition next_chunk :: "nat \<Rightarrow> buffer \<Rightarrow> buffer" where
  "next_chunk k b = b\<lparr>chain := link_next (chain b) k\<rparr>"

fun ingest_step :: "Entry \<Rightarrow> place \<Rightarrow> buffer \<Rightarrow> buffer \<times> place" where
  "ingest_step e Entering b = (b, Seen (writeId b))"
| "ingest_step e (Seen l) b = (b, Putting l (writeAt b) [] Called)"
| "ingest_step e (Putting l w trail p) b =
     (let k = w + length trail
      in case p of
           Finished s \<Rightarrow> (b, Returned l w trail s)
         | LeftLocked \<Rightarrow> (next_chunk k b, Putting l w (trail @ [p]) Called)
         | LeftFull \<Rightarrow> (next_chunk k b, Putting l w (trail @ [p]) Called)
         | _ \<Rightarrow> (case put_step e p (chain b ! k) of
                   (c, p) \<Rightarrow> (b\<lparr>chain := (chain b)[k := c]\<rparr>, Putting l w trail p)))"
| "ingest_step e (Returned l w trail s) b =
     (if trail \<noteq> [] \<and> writeId b = l
      then (b\<lparr>writeId := chunk_id (chain b ! (w + length trail))\<rparr>, Swapped w trail s)
      else (b, Done w trail s))"
| "ingest_step e (Swapped w trail s) b = (b\<lparr>writeAt := w + length trail\<rparr>, Done w trail s)"
| "ingest_step e (Done w trail s) b = (b, Done w trail s)"

type_synonym ingesting = "buffer \<times> (Entry \<times> place) list"

inductive ingest_conc :: "ingesting \<Rightarrow> ingesting \<Rightarrow> bool" where
  ingest: "i < length gs \<Longrightarrow> gs ! i = (e, pl) \<Longrightarrow> ingest_step e pl b = (b', pl')
    \<Longrightarrow> ingest_conc (b, gs) (b', gs[i := (e, pl')])"
| flush_lock: "k < length (chain b) \<Longrightarrow> ingest_conc (b, gs) (b\<lparr>chain := (chain b)[k := Lock (chain b ! k)]\<rparr>, gs)"
| flush_init: "k < length (chain b) \<Longrightarrow> ingest_conc (b, gs) (b\<lparr>chain := Init d (chain b) k\<rparr>, gs)"

definition ingest_start :: "IngesterConfig option \<Rightarrow> Entry list \<Rightarrow> ingesting" where
  "ingest_start cfg es =
     (let i = NewIngester cfg
      in (\<lparr>chain = chunks i, writeAt = writeChunk i, writeId = writeChunkId i\<rparr>, map (\<lambda>e. (e, Entering)) es))"

text \<open>The same with the choices made explicit.\<close>

fun ingest_run :: "nat list \<Rightarrow> ingesting \<Rightarrow> ingesting" where
  "ingest_run [] s = s"
| "ingest_run (i # is) (b, gs) =
     (if i < length gs
      then case ingest_step (fst (gs ! i)) (snd (gs ! i)) b of
             (b, pl) \<Rightarrow> ingest_run is (b, gs[i := (fst (gs ! i), pl)])
      else ingest_run is (b, gs))"

lemma ingest_run_steps: "ingest_conc\<^sup>*\<^sup>* s (ingest_run is s)"
proof (induction "is" s rule: ingest_run.induct)
  case (2 i "is" b gs)
  show ?case
  proof (cases "i < length gs")
    case True
    obtain b' pl where st: "ingest_step (fst (gs ! i)) (snd (gs ! i)) b = (b', pl)" by fastforce
    have "ingest_conc (b, gs) (b', gs[i := (fst (gs ! i), pl)])" by (rule ingest [OF True _ st]) simp
    with 2(1) [OF True st [symmetric]] True st show ?thesis by (simp add: converse_rtranclp_into_rtranclp)
  qed (use 2(2) in simp)
qed simp

subsection \<open>One chunk of the chain\<close>

text \<open>Where a goroutine is in \<^verbatim>\<open>Put\<close> of the chunk \<open>k\<close>.\<close>

definition along :: "nat \<Rightarrow> nat \<Rightarrow> pc list \<Rightarrow> pc" where
  "along k w ps = (if w \<le> k \<and> k - w < length ps then ps ! (k - w) else Called)"

fun pc_at :: "nat \<Rightarrow> place \<Rightarrow> pc" where
  "pc_at k (Putting l w trail p) = along k w (trail @ [p])"
| "pc_at k (Returned l w trail s) = along k w (trail @ [Finished s])"
| "pc_at k (Swapped w trail s) = along k w (trail @ [Finished s])"
| "pc_at k (Done w trail s) = along k w (trail @ [Finished s])"
| "pc_at k _ = Called"

definition view :: "nat \<Rightarrow> (Entry \<times> place) list \<Rightarrow> goroutine list" where
  "view k gs = map (\<lambda>(e, pl). (e, pc_at k pl)) gs"

text \<open>The index of the chunk a goroutine works on.\<close>

fun chunk_of :: "place \<Rightarrow> nat option" where
  "chunk_of (Putting l w trail p) = Some (w + length trail)"
| "chunk_of (Returned l w trail s) = Some (w + length trail)"
| "chunk_of (Swapped w trail s) = Some (w + length trail)"
| "chunk_of (Done w trail s) = Some (w + length trail)"
| "chunk_of _ = None"

lemma along_snoc: "along k w (ps @ [p]) = (if k = w + length ps then p else along k w ps)"
  by (auto simp: along_def nth_append)

lemma along_end [simp]: "along (w + length ps) w ps = Called"
  by (simp add: along_def)

lemma along_Called [simp]: "along k w (ps @ [p, Called]) = along k w (ps @ [p])"
  using along_snoc [of k w "ps @ [p]" Called] along_end [of w "ps @ [p]"] by simp

lemma view_update: "view k (gs[i := (e, pl)]) = (view k gs)[i := (e, pc_at k pl)]"
  by (simp add: view_def map_update)

lemma nth_view: "i < length gs \<Longrightarrow> view k gs ! i = (fst (gs ! i), pc_at k (snd (gs ! i)))"
  by (simp add: view_def split: prod.split)

lemma length_view [simp]: "length (view k gs) = length gs"
  by (simp add: view_def)

lemma view_same:
  assumes "i < length gs" "gs ! i = (e, pl)" "pc_at k pl' = pc_at k pl"
  shows "view k (gs[i := (e, pl')]) = view k gs"
proof -
  have "view k gs ! i = (e, pc_at k pl)" using assms(1,2) by (simp add: nth_view)
  then show ?thesis using assms(1,3) list_update_id [of "view k gs" i] by (simp add: view_update)
qed

text \<open>A step of a goroutine changes what one chunk sees of it as a step of \<^verbatim>\<open>Put\<close> there, or not at all.\<close>

lemma ingest_step_cases:
  assumes "ingest_step e pl b = (b', pl')"
  obtains (still) "chain b' = chain b" "\<And>k. pc_at k pl' = pc_at k pl"
    | (link) k where "chunk_of pl = Some k" "chain b' = link_next (chain b) k" "\<And>k. pc_at k pl' = pc_at k pl"
    | (put) k c p' where "chunk_of pl = Some k" "put_step e (pc_at k pl) (chain b ! k) = (c, p')"
        "chain b' = (chain b)[k := c]" "\<And>j. pc_at j pl' = (if j = k then p' else pc_at j pl)"
proof (cases pl)
  case (Putting l w trail p)
  let ?k = "w + length trail"
  consider s where "p = Finished s" | "p = LeftLocked \<or> p = LeftFull" | "\<forall>s. p \<noteq> Finished s" "p \<noteq> LeftLocked" "p \<noteq> LeftFull"
    by blast
  then show ?thesis
  proof cases
    case 1
    then show ?thesis using assms Putting by (intro still) auto
  next
    case 2
    then show ?thesis using assms Putting
      by (intro link [of ?k]) (auto simp: next_chunk_def along_snoc)
  next
    case 3
    obtain c p' where st: "put_step e p (chain b ! ?k) = (c, p')" by fastforce
    then have "b' = b\<lparr>chain := (chain b)[?k := c]\<rparr>" "pl' = Putting l w trail p'"
      using assms 3 Putting by (auto simp: Let_def split: pc.splits)
    then show ?thesis using st Putting by (intro put [of ?k c p']) (auto simp: along_snoc)
  qed
next
  case Entering
  then show ?thesis using assms by (intro still) auto
next
  case (Seen l)
  have "along k w [Called] = Called" for k w by (simp add: along_def)
  then show ?thesis using assms Seen by (intro still) auto
next
  case (Returned l w trail s)
  have "chain b' = chain b \<and> (pl' = Swapped w trail s \<or> pl' = Done w trail s)"
    using assms Returned by (auto split: if_splits)
  then show ?thesis using Returned by (intro still) auto
next
  case (Swapped w trail s)
  then show ?thesis using assms by (intro still) auto
next
  case (Done w trail s)
  then show ?thesis using assms by (intro still) auto
qed

subsection \<open>Every chunk sees a run of its own\<close>

text \<open>
  The run that a chunk of the chain sees: it starts untouched, with all goroutines about to call \<^verbatim>\<open>Put\<close>, and
  gets to the chunk and to the places the goroutines have in it.
\<close>

definition own_run :: "Entry list \<Rightarrow> Chunk \<Rightarrow> goroutine list \<Rightarrow> bool" where
  "own_run es c gs = (\<exists>c0. fresh c0 \<and> conc_step\<^sup>*\<^sup>* (c0, map (\<lambda>e. (e, Called)) es) (c, gs))"

lemma own_run_fresh: "fresh c \<Longrightarrow> own_run es c (map (\<lambda>e. (e, Called)) es)"
  unfolding own_run_def by blast

lemma own_run_step: "own_run es c gs \<Longrightarrow> conc_step (c, gs) (c', gs') \<Longrightarrow> own_run es c' gs'"
  unfolding own_run_def by (meson rtranclp.rtrancl_into_rtrancl)

lemma conc_inv_fresh:
  assumes "fresh c" "length es < 2 ^ 31 - 1"
  shows "conc_inv (c, map (\<lambda>e. (e, Called)) es)"
proof -
  have "count P (map (\<lambda>e. (e, Called)) es) = (if P Called then length es else 0)" for P
    by (simp add: count_def)
  then show ?thesis
    using assms by (simp add: conc_inv_alt owned_def apart_def fresh_def wf_chunk_def has_booked_def)
qed

lemma own_run_inv:
  assumes "own_run es c gs" "length es < 2 ^ 31 - 1"
  shows "conc_inv (c, gs)"
proof -
  obtain c0 where c0: "fresh c0" "conc_step\<^sup>*\<^sup>* (c0, map (\<lambda>e. (e, Called)) es) (c, gs)"
    using assms(1) unfolding own_run_def by blast
  from slots.reachable [OF c0(2) conc_inv_fresh [OF c0(1) assms(2)]] show ?thesis .
qed

lemma own_run_cap:
  assumes "own_run es c gs"
  shows "1 \<le> cap c \<and> cap c \<le> 900"
proof -
  obtain c0 where c0: "fresh c0" "conc_step\<^sup>*\<^sup>* (c0, map (\<lambda>e. (e, Called)) es) (c, gs)"
    using assms unfolding own_run_def by blast
  from capacity.reachable [OF c0(2), of "cap c0"] have "cap c = cap c0" by simp
  with c0(1) show ?thesis by (simp add: fresh_def wf_chunk_def)
qed

text \<open>The invariant: every chunk has its run, and all indices are those of chunks.\<close>

definition chain_inv :: "Entry list \<Rightarrow> ingesting \<Rightarrow> bool" where
  "chain_inv es s =
     (case s of (b, gs) \<Rightarrow>
        map fst gs = es \<and> writeAt b < length (chain b) \<and>
        (\<forall>k < length (chain b). own_run es (chain b ! k) (view k gs)) \<and>
        (\<forall>i < length gs. \<forall>k. chunk_of (snd (gs ! i)) = Some k \<longrightarrow> k < length (chain b)))"

lemma view_new:
  assumes "map fst gs = es" "\<And>i j. i < length gs \<Longrightarrow> chunk_of (snd (gs ! i)) = Some j \<Longrightarrow> j < k"
  shows "view k gs = map (\<lambda>e. (e, Called)) es"
proof (rule nth_equalityI)
  show "length (view k gs) = length (map (\<lambda>e. (e, Called)) es)" using assms(1) by auto
  fix i assume i: "i < length (view k gs)"
  have "pc_at k (snd (gs ! i)) = Called"
    using assms(2) [of i] i by (cases "snd (gs ! i)") (auto simp: along_def)
  then show "view k gs ! i = map (\<lambda>e. (e, Called)) es ! i"
    using assms(1) i by (auto simp: nth_view)
qed

text \<open>Linking appends untouched chunks at most.\<close>

lemma link_grows:
  assumes "k < length cs" "1 \<le> cap (cs ! k)" "cap (cs ! k) \<le> 900"
  shows "\<exists>new. link_next cs k = cs @ new \<and> list_all fresh new"
proof (cases "Suc k < length cs")
  case False
  then have "link_next cs k = cs @ [zeroChunk\<lparr>cap := cap (cs ! k), chunk_id := i32 (chunk_id (cs ! k) + 1)\<rparr>]"
    using assms by (simp add: link_next_def Let_def)
  then show ?thesis using fresh_zero assms by auto
qed (simp add: link_next_def)

lemma chain_inv_grow:
  assumes "chain_inv es (b, gs)" "list_all fresh new"
  shows "chain_inv es (b\<lparr>chain := chain b @ new\<rparr>, gs)"
proof -
  have v: "view k gs = map (\<lambda>e. (e, Called)) es" if "length (chain b) \<le> k" for k
    using assms(1) that by (intro view_new) (fastforce simp: chain_inv_def)+
  have "own_run es ((chain b @ new) ! k) (view k gs)" if "k < length (chain b @ new)" for k
  proof (cases "k < length (chain b)")
    case True
    then show ?thesis using assms(1) by (simp add: chain_inv_def nth_append)
  next
    case False
    then have "fresh ((chain b @ new) ! k)"
      using assms(2) that by (simp add: nth_append list_all_length)
    then show ?thesis using v False by (simp add: own_run_fresh)
  qed
  with assms(1) show ?thesis by (fastforce simp: chain_inv_def)
qed

lemma chain_inv_link: "chain_inv es (b, gs) \<Longrightarrow> k < length (chain b) \<Longrightarrow> chain_inv es (next_chunk k b, gs)"
proof -
  assume I: "chain_inv es (b, gs)" and k: "k < length (chain b)"
  then have "own_run es (chain b ! k) (view k gs)" by (simp add: chain_inv_def)
  from own_run_cap [OF this] obtain new where "link_next (chain b) k = chain b @ new" "list_all fresh new"
    using link_grows [OF k] by blast
  then show ?thesis using chain_inv_grow [OF I] by (simp add: next_chunk_def)
qed

lemma chain_inv_init:
  "chain_inv es (b, gs) \<Longrightarrow> k < length (chain b) \<Longrightarrow> chain_inv es (b\<lparr>chain := Init d (chain b) k\<rparr>, gs)"
proof (induction d arbitrary: b k)
  case (Suc d)
  have "Suc k < length (chain (next_chunk k b))" using Suc.prems(2) by (simp add: next_chunk_def length_link_next)
  from Suc.IH [OF chain_inv_link [OF Suc.prems] this] show ?case by (simp add: next_chunk_def)
qed simp

text \<open>The chunks a step goes to exist.\<close>

lemma ingest_step_index:
  assumes "ingest_step e pl b = (b', pl')" "writeAt b < length (chain b)"
    and "\<And>k. chunk_of pl = Some k \<Longrightarrow> k < length (chain b)"
  shows "writeAt b' < length (chain b')" "chunk_of pl' = Some k \<Longrightarrow> k < length (chain b')"
    "length (chain b) \<le> length (chain b')"
proof -
  have "writeAt b' < length (chain b') \<and> (chunk_of pl' = Some k \<longrightarrow> k < length (chain b')) \<and> length (chain b) \<le> length (chain b')"
  proof (cases pl)
    case (Putting l w trail p)
    then have k: "w + length trail < length (chain b)" using assms(3) by simp
    show ?thesis
      using assms(1,2) k Putting
      by (cases p) (auto simp: next_chunk_def length_link_next Let_def split: prod.splits)
  qed (use assms in \<open>auto split: if_splits\<close>)
  then show "writeAt b' < length (chain b')" "chunk_of pl' = Some k \<Longrightarrow> k < length (chain b')"
    "length (chain b) \<le> length (chain b')" by auto
qed

lemma map_fst_update: "i < length gs \<Longrightarrow> gs ! i = (e, pl) \<Longrightarrow> map fst (gs[i := (e, pl')]) = map fst gs"
  by (metis fst_conv list_update_id map_update)

lemma chain_inv_step:
  assumes "ingest_conc s s'" "chain_inv es s"
  shows "chain_inv es s'"
  using assms
proof (induction rule: ingest_conc.induct)
  case (ingest i gs e pl b b' pl')
  note I = ingest.prems [unfolded chain_inv_def prod.case] and i = ingest.hyps(1,2) and st = ingest.hyps(3)
  let ?gs = "gs[i := (e, pl')]"
  have idx: "\<And>k. chunk_of pl = Some k \<Longrightarrow> k < length (chain b)" using I i by fastforce
  note step = ingest_step_index [OF st _ idx]
  have at: "writeAt b' < length (chain b')" and len: "length (chain b) \<le> length (chain b')" using step I by auto
  have ch: "k < length (chain b')" if "j < length ?gs" "chunk_of (snd (?gs ! j)) = Some k" for j k
    using that
  proof (cases "j = i")
    case True
    then show ?thesis using that step(2) I i by simp
  next
    case False
    then show ?thesis using that len I by fastforce
  qed
  have runs: "own_run es (chain b' ! k) (view k ?gs)" if k: "k < length (chain b')" for k
    using st
  proof (cases rule: ingest_step_cases)
    case still
    then show ?thesis using I i k by (simp add: view_same)
  next
    case (link j)
    have "chain_inv es (next_chunk j b, gs)" using chain_inv_link [OF ingest.prems idx [OF link(1)]] .
    then show ?thesis using k link i by (simp add: chain_inv_def next_chunk_def view_same)
  next
    case (put j c p')
    show ?thesis
    proof (cases "k = j")
      case True
      have j: "j < length (chain b)" using idx put(1) .
      have "view j gs ! i = (e, pc_at j pl)" using i by (simp add: nth_view)
      from conc_step.put [OF _ this put(2)] i
      have "conc_step (chain b ! j, view j gs) (c, view j ?gs)" by (simp add: view_update put(4))
      then show ?thesis using own_run_step I j True put(3) by auto
    next
      case False
      then show ?thesis using I i k put by (simp add: view_same)
    qed
  qed
  show ?case using at ch runs I map_fst_update [OF i, of pl'] by (simp add: chain_inv_def)
next
  case (flush_lock k b gs)
  have "own_run es (Lock (chain b ! k)) (view k gs)"
    using own_run_step [OF _ conc_step.lock] flush_lock by (simp add: chain_inv_def)
  then show ?case using flush_lock by (auto simp: chain_inv_def nth_list_update)
next
  case (flush_init k b gs d)
  then show ?case using chain_inv_init by blast
qed

lemma NewIngester_fresh: "list_all fresh (chunks (NewIngester cfg)) \<and> chunks (NewIngester cfg) \<noteq> [] \<and> writeChunk (NewIngester cfg) = 0"
proof -
  define c where "c = with_defaults (case cfg of Some c \<Rightarrow> c
      | None \<Rightarrow> \<lparr>Chunks = 0, ChunkSize = 0, MaxChunkSizeBytes = 0, MaxDirtyChunks = 0,
                 MaxFlushRetry = 0, FlushAfterSec = 0, IntervalCheckMs = 0\<rparr>)"
  have wf: "list_all wf_chunk [NewChunk (ChunkSize c)]" using fresh_NewChunk by (simp add: fresh_def)
  obtain new where "Init (nat (Chunks c)) [NewChunk (ChunkSize c)] 0 = [NewChunk (ChunkSize c)] @ new" "list_all new_chunk new"
    using Init_appends [OF wf] by auto
  then have "chunks (NewIngester cfg) = NewChunk (ChunkSize c) # new \<and> list_all fresh new"
    by (auto simp: NewIngester_def c_def Let_def new_chunk_def list_all_iff)
  then show ?thesis using fresh_NewChunk by (simp add: NewIngester_def Let_def)
qed

interpretation links: step_invariant ingest_conc "chain_inv es" for es
  by unfold_locales (rule chain_inv_step)

lemma chain_inv_start: "chain_inv es (ingest_start cfg es)"
proof -
  have "view k (map (\<lambda>e. (e, Entering)) es) = map (\<lambda>e. (e, Called)) es" for k by (simp add: view_def)
  with NewIngester_fresh [of cfg] show ?thesis
    by (simp add: chain_inv_def ingest_start_def Let_def list_all_length own_run_fresh comp_def)
qed

lemma chain_inv_reachable: "ingest_conc\<^sup>*\<^sup>* (ingest_start cfg es) s \<Longrightarrow> chain_inv es s"
  by (rule links.reachable [OF _ chain_inv_start])

subsection \<open>Properties\<close>

text \<open>
  C31 (refinement). However many goroutines call \<^verbatim>\<open>Ingest\<close> at once, and whatever the flusher locks and links meanwhile,
  each chunk of the chain goes through a run of the single chunk of \<open>ChunkConc\<close>: from an untouched chunk with all
  goroutines about to call \<^verbatim>\<open>Put\<close> to the chunk as it is, with the places the goroutines have in it.
\<close>

theorem chain_refines_chunk:
  assumes "ingest_conc\<^sup>*\<^sup>* (ingest_start cfg es) (b, gs)" "k < length (chain b)"
  shows "\<exists>c. fresh c \<and> conc_step\<^sup>*\<^sup>* (c, map (\<lambda>e. (e, Called)) es) (chain b ! k, view k gs)"
  using chain_inv_reachable [OF assms(1)] assms(2) by (simp add: chain_inv_def own_run_def)

text \<open>
  Chunks of one slot each. The first goroutine books the only slot of the first chunk and pauses; the second finds the
  chunk full and runs through in the next one, which becomes the chunk to write to.
\<close>

definition oneSlot :: IngesterConfig where
  "oneSlot = \<lparr>Chunks = 1, ChunkSize = 1, MaxChunkSizeBytes = 0, MaxDirtyChunks = 5, MaxFlushRetry = 1,
     FlushAfterSec = 1, IntervalCheckMs = 1\<rparr>"

definition spilled :: ingesting where
  "spilled = ingest_run (replicate 4 0 @ replicate 17 1) (ingest_start (Some oneSlot) [entry_at 5 ''a'', entry_at 6 ''b''])"

lemma spilled_reachable:
  "ingest_conc\<^sup>*\<^sup>* (ingest_start (Some oneSlot) [entry_at 5 ''a'', entry_at 6 ''b'']) (fst spilled, snd spilled)"
  unfolding spilled_def prod.collapse by (rule ingest_run_steps)

theorem chain_refines_chunk_witness:
  "writeAt (fst spilled) = 1 \<and>
   (\<exists>c. fresh c \<and> conc_step\<^sup>*\<^sup>* (c, [(entry_at 5 ''a'', Called), (entry_at 6 ''b'', Called)])
      (chain (fst spilled) ! 1, [(entry_at 5 ''a'', Called), (entry_at 6 ''b'', Finished 0)]))"
proof -
  have f: "length (chain (fst spilled)) = 2" "writeAt (fst spilled) = 1"
    "view 1 (snd spilled) = [(entry_at 5 ''a'', Called), (entry_at 6 ''b'', Finished 0)]"
    by code_simp+
  from chain_refines_chunk [OF spilled_reachable, of 1] f show ?thesis by simp
qed

text \<open>
  C5 (safety). An \<^verbatim>\<open>Ingest\<close> that has returned has left its entry in a slot of a chunk of the chain, whichever way
  the calls, the switches of the chunk being written and the flusher's locks interleave; no other call has that slot.
\<close>

theorem concurrent_ingest_keeps_entries:
  assumes "ingest_conc\<^sup>*\<^sup>* (ingest_start cfg es) (b, gs)" "length es < 2 ^ 31 - 1"
    and "i < length gs" "gs ! i = (e, Done w trail n)" "k = w + length trail"
  shows "k < length (chain b) \<and> entries (chain b ! k) n = Some e \<and> int n < cap (chain b ! k) \<and>
    (\<forall>j < length gs. slot_of (pc_at k (snd (gs ! j))) = Some n \<longrightarrow> j = i)"
proof -
  note I = chain_inv_reachable [OF assms(1), unfolded chain_inv_def prod.case]
  have k: "k < length (chain b)" using I assms(3-5) by fastforce
  have v: "view k gs ! i = (e, Finished n)" using assms(3-5) by (simp add: nth_view along_snoc)
  have "conc_inv (chain b ! k, view k gs)" using own_run_inv I k assms(2) by blast
  then have "owned (chain b ! k) (view k gs ! i)" "apart (view k gs)" using assms(3) by (simp_all add: conc_inv_alt)
  then show ?thesis
    using k v assms(3) unfolding owned_def apart_def by (auto simp: nth_view)
qed

theorem concurrent_ingest_keeps_entries_witness:
  "entries (chain (fst spilled) ! 1) 0 = Some (entry_at 6 ''b'')"
proof -
  have f: "length (snd spilled) = 2" "snd spilled ! 1 = (entry_at 6 ''b'', Done 0 [LeftFull] 0)" by code_simp+
  from concurrent_ingest_keeps_entries [OF spilled_reachable _ _ f(2), of 1] f(1) show ?thesis by simp
qed

subsection \<open>How long a caller can take\<close>

text \<open>A goroutine that left a chunk found it locked, or with all its slots booked.\<close>

definition left_ok :: "conc \<Rightarrow> bool" where
  "left_ok s =
     (case s of (c, gs) \<Rightarrow>
        list_all (\<lambda>g. (snd g = LeftLocked \<longrightarrow> locked c) \<and> (snd g = LeftFull \<longrightarrow> cap c \<le> book c)) gs)"

lemma left_step:
  assumes "conc_step s s'" "conc_inv s" "left_ok s"
  shows "left_ok s'"
  using assms
proof (induction rule: conc_step.induct)
  case (put i gs e p c c' p')
  have i: "i < length gs" "gs ! i = (e, p)" using put.hyps by auto
  have ps: "list_all (\<lambda>g. (snd g = LeftLocked \<longrightarrow> locked c) \<and> (snd g = LeftFull \<longrightarrow> cap c \<le> book c)) gs"
    using put.prems(2) by (simp add: left_ok_def)
  then have p: "(p = LeftLocked \<longrightarrow> locked c) \<and> (p = LeftFull \<longrightarrow> cap c \<le> book c)"
    using i unfolding list_all_length by (metis snd_conv)
  have c: "locked c' = locked c \<and> cap c' = cap c \<and> book c \<le> book c' \<and>
    (p' = LeftLocked \<longrightarrow> locked c) \<and> (p' = LeftFull \<longrightarrow> cap c \<le> book c')"
  proof (cases "p = Unlocked")
    case True
    note b = booked_room [OF put.prems(1)]
    from put_step_Unlocked [OF put.hyps(3) [unfolded True] b(1,2)] show ?thesis by (auto split: if_splits)
  next
    case False
    have "(p' = LeftLocked \<longrightarrow> locked c) \<and> (p' = LeftFull \<longrightarrow> p = LeftFull)"
      using put.hyps(3) False p by (cases p) (auto split: if_splits)
    with put_step_frame [OF put.hyps(3) False] p show ?thesis by simp
  qed
  have "list_all (\<lambda>g. (snd g = LeftLocked \<longrightarrow> locked c) \<and> (snd g = LeftFull \<longrightarrow> cap c \<le> book c')) gs"
    using ps c by (auto simp: list_all_iff)
  with c show ?case by (auto simp: left_ok_def intro!: list_all_update)
next
  case (lock c gs)
  then show ?case by (auto simp: left_ok_def Lock_def list_all_iff)
qed

interpretation own: step_invariant conc_step "\<lambda>s. conc_inv s \<and> filled s \<and> left_ok s"
  by unfold_locales (auto intro: conc_inv_step filled_step left_step)

lemma own_run_facts:
  assumes "own_run es c gs" "length es < 2 ^ 31 - 1"
  shows "conc_inv (c, gs) \<and> filled (c, gs) \<and> left_ok (c, gs)"
proof -
  obtain c0 where c0: "fresh c0" "conc_step\<^sup>*\<^sup>* (c0, map (\<lambda>e. (e, Called)) es) (c, gs)"
    using assms(1) unfolding own_run_def by blast
  have "filled (c0, map (\<lambda>e. (e, Called)) es)" "left_ok (c0, map (\<lambda>e. (e, Called)) es)"
    using c0(1) by (auto simp: filled_def left_ok_def fresh_def wf_chunk_def count_def has_slot_def list_all_iff)
  with own.reachable [OF c0(2)] conc_inv_fresh [OF c0(1) assms(2)] show ?thesis by blast
qed

text \<open>Where a goroutine has been: chunks that turned it down, before the one it is at.\<close>

fun trail_of :: "place \<Rightarrow> pc list" where
  "trail_of (Putting l w trail p) = trail"
| "trail_of (Returned l w trail s) = trail"
| "trail_of (Swapped w trail s) = trail"
| "trail_of (Done w trail s) = trail"
| "trail_of _ = []"

definition place_ok :: "place \<Rightarrow> bool" where
  "place_ok pl = (set (trail_of pl) \<subseteq> {LeftLocked, LeftFull} \<and> (case pl of Putting l w trail p \<Rightarrow> retrying_ok p | _ \<Rightarrow> True))"

lemma retrying_step: "put_step e p c = (c', p') \<Longrightarrow> retrying_ok p'"
  by (cases p) (auto simp: retrying_ok_def split: if_splits)

lemma place_step:
  assumes "place_ok pl" "ingest_step e pl b = (b', pl')"
  shows "place_ok pl'"
proof (cases pl)
  case (Putting l w trail p)
  with assms show ?thesis
    by (cases p) (auto simp: place_ok_def retrying_ok_def Let_def split: prod.splits if_splits dest: retrying_step)
qed (use assms in \<open>auto simp: place_ok_def retrying_ok_def split: if_splits\<close>)

lemma places_step:
  assumes "ingest_conc s s'" "list_all (\<lambda>g. place_ok (snd g)) (snd s)"
  shows "list_all (\<lambda>g. place_ok (snd g)) (snd s')"
  using assms
proof (induction rule: ingest_conc.induct)
  case (ingest i gs e pl b b' pl')
  then have "place_ok pl" unfolding list_all_length by (metis snd_conv)
  with ingest place_step show ?case by (auto intro!: list_all_update)
qed simp_all

interpretation passes: step_invariant ingest_conc "\<lambda>s. list_all (\<lambda>g. place_ok (snd g)) (snd s)"
  by unfold_locales (rule places_step)

lemma along_slot:
  assumes "set ps \<subseteq> {LeftLocked, LeftFull}" "has_slot (along k w (ps @ [p]))"
  shows "k = w + length ps"
proof (rule ccontr)
  assume k: "k \<noteq> w + length ps"
  then have "has_slot (along k w ps)" using assms(2) by (simp add: along_snoc)
  then have "along k w ps \<in> set ps" by (auto simp: along_def has_slot_def split: if_splits)
  with assms(1) \<open>has_slot (along k w ps)\<close> show False by (auto simp: has_slot_def)
qed

lemma slot_here: "place_ok pl \<Longrightarrow> has_slot (pc_at k pl) \<Longrightarrow> chunk_of pl = Some k"
  by (cases pl) (auto simp: place_ok_def has_slot_def [of Called] dest: along_slot)

lemma trail_at:
  assumes "j < length (trail_of pl)"
  shows "\<exists>w. chunk_of pl = Some (w + length (trail_of pl)) \<and> (\<forall>j < length (trail_of pl). pc_at (w + j) pl = trail_of pl ! j)"
  using assms by (cases pl) (auto simp: along_def nth_append)

text \<open>
  Every full chunk on the way of a caller has a slot that another caller owns, who is at that chunk.
\<close>

lemma full_has_owner:
  assumes "own_run es c gs" "length es < 2 ^ 31 - 1" "i < length gs" "snd (gs ! i) = LeftFull"
  shows "\<exists>j < length gs. has_slot (snd (gs ! j))"
proof -
  have I: "conc_inv (c, gs)" "filled (c, gs)" "left_ok (c, gs)" using own_run_facts [OF assms(1,2)] by simp_all
  then have "cap c \<le> book c" using assms(3,4) by (auto simp: left_ok_def list_all_length)
  with I(2) booked_room(3) [OF I(1)] have "0 < count has_slot gs" by (auto simp: filled_def)
  then have "filter (\<lambda>g. has_slot (snd g)) gs \<noteq> []" by (simp add: count_def)
  then show ?thesis by (metis filter_empty_conv in_set_conv_nth)
qed

lemma injected:
  assumes "\<And>k. k \<in> U \<Longrightarrow> \<exists>j. j \<in> G \<and> f j = Some k" "finite G"
  shows "card U \<le> card G"
proof (rule surj_card_le [OF assms(2)])
  show "U \<subseteq> (the \<circ> f) ` G" using assms(1) by force
qed

lemma trail_bound:
  assumes "ingest_conc\<^sup>*\<^sup>* (ingest_start cfg es) (b, gs)" "length es < 2 ^ 31 - 1" "i < length gs"
  shows "length (trail_of (snd (gs ! i))) \<le> length (filter locked (chain b)) + (length gs - 1)"
proof (cases "trail_of (snd (gs ! i)) = []")
  case False
  let ?pl = "snd (gs ! i)" let ?n = "length (trail_of ?pl)"
  note I = chain_inv_reachable [OF assms(1), unfolded chain_inv_def prod.case]
  have ok: "place_ok (snd (gs ! j))" if "j < length gs" for j
  proof -
    have "list_all (\<lambda>g. place_ok (snd g)) (snd (ingest_start cfg es))"
      by (simp add: ingest_start_def Let_def list_all_iff place_ok_def)
    from passes.reachable [OF assms(1) this] that show ?thesis by (simp add: list_all_length)
  qed
  obtain w where w: "chunk_of ?pl = Some (w + ?n)" "\<And>j. j < ?n \<Longrightarrow> pc_at (w + j) ?pl = trail_of ?pl ! j"
    using trail_at [of 0 ?pl] False by auto
  have len: "w + ?n < length (chain b)" using I assms(3) w(1) by fastforce
  let ?L = "{k. k < length (chain b) \<and> locked (chain b ! k)}"
  let ?U = "{w ..< w + ?n} - ?L"
  have U: "\<exists>j < length gs. j \<noteq> i \<and> chunk_of (snd (gs ! j)) = Some k" if k: "k \<in> ?U" for k
  proof -
    from k len have r: "own_run es (chain b ! k) (view k gs)" and nl: "\<not> locked (chain b ! k)" using I by auto
    have "pc_at k ?pl = trail_of ?pl ! (k - w)" using w(2) [of "k - w"] k by force
    then have v: "snd (view k gs ! i) = trail_of ?pl ! (k - w)" using assms(3) by (simp add: nth_view)
    have "k - w < ?n" using k by auto
    then have "trail_of ?pl ! (k - w) \<in> set (trail_of ?pl)" by (rule nth_mem)
    then have "trail_of ?pl ! (k - w) \<in> {LeftLocked, LeftFull}" using ok [OF assms(3)] unfolding place_ok_def by blast
    moreover have "left_ok (chain b ! k, view k gs)" using own_run_facts [OF r assms(2)] by simp
    then have "trail_of ?pl ! (k - w) \<noteq> LeftLocked" using v nl assms(3) by (auto simp: left_ok_def list_all_length view_def)
    ultimately have full: "snd (view k gs ! i) = LeftFull" using v by simp
    obtain j where j: "j < length gs" "has_slot (snd (view k gs ! j))"
      using full_has_owner [OF r assms(2) _ full] assms(3) by (auto simp: view_def)
    then have "has_slot (pc_at k (snd (gs ! j)))" by (simp add: nth_view)
    with slot_here [OF ok [OF j(1)]] j full show ?thesis by (auto simp: has_slot_def)
  qed
  have u: "card ?U \<le> card ({..< length gs} - {i})"
    by (rule injected [where f = "\<lambda>j. chunk_of (snd (gs ! j))"]) (use U in auto)
  also have "\<dots> = length gs - 1" using assms(3) by simp
  finally have u: "card ?U \<le> length gs - 1" .
  have l: "card ?L = length (filter locked (chain b))" by (simp add: length_filter_conv_card)
  have "?n = card {w ..< w + ?n}" by simp
  also have "\<dots> \<le> card (?L \<union> ?U)" by (intro card_mono) auto
  also have "\<dots> \<le> card ?L + card ?U" by (rule card_Un_le)
  finally show ?thesis using u l by simp
qed simp

text \<open>The steps a caller has made, at least.\<close>

fun progress :: "place \<Rightarrow> nat" where
  "progress Entering = 0"
| "progress (Seen l) = 1"
| "progress (Putting l w trail p) = 2 + 19 * length trail + (18 - rank p)"
| "progress (Returned l w trail s) = 21 + 19 * length trail"
| "progress (Swapped w trail s) = 22 + 19 * length trail"
| "progress (Done w trail s) = 23 + 19 * length trail"

lemma progress_bound: "progress pl \<le> 23 + 19 * length (trail_of pl)"
  by (cases pl) simp_all

lemma progress_step:
  assumes "place_ok pl" "ingest_step e pl b = (b', pl')" "\<nexists>w t n. pl = Done w t n"
  shows "progress pl < progress pl'"
proof (cases pl)
  case (Putting l w trail p)
  have r: "retrying_ok p" using assms(1) Putting by (simp add: place_ok_def)
  show ?thesis
  proof (cases "rank p = 0")
    case True
    then show ?thesis using assms(2) Putting by (cases p) (auto simp: Let_def)
  next
    case False
    obtain c p' where s: "put_step e p (chain b ! (w + length trail)) = (c, p')" by fastforce
    have "pl' = Putting l w trail p'" using assms(2) Putting False s by (cases p) (auto simp: Let_def)
    moreover have "rank p' < rank p" "rank p \<le> 18" using put_wait_free [OF s r] False by auto
    ultimately show ?thesis using Putting by simp
  qed
qed (use assms in \<open>auto split: if_splits\<close>)

text \<open>
  C34 (termination). \<^verbatim>\<open>Ingest\<close> ends, also when \<^verbatim>\<open>Put\<close> goes on to the next chunks: each of its own steps is progress until it
  has returned, and the progress is bounded by the number of other callers and of the chunks that the flusher has locked,
  whatever the others do in between.
\<close>

theorem ingest_ends:
  assumes "ingest_conc\<^sup>*\<^sup>* (ingest_start cfg es) (b, gs)" "length es < 2 ^ 31 - 1" "i < length gs" "gs ! i = (e, pl)"
  shows "progress pl \<le> 23 + 19 * (length (filter locked (chain b)) + (length gs - 1)) \<and>
    (case ingest_step e pl b of (b', pl') \<Rightarrow> progress pl < progress pl' \<or> (b' = b \<and> pl' = pl \<and> (\<exists>w t n. pl = Done w t n)))"
proof -
  have "progress pl \<le> 23 + 19 * (length (filter locked (chain b)) + (length gs - 1))"
    using trail_bound [OF assms(1-3)] progress_bound [of pl] assms(4) by simp
  moreover have "list_all (\<lambda>g. place_ok (snd g)) (snd (ingest_start cfg es))"
    by (simp add: ingest_start_def Let_def list_all_iff place_ok_def)
  from passes.reachable [OF assms(1) this] assms(3,4) have "place_ok pl" by (auto simp: list_all_length)
  then have "case ingest_step e pl b of (b', pl') \<Rightarrow> progress pl < progress pl' \<or> (b' = b \<and> pl' = pl \<and> (\<exists>w t n. pl = Done w t n))"
    using progress_step by (cases "\<exists>w t n. pl = Done w t n") (auto split: prod.splits)
  ultimately show ?thesis ..
qed

theorem ingest_ends_witness:
  "snd spilled ! 1 = (entry_at 6 ''b'', Done 0 [LeftFull] 0) \<and> progress (Done 0 [LeftFull] 0) \<le> 23 + 19 * (0 + (2 - 1))"
proof -
  have f: "length (snd spilled) = 2" "snd spilled ! 1 = (entry_at 6 ''b'', Done 0 [LeftFull] 0)" "filter locked (chain (fst spilled)) = []"
    by code_simp+
  from ingest_ends [OF spilled_reachable _ _ f(2)] f show ?thesis by simp
qed

end
