(* ===== verification/IngesterLog.thy ===== *)
theory IngesterLog imports Ingester begin

text \<open>
  What the ingester does with the log: the drain of \<^verbatim>\<open>Close\<close> ends, and for any storage that keeps
  the contract of \<^verbatim>\<open>storage.go\<close> the entries stored and waiting are part of the log, in its order.
\<close>

subsection \<open>The drain ends\<close>

text \<open>
  While the quit branch drains: its chunk is locked, the non-empty chunks come first, and no
  chunk has used up its retries.
\<close>

definition draining :: "nat \<Rightarrow> ingester \<Rightarrow> bool" where
  "draining k i =
     (config_ok (config i) \<and> k < length (chunks i) \<and> list_all wf_chunk (chunks i) \<and>
      (\<exists>n p. map Empty (drop k (chunks i)) = replicate n False @ replicate p True) \<and>
      list_all (\<lambda>c. 0 \<le> retries c \<and> retries c \<le> MaxFlushRetry (config i)) (drop (Suc k) (chunks i)))"

definition drain_inv :: "nat \<Rightarrow> ingester \<Rightarrow> bool" where
  "drain_inv k i =
     (draining k i \<and> locked (chunks i ! k) \<and>
      0 \<le> retries (chunks i ! k) \<and> retries (chunks i ! k) \<le> MaxFlushRetry (config i))"

text \<open>The same entries, chunk by chunk, with the same configuration.\<close>

definition same_chain :: "nat \<Rightarrow> ingester \<Rightarrow> ingester \<Rightarrow> bool" where
  "same_chain k i i' =
     (written (drop k (chunks i')) = written (drop k (chunks i)) \<and>
      written (chunks i') = written (chunks i) \<and> config i' = config i \<and> quit i' = quit i)"

lemma same_chain_trans: "same_chain k i j \<Longrightarrow> same_chain k j l \<Longrightarrow> same_chain k i l"
  by (simp add: same_chain_def)

lemma written_grow_drop: "list_all new_chunk new \<Longrightarrow> written (drop f (cs @ new)) = written (drop f cs)"
proof -
  assume "list_all new_chunk new"
  then have "list_all fresh (drop n new)" for n
    by (auto simp: list_all_iff new_chunk_def dest: in_set_dropD)
  then show ?thesis by (simp add: written_simps written_fresh)
qed

lemma locked_Lock [simp]: "locked (Lock c)" "retries (Lock c) = retries c" "contents (Lock c) = contents c"
  by (simp_all add: Lock_def)

lemma wf_Lock: "wf_chunk c \<Longrightarrow> wf_chunk (Lock c)"
  by (simp add: wf_chunk_def Lock_def)

lemma wf_retry: "wf_chunk c \<Longrightarrow> wf_chunk (add_retry c)"
  by (simp add: wf_chunk_def add_retry_def)

lemma at_chunk_simps [simp]:
  "chunks (at_chunk k g i) = (chunks i)[k := g (chunks i ! k)]" "config (at_chunk k g i) = config i"
  "quit (at_chunk k g i) = quit i" "flushChunk (at_chunk k g i) = flushChunk i"
  by (simp_all add: at_chunk_def)

lemma at_chunk_same: "contents (g (chunks i ! k)) = contents (chunks i ! k) \<Longrightarrow> same_chain j i (at_chunk k g i)"
  by (simp add: same_chain_def written_update)

lemma map_Empty_update:
  assumes "Empty x = Empty (cs ! k)"
  shows "map Empty (drop j (cs[k := x])) = map Empty (drop j cs)"
proof -
  have "map Empty (cs[k := x]) = map Empty cs"
    using assms by (cases "k < length cs") (auto simp: map_update list_update_beyond list_update_same_conv)
  then show ?thesis by (metis drop_map)
qed

lemma nonempty_map: "length (nonempty xs) = length (filter Not (map Empty xs))"
  by (simp add: filter_map comp_def)

lemma lock_next_keeps:
  assumes d: "draining k i" and ne: "\<not> Empty (chunks i ! k)"
  shows "drain_inv (Suc k) (lock_next k i)" "same_chain (Suc k) i (lock_next k i)"
    "length (nonempty (drop (Suc k) (chunks (lock_next k i)))) < length (nonempty (drop k (chunks i)))"
proof -
  let ?cs = "chunks i"
  have k: "k < length ?cs" and wf: "list_all wf_chunk ?cs" using d by (auto simp: draining_def)
  obtain new where new: "link_next ?cs k = ?cs @ new" "list_all new_chunk new"
    using link_appends [OF wf k] by blast
  have l: "chunks (lock_next k i) = (?cs @ new)[Suc k := Lock ((?cs @ new) ! Suc k)]"
    "config (lock_next k i) = config i" "quit (lock_next k i) = quit i"
    by (simp_all add: lock_next_def init_at_def new)
  have Sk: "Suc k < length (?cs @ new)" using length_link_next [OF k] by (simp add: new)
  have wf': "list_all wf_chunk (chunks (lock_next k i))"
    using wf new(2) new_wf Sk unfolding l by (intro list_all_update) (auto simp: list_all_iff wf_Lock)
  obtain n p where np: "map Empty (drop k ?cs) = replicate n False @ replicate p True"
    using d by (auto simp: draining_def)
  have "map Empty (drop k ?cs) = False # map Empty (drop (Suc k) ?cs)"
    using ne k by (simp add: Cons_nth_drop_Suc [symmetric])
  with np obtain n' where n': "n = Suc n'" "map Empty (drop (Suc k) ?cs) = replicate n' False @ replicate p True"
    by (cases n; cases p) auto
  have "map Empty new = replicate (length new) True"
    using new(2) by (intro nth_equalityI) (auto simp: list_all_length new_chunk_def fresh_def Empty_def)
  then have "map Empty (drop (Suc k) (?cs @ new)) = replicate n' False @ replicate (p + length new) True"
    using n' k by (simp add: replicate_add)
  then have np': "map Empty (drop (Suc k) (chunks (lock_next k i))) = replicate n' False @ replicate (p + length new) True"
    unfolding l by (subst map_Empty_update) simp_all
  have m: "0 \<le> MaxFlushRetry (config i)" using d by (simp add: draining_def config_ok_def)
  have "list_all (\<lambda>c. 0 \<le> retries c \<and> retries c \<le> MaxFlushRetry (config i)) (drop (Suc k) (?cs @ new))"
    using d m new(2) by (auto simp: draining_def list_all_iff new_chunk_def dest: in_set_dropD)
  then have re: "list_all (\<lambda>c. 0 \<le> retries c \<and> retries c \<le> MaxFlushRetry (config i)) (drop (Suc k) (chunks (lock_next k i)))"
    unfolding l by (rule list_all_drop_update) simp
  then have "retries (chunks (lock_next k i) ! Suc k) \<in> {0..MaxFlushRetry (config i)}"
    using Sk by (auto simp: list_all_length l dest: spec [of _ 0])
  moreover have "list_all (\<lambda>c. 0 \<le> retries c \<and> retries c \<le> MaxFlushRetry (config i)) (drop (Suc (Suc k)) (chunks (lock_next k i)))"
    using re set_drop_subset_set_drop [of "Suc k" "Suc (Suc k)" "chunks (lock_next k i)"]
    by (auto simp: list_all_iff)
  ultimately show "drain_inv (Suc k) (lock_next k i)"
    using d Sk wf' np' by (auto simp: drain_inv_def draining_def l)
  show "same_chain (Suc k) i (lock_next k i)"
    using new(2) by (simp add: same_chain_def l written_update written_grow_drop written_grow del: drop_append)
  show "length (nonempty (drop (Suc k) (chunks (lock_next k i)))) < length (nonempty (drop k ?cs))"
    unfolding nonempty_map np np' n'(1) by simp
qed

lemma draining_update:
  assumes "drain_inv k i" "wf_chunk x" "Empty x = Empty (chunks i ! k)"
  shows "draining k (i\<lparr>chunks := (chunks i)[k := x]\<rparr>)"
  using assms by (auto simp: drain_inv_def draining_def map_Empty_update intro!: list_all_update)

lemma retry_keeps:
  assumes d: "drain_inv k i"
  shows "draining k (at_chunk k add_retry i)" "same_chain j i (at_chunk k add_retry i)"
    "retries (chunks (at_chunk k add_retry i) ! k) = retries (chunks i ! k) + 1"
    "map Empty (chunks (at_chunk k add_retry i)) = map Empty (chunks i)"
proof -
  let ?c = "chunks i ! k"
  have k: "k < length (chunks i)" using d by (simp add: drain_inv_def draining_def)
  have "retries (add_retry ?c) = retries ?c + 1"
    using d by (simp add: add_retry_def i32_id drain_inv_def draining_def config_ok_def)
  then show "retries (chunks (at_chunk k add_retry i) ! k) = retries ?c + 1" using k by simp
  show "same_chain j i (at_chunk k add_retry i)" by (rule at_chunk_same) (simp add: add_retry_def)
  have "wf_chunk ?c" using d k by (auto simp: drain_inv_def draining_def list_all_length)
  then show "draining k (at_chunk k add_retry i)"
    using draining_update [OF d wf_retry] by (simp add: at_chunk_def)
  show "map Empty (chunks (at_chunk k add_retry i)) = map Empty (chunks i)"
    using map_Empty_update [of "add_retry ?c" "chunks i" k 0] by simp
qed

lemma drain_rule:
  assumes "drain_inv k i" and "Q k i s"
    and flushed: "\<And>k i s s' i'. drain_inv k i \<Longrightarrow> Q k i s \<Longrightarrow> Flush S (chunks i ! k) s = (None, s')
      \<Longrightarrow> same_chain (Suc k) i i' \<Longrightarrow> Q (Suc k) i' s'"
    and gave_up: "\<And>k i s s' err i'. drain_inv k i \<Longrightarrow> Q k i s \<Longrightarrow> Flush S (chunks i ! k) s = (Some err, s')
      \<Longrightarrow> retries (chunks i ! k) = MaxFlushRetry (config i) \<Longrightarrow> same_chain (Suc k) i i' \<Longrightarrow> Q (Suc k) i' s'"
    and failed: "\<And>k i s s' err i'. drain_inv k i \<Longrightarrow> Q k i s \<Longrightarrow> Flush S (chunks i ! k) s = (Some err, s')
      \<Longrightarrow> same_chain k i i' \<Longrightarrow> Q k i' s'"
  shows "\<exists>k' i' s'. drain S t k i s = Some (k', i', s') \<and> drain_inv k' i' \<and> Q k' i' s' \<and> Empty (chunks i' ! k')"
  using assms(1,2)
proof (induction "length (nonempty (drop k (chunks i))) * nat (MaxFlushRetry (config i) + 2)
      + nat (MaxFlushRetry (config i) - retries (chunks i ! k))"
    arbitrary: k i s rule: less_induct)
  case less
  let ?c = "chunks i ! k" and ?m = "MaxFlushRetry (config i)"
  note d = less.prems(1)
  have k: "k < length (chunks i)" using d by (simp add: drain_inv_def draining_def)
  show ?case
  proof (cases "Empty ?c")
    case True
    then show ?thesis using less.prems by (subst drain.simps) auto
  next
    case ne: False
    have wf: "wf_chunk ?c" "locked ?c" and re: "0 \<le> retries ?c" "retries ?c \<le> ?m"
      using d k by (auto simp: drain_inv_def draining_def list_all_length)
    have rd: "Ready ?c" using wf ne by (auto simp: Ready_iff Empty_def wf_chunk_def)
    have move: "\<exists>k' i' s'. drain S t (Suc k) (lock_next k j) u = Some (k', i', s') \<and> drain_inv k' i'
        \<and> Q k' i' s' \<and> Empty (chunks i' ! k')"
      if j: "draining k j" "config j = config i" "map Empty (chunks j) = map Empty (chunks i)"
        "Q (Suc k) (lock_next k j) u" for j u
    proof -
      have ej: "\<not> Empty (chunks j ! k)"
        using ne k j(3) by (metis length_map nth_map)
      have same: "config (lock_next k j) = config i"
        using lock_next_keeps(2) [OF j(1) ej] j(2) by (simp add: same_chain_def)
      have L: "length (nonempty (drop k (chunks j))) = length (nonempty (drop k (chunks i)))"
        unfolding nonempty_map using j(3) by (metis drop_map)
      let ?i' = "lock_next k j"
      have r0: "0 \<le> retries (chunks ?i' ! Suc k)"
        using lock_next_keeps(1) [OF j(1) ej] by (simp add: drain_inv_def)
      have less: "length (nonempty (drop (Suc k) (chunks ?i'))) < length (nonempty (drop k (chunks i)))"
        using lock_next_keeps(3) [OF j(1) ej] L by simp
      have "length (nonempty (drop (Suc k) (chunks ?i'))) * nat (?m + 2) + nat (?m - retries (chunks ?i' ! Suc k))
          < (length (nonempty (drop (Suc k) (chunks ?i'))) + 1) * nat (?m + 2)"
        using r0 re by simp
      also have "\<dots> \<le> length (nonempty (drop k (chunks i))) * nat (?m + 2)"
        using less by (intro mult_le_mono1) simp
      finally have "length (nonempty (drop (Suc k) (chunks ?i'))) * nat (?m + 2)
          + nat (?m - retries (chunks ?i' ! Suc k))
          < length (nonempty (drop k (chunks i))) * nat (?m + 2) + nat (?m - retries ?c)" by simp
      with less.hyps [of "Suc k" ?i' u] lock_next_keeps(1) [OF j(1) ej] j(4) same show ?thesis by simp
    qed
    show ?thesis
    proof (cases "Flush S ?c s")
      case (Pair r s')
      show ?thesis
      proof (cases r)
        case None
        have "drain S t k i s = drain S t (Suc k) (lock_next k i) s'"
          using ne rd Pair None by (subst drain.simps) (simp add: Let_def)
        then show ?thesis
          using move [OF _ refl refl flushed [OF d less.prems(2)]] Pair None d
            lock_next_keeps(2) [OF _ ne] by (simp add: drain_inv_def)
      next
        case (Some err)
        let ?j = "at_chunk k add_retry i"
        note rk = retry_keeps [OF d]
        have ej: "\<not> Empty (chunks ?j ! k)" using ne k by simp
        show ?thesis
        proof (cases "retries ?c < ?m")
          case True
          have L: "length (nonempty (drop k (chunks ?j))) = length (nonempty (drop k (chunks i)))"
            using nonempty_update [of add_retry "chunks i" k k] by simp
          have "drain S t k i s = drain S t k ?j s'"
            using ne rd Pair Some True rk(3) by (subst drain.simps) (simp add: Let_def)
          moreover have "nat (?m - retries (chunks ?j ! k)) < nat (?m - retries ?c)"
            using rk(3) True by simp
          moreover have "drain_inv k ?j"
            using rk(1,3) True re d k by (auto simp: drain_inv_def add_retry_def)
          ultimately show ?thesis
            using less.hyps [of k ?j s'] failed [OF d less.prems(2) _ rk(2)] Pair Some L by simp
        next
          case False
          then have eq: "retries ?c = ?m" using re by simp
          have sc: "same_chain (Suc k) i (lock_next k ?j)"
            using same_chain_trans [OF rk(2) lock_next_keeps(2) [OF rk(1) ej]] .
          have "drain S t k i s = drain S t (Suc k) (lock_next k ?j) s'"
            using ne rd Pair Some eq rk(3) by (subst drain.simps) (simp add: Let_def)
          then show ?thesis
            using move [OF rk(1) _ rk(4) gave_up [OF d less.prems(2) _ eq sc]] Pair Some by simp
        qed
      qed
    qed
  qed
qed

subsection \<open>What becomes of the log\<close>

lemma pending_advanced:
  assumes "advanced i x i'" "contents x = contents (to_flush i)" "flushChunk i < length (chunks i)"
  shows "pending i = contents (to_flush i) @ pending i'" "written (chunks i') = written (chunks i)"
    "config i' = config i" "quit i' = quit i"
proof -
  obtain new where new: "list_all new_chunk new" "flushChunk i' = Suc (flushChunk i)"
    "chunks i' = (chunks i)[flushChunk i := x] @ new" "config i' = config i" "quit i' = quit i"
    using assms(1) by (auto simp: advanced_def)
  have "written (drop (Suc (flushChunk i)) (chunks i')) = written (drop (Suc (flushChunk i)) (chunks i))"
    unfolding new(3) written_grow_drop [OF new(1)] by simp
  then show "pending i = contents (to_flush i) @ pending i'"
    unfolding pending_def new(2) using assms(3)
    by (simp add: Cons_nth_drop_Suc [symmetric] written_simps to_flush_def)
  show "written (chunks i') = written (chunks i)"
    unfolding new(3) written_grow [OF new(1)] using assms(2) by (simp add: written_update to_flush_def)
  show "config i' = config i" "quit i' = quit i" using new by simp_all
qed

lemma pending_updated:
  assumes "updated i x i'" "contents x = contents (to_flush i)"
  shows "pending i' = pending i" "written (chunks i') = written (chunks i)" "config i' = config i"
    "quit i' = quit i"
  using assms by (auto simp: updated_def pending_def written_grow written_grow_drop to_flush_def
      written_update simp del: drop_append)

lemma retry_contents [simp]: "contents (add_retry c) = contents c"
  by (simp add: add_retry_def)

lemma inv_flush: "ingester_inv i \<Longrightarrow> flushChunk i < length (chunks i)"
  by (simp add: ingester_inv_def)

lemma to_flush_wf: "ingester_inv i \<Longrightarrow> wf_chunk (to_flush i)"
  using inv_wf by (auto simp: to_flush_def ingester_inv_def list_all_length)

lemma dirty_settled:
  assumes i: "ingester_inv i" "dirty i > MaxDirtyChunks (config i)" and s: "settled Q S i"
  shows "\<exists>j s err s'. ingester_inv j \<and> Q j s \<and> Flush S (to_flush j) s = (Some err, s')"
  using dirty_target [OF i] s by (auto simp: settled_def)

text \<open>Nothing is invented, duplicated or reordered: what is stored or waits is part of the log.\<close>

definition in_log :: "('s \<Rightarrow> Entry list) \<Rightarrow> Entry list \<Rightarrow> IngesterConfig \<Rightarrow> Entry list
    \<Rightarrow> ingester \<Rightarrow> 's \<Rightarrow> bool" where
  "in_log persisted H cfg W i s =
     (subseq (persisted s @ pending i) H \<and> written (chunks i) = W \<and> config i = cfg)"

lemma subseq_drop_mid: "subseq (a @ b @ c) H \<Longrightarrow> subseq (a @ c) H"
  by (rule subseq_order.trans [of _ "a @ b @ c"]) (auto simp: subseq_append' intro: list_emb_append2)

lemma subseq_keep_mid:
  assumes "subseq (a @ b @ c) H" "subseq es b"
  shows "subseq (a @ es @ c) H"
proof -
  have "subseq (a @ es @ c) (a @ b @ c)" using assms(2) by (simp add: subseq_append')
  then show ?thesis using assms(1) by (rule subseq_order.trans)
qed

text \<open>
  A storage that never fails loses nothing, and the memory limit is never met: it \<open>holds\<close> what was flushed, and
  the rest waits.
\<close>

definition all_kept :: "('s \<Rightarrow> Entry list \<Rightarrow> bool) \<Rightarrow> Entry list \<Rightarrow> IngesterConfig \<Rightarrow> Entry list
    \<Rightarrow> ingester \<Rightarrow> 's \<Rightarrow> bool" where
  "all_kept holds H cfg W i s =
     ((\<exists>es. holds s es \<and> es @ pending i = H) \<and> written (chunks i) = W \<and> config i = cfg)"

lemma to_flush_pending:
  assumes "ingester_inv i"
  shows "set (contents (to_flush i)) \<subseteq> set (pending i)"
proof -
  have "drop (flushChunk i) (chunks i) = to_flush i # drop (Suc (flushChunk i)) (chunks i)"
    using assms by (simp add: ingester_inv_def to_flush_def Cons_nth_drop_Suc)
  then show ?thesis by (simp add: pending_def written_simps)
qed

lemma pending_write:
  assumes "written (take f cs') = written (take f cs)" "written cs' = written cs @ es"
  shows "written (drop f cs') = written (drop f cs) @ es"
  using written_take_drop [of f cs'] written_take_drop [of f cs] assms by (metis append.assoc same_append_eq)

lemma drain_start:
  assumes i: "ingester_inv i"
  shows "drain_inv (flushChunk i) (at_chunk (flushChunk i) Lock (i\<lparr>quit := True\<rparr>))"
proof -
  let ?cs = "chunks i" and ?f = "flushChunk i" and ?w = "writeChunk i"
  have fr: "frontier ?cs ?w" and f: "?f < length ?cs" "?f \<le> Suc ?w" and w: "?w < length ?cs"
    using i by (auto simp: ingester_inv_def frontier_def)
  have ne: "\<not> Empty (?cs ! j)" if "j < ?w" for j
  proof -
    have "chunk_ok (MaxFlushRetry (config i)) (?cs ! j)" using i that w by (auto simp: ingester_inv_def list_all_length)
    then have "wf_chunk (?cs ! j)" "book (?cs ! j) < 2 ^ 31 - 1" "locked (?cs ! j) \<longrightarrow> 0 < book (?cs ! j)"
      by (auto simp: chunk_ok_def wf_chunk_def)
    with frontier_before [OF fr that] show ?thesis by (auto simp: rejects_iff Empty_def wf_chunk_def)
  qed
  have em: "Empty (?cs ! j)" if "?w < j" "j < length ?cs" for j
    using frontier_after [OF fr that] by (simp add: fresh_def Empty_def)
  have "\<exists>n p. map Empty (drop ?f ?cs) = replicate n False @ replicate p True"
  proof -
    let ?n = "(if Empty (?cs ! ?w) then ?w else Suc ?w) - ?f"
    have "Empty (?cs ! (?f + j)) = (j \<ge> ?n)" if "?f + j < length ?cs" for j
      using that ne [of "?f + j"] em [of "?f + j"] f(2)
      by (cases "?f + j" ?w rule: linorder_cases) auto
    then have "map Empty (drop ?f ?cs) = replicate ?n False @ replicate (length ?cs - ?f - ?n) True"
      using f w by (intro nth_equalityI) (auto simp: nth_append)
    then show ?thesis by blast
  qed
  then obtain n p where np: "map Empty (drop ?f ?cs) = replicate n False @ replicate p True" by blast
  have re: "list_all (\<lambda>c. 0 \<le> retries c \<and> retries c \<le> MaxFlushRetry (config i)) (drop ?f ?cs)"
    using i by (auto simp: ingester_inv_def list_all_iff chunk_ok_def dest: in_set_dropD)
  then have "list_all (\<lambda>c. 0 \<le> retries c \<and> retries c \<le> MaxFlushRetry (config i)) (drop (Suc ?f) ?cs)"
    using set_drop_subset_set_drop [of ?f "Suc ?f" ?cs] by (auto simp: list_all_iff)
  moreover have "0 \<le> retries (?cs ! ?f) \<and> retries (?cs ! ?f) \<le> MaxFlushRetry (config i)"
    using re f(1) by (auto simp: list_all_length dest: spec [of _ 0])
  moreover have "list_all wf_chunk (?cs[?f := Lock (?cs ! ?f)])"
    using inv_wf [OF i] wf_Lock by (auto intro!: list_all_update)
  ultimately show ?thesis
    using i f(1) np by (auto simp: drain_inv_def draining_def map_Empty_update ingester_inv_def)
qed

lemma drain_step:
  assumes "drain_inv k i"
  shows "written (drop k (chunks i)) = contents (chunks i ! k) @ written (drop (Suc k) (chunks i))"
    "wf_chunk (chunks i ! k)"
  using assms by (auto simp: drain_inv_def draining_def Cons_nth_drop_Suc [symmetric] written_simps list_all_length)

lemma drain_end:
  assumes d: "drain_inv k i" and e: "Empty (chunks i ! k)"
  shows "written (drop k (chunks i)) = []"
proof -
  obtain n p where np: "map Empty (drop k (chunks i)) = replicate n False @ replicate p True"
    using d by (auto simp: drain_inv_def draining_def)
  have "map Empty (drop k (chunks i)) = True # map Empty (drop (Suc k) (chunks i))"
    using d e by (simp add: drain_inv_def draining_def Cons_nth_drop_Suc [symmetric])
  then have "n = 0" using np by (cases n) auto
  then have "\<forall>c \<in> set (drop k (chunks i)). Empty c"
    using np by (metis append_Nil in_set_conv_nth in_set_replicate length_map nth_map nth_mem replicate_0)
  moreover have "\<forall>c \<in> set (drop k (chunks i)). wf_chunk c"
    using d by (auto simp: drain_inv_def draining_def list_all_iff dest: in_set_dropD)
  moreover have "contents c = []" if "wf_chunk c" "Empty c" for c
    using that length_contents [of c] by (simp add: wf_chunk_def Empty_def)
  ultimately show ?thesis by (auto simp: written_def)
qed

text \<open>
  What a storage promises, for its own notion of the entries it holds: a flush that succeeds
  appends entries of the chunk in their order, one that fails changes nothing.
\<close>

locale storage_contract =
  fixes S :: "'s Storage" and persisted :: "'s \<Rightarrow> Entry list"
  assumes flush_ok: "wf_chunk c \<Longrightarrow> Flush S c s = (None, s')
      \<Longrightarrow> \<exists>es. subseq es (contents c) \<and> persisted s' = persisted s @ es"
    and flush_failed: "Flush S c s = (Some err, s') \<Longrightarrow> persisted s' = persisted s"
    and close_keeps: "persisted (snd (CloseStorage S s)) = persisted s"
begin

lemma routine_in_log:
  assumes "ingester_inv i" "in_log persisted H cfg W i s"
  shows "\<exists>i' s'. doRoutineCheck S now i s = Some (Inr (i', s')) \<and> ingester_inv i' \<and> in_log persisted H cfg W i' s'
    \<and> dirty i' \<le> MaxDirtyChunks (config i')"
proof (rule routine_rule [where Q = "in_log persisted H cfg W", OF assms])
  fix i i' :: ingester and s s' :: 's
  assume i: "ingester_inv i" and q: "in_log persisted H cfg W i s" and f: "Flush S (to_flush i) s = (None, s')"
    and a: "advanced i (to_flush i) i'"
  show "in_log persisted H cfg W i' s'"
    using q pending_advanced [OF a refl inv_flush [OF i]] flush_ok [OF to_flush_wf [OF i] f]
    by (auto simp: in_log_def intro: subseq_keep_mid)
next
  fix i i' :: ingester and s s' :: 's and err
  assume i: "ingester_inv i" and q: "in_log persisted H cfg W i s" and f: "Flush S (to_flush i) s = (Some err, s')"
    and a: "advanced i (add_retry (to_flush i)) i'"
  show "in_log persisted H cfg W i' s'"
    using q pending_advanced [OF a _ inv_flush [OF i]] flush_failed [OF f]
    by (auto simp: in_log_def intro: subseq_drop_mid)
next
  fix i i' :: ingester and s s' :: 's and err
  assume q: "in_log persisted H cfg W i s" and f: "Flush S (to_flush i) s = (Some err, s')"
    and u: "updated i (add_retry (to_flush i)) i'"
  show "in_log persisted H cfg W i' s'"
    using q pending_updated [OF u] flush_failed [OF f] by (simp add: in_log_def)
next
  fix i i' :: ingester and s :: 's and x
  assume q: "in_log persisted H cfg W i s" and u: "updated i x i'" "x = to_flush i \<or> x = Lock (to_flush i)"
  show "in_log persisted H cfg W i' s"
    using q u pending_updated [OF u(1)] by (auto simp: in_log_def)
next
  fix i i' :: ingester and s :: 's
  assume i: "ingester_inv i" and q: "in_log persisted H cfg W i s" and a: "advanced i (to_flush i) i'"
  show "in_log persisted H cfg W i' s"
    using q pending_advanced [OF a _ inv_flush [OF i]]
    by (auto simp: in_log_def intro: subseq_drop_mid)
qed

lemma close_in_log:
  assumes i: "ingester_inv i" and q: "in_log persisted H cfg W i s"
  shows "\<exists>i' s'. Close S i s = Some (None, i', s') \<and> quit i' \<and> subseq (persisted s') H \<and> written (chunks i') = W"
proof -
  let ?i = "at_chunk (flushChunk i) Lock (i\<lparr>quit := True\<rparr>)"
  have "\<exists>k' i' s'. drain S 0 (flushChunk i) ?i s = Some (k', i', s') \<and> drain_inv k' i'
      \<and> (subseq (persisted s' @ written (drop k' (chunks i'))) H \<and> written (chunks i') = W \<and> quit i')
      \<and> Empty (chunks i' ! k')"
  proof (rule drain_rule [OF drain_start [OF i]])
    show "subseq (persisted s @ written (drop (flushChunk i) (chunks ?i))) H \<and> written (chunks ?i) = W \<and> quit ?i"
      using q by (simp add: in_log_def pending_def written_update)
  next
    fix k i s s' i'
    assume d: "drain_inv k i" and f: "Flush S (chunks i ! k) s = (None, s')" and c: "same_chain (Suc k) i i'"
      and q: "subseq (persisted s @ written (drop k (chunks i))) H \<and> written (chunks i) = W \<and> quit i"
    show "subseq (persisted s' @ written (drop (Suc k) (chunks i'))) H \<and> written (chunks i') = W \<and> quit i'"
      using q c drain_step [OF d] flush_ok [OF drain_step(2) [OF d] f]
      by (auto simp: same_chain_def intro: subseq_keep_mid)
  next
    fix k i s s' err i'
    assume d: "drain_inv k i" and f: "Flush S (chunks i ! k) s = (Some err, s')" and c: "same_chain (Suc k) i i'"
      and q: "subseq (persisted s @ written (drop k (chunks i))) H \<and> written (chunks i) = W \<and> quit i"
    show "subseq (persisted s' @ written (drop (Suc k) (chunks i'))) H \<and> written (chunks i') = W \<and> quit i'"
      using q c drain_step [OF d] flush_failed [OF f] by (auto simp: same_chain_def intro: subseq_drop_mid)
  next
    fix k i s s' err i'
    assume f: "Flush S (chunks i ! k) s = (Some err, s')" and c: "same_chain k i i'"
      and q: "subseq (persisted s @ written (drop k (chunks i))) H \<and> written (chunks i) = W \<and> quit i"
    show "subseq (persisted s' @ written (drop k (chunks i'))) H \<and> written (chunks i') = W \<and> quit i'"
      using q c flush_failed [OF f] by (simp add: same_chain_def)
  qed
  then obtain k' i' s' where r: "drain S 0 (flushChunk i) ?i s = Some (k', i', s')" "drain_inv k' i'"
    "subseq (persisted s' @ written (drop k' (chunks i'))) H" "written (chunks i') = W" "quit i'"
    "Empty (chunks i' ! k')" by blast
  then show ?thesis
    using i drain_end [OF r(2,6)] by (auto simp: Close_def quit_routine_def Let_def ingester_inv_def close_keeps)
qed

lemma run_in_log:
  assumes "Stop \<notin> set evs" "ingester_inv i" "in_log persisted H cfg W i s"
  shows "\<exists>i' s'. run S evs (i, s) = Some (Inr (i', s')) \<and> ingester_inv i'
    \<and> in_log persisted (H @ logged evs) cfg (W @ logged evs) i' s'"
  using assms
proof (induction evs arbitrary: i s H W)
  case (Cons ev evs)
  show ?case
  proof (cases ev)
    case (Log t l b)
    obtain i' where i': "Ingest t l b i = Inr i'" "ingester_inv i'" "config i' = config i"
      "written (chunks i') = written (chunks i) @ logged [ev]"
      "written (take (flushChunk i) (chunks i')) = written (take (flushChunk i) (chunks i))"
      "flushChunk i' = flushChunk i"
      using Ingest_keeps [OF Cons.prems(2), of t l b] Log by auto
    have "pending i' = pending i @ logged [ev]"
      unfolding pending_def using pending_write [OF i'(5)] i'(4,6) by simp
    then have "in_log persisted (H @ logged [ev]) cfg (W @ logged [ev]) i' s"
      using Cons.prems(3) i' by (simp add: in_log_def del: append_assoc flip: append_assoc)
    from Cons.IH [OF _ i'(2) this] Cons.prems(1) Log i'(1) show ?thesis by simp
  next
    case (Tick now)
    have nq: "\<not> quit i" using Cons.prems(2) by (simp add: ingester_inv_def)
    obtain i' s' where i': "doRoutineCheck S now i s = Some (Inr (i', s'))" "ingester_inv i'"
      "in_log persisted H cfg W i' s'"
      using routine_in_log [OF Cons.prems(2,3)] by blast
    from Cons.IH [OF _ i'(2,3)] Cons.prems(1) Tick i'(1) nq show ?thesis by simp
  qed (use Cons.prems in simp)
qed simp

end

text \<open>
  What a storage promises that does not fail: as long as it \<open>holds\<close> a list of entries, it takes every chunk with
  entries of \<open>E\<close>, and then holds them as well, after the others. In other states it may fail.
\<close>

locale kept_storage =
  fixes S :: "'s Storage" and holds :: "'s \<Rightarrow> Entry list \<Rightarrow> bool" and E :: "Entry set"
  assumes flush_kept: "holds s es \<Longrightarrow> wf_chunk c \<Longrightarrow> set (contents c) \<subseteq> E
      \<Longrightarrow> \<exists>s'. Flush S c s = (None, s') \<and> holds s' (es @ contents c)"
begin

lemma kept_flush:
  assumes "set H \<subseteq> E" "es @ contents c @ rest = H" "wf_chunk c" "holds s es" "Flush S c s = (r, s')"
  shows "r = None \<and> holds s' (es @ contents c)"
  using flush_kept [OF assms(4,3)] assms by fastforce

lemma routine_flush:
  assumes "set H \<subseteq> E" "ingester_inv i" "all_kept holds H cfg W i s" "Flush S (to_flush i) s = (r, s')"
  shows "r = None \<and> (\<exists>es. holds s' (es @ contents (to_flush i)) \<and> es @ pending i = H)"
proof -
  have "drop (flushChunk i) (chunks i) = to_flush i # drop (Suc (flushChunk i)) (chunks i)"
    using inv_flush [OF assms(2)] by (simp add: to_flush_def Cons_nth_drop_Suc)
  then have "pending i = contents (to_flush i) @ written (drop (Suc (flushChunk i)) (chunks i))"
    by (simp add: pending_def written_simps)
  with kept_flush [OF assms(1) _ to_flush_wf [OF assms(2)] _ assms(4)] assms(3) show ?thesis
    by (fastforce simp: all_kept_def)
qed

lemma routine_all_kept:
  assumes H: "set H \<subseteq> E" and "ingester_inv i" "all_kept holds H cfg W i s"
  shows "\<exists>i' s'. doRoutineCheck S now i s = Some (Inr (i', s')) \<and> ingester_inv i' \<and> all_kept holds H cfg W i' s'
    \<and> dirty i' \<le> MaxDirtyChunks (config i')"
proof (rule routine_rule [where Q = "all_kept holds H cfg W", OF assms(2,3)])
  fix i i' :: ingester and s s' :: 's
  assume i: "ingester_inv i" and q: "all_kept holds H cfg W i s" and f: "Flush S (to_flush i) s = (None, s')"
    and a: "advanced i (to_flush i) i'"
  show "all_kept holds H cfg W i' s'"
    using routine_flush [OF H i q f] q pending_advanced [OF a refl inv_flush [OF i]] by (fastforce simp: all_kept_def)
next
  fix i i' :: ingester and s :: 's and x
  assume q: "all_kept holds H cfg W i s" and u: "updated i x i'" "x = to_flush i \<or> x = Lock (to_flush i)"
  show "all_kept holds H cfg W i' s"
    using q u pending_updated [OF u(1)] by (auto simp: all_kept_def)
next
  fix i' :: ingester and s :: 's
  assume "\<exists>j. ingester_inv j \<and> settled (all_kept holds H cfg W) S j \<and> dirty j > MaxDirtyChunks (config j)"
  then show "all_kept holds H cfg W i' s"
    using dirty_settled routine_flush [OF H] by (metis option.distinct(1))
qed (use routine_flush [OF H] in \<open>metis option.distinct(1)\<close>)+

lemma close_all_kept:
  assumes H: "set H \<subseteq> E" and i: "ingester_inv i" and q: "all_kept holds H cfg W i s"
  shows "\<exists>i' s'. Close S i s = Some (None, i', snd (CloseStorage S s')) \<and> quit i' \<and> holds s' H \<and> written (chunks i') = W"
proof -
  let ?i = "at_chunk (flushChunk i) Lock (i\<lparr>quit := True\<rparr>)"
  let ?Q = "\<lambda>k i s. (\<exists>es. holds s es \<and> es @ written (drop k (chunks i)) = H) \<and> written (chunks i) = W \<and> quit i"
  have taken: "r = None \<and> (\<exists>es. holds s' (es @ contents (chunks i ! k)) \<and> es @ written (drop k (chunks i)) = H)"
    if "drain_inv k i" "?Q k i s" "Flush S (chunks i ! k) s = (r, s')" for k i s r s'
    using that(2) kept_flush [OF H _ drain_step(2) [OF that(1)] _ that(3)] drain_step(1) [OF that(1)] by fastforce
  have "\<exists>k' i' s'. drain S 0 (flushChunk i) ?i s = Some (k', i', s') \<and> drain_inv k' i' \<and> ?Q k' i' s' \<and> Empty (chunks i' ! k')"
  proof (rule drain_rule [where Q = ?Q, OF drain_start [OF i]])
    show "?Q (flushChunk i) ?i s" using q by (auto simp: all_kept_def pending_def written_update)
  next
    fix k i s s' i'
    assume d: "drain_inv k i" and q: "?Q k i s" and f: "Flush S (chunks i ! k) s = (None, s')" and c: "same_chain (Suc k) i i'"
    show "?Q (Suc k) i' s'" using taken [OF d q f] q c drain_step(1) [OF d] by (fastforce simp: same_chain_def)
  qed (use taken in \<open>metis option.distinct(1)\<close>)+
  then obtain k' i' s' where r: "drain S 0 (flushChunk i) ?i s = Some (k', i', s')" "drain_inv k' i'"
    "?Q k' i' s'" "Empty (chunks i' ! k')" by blast
  then show ?thesis
    using i drain_end [OF r(2,4)] by (auto simp: Close_def quit_routine_def Let_def ingester_inv_def)
qed

lemma run_all_kept:
  assumes "set (H @ logged evs) \<subseteq> E" and "Stop \<notin> set evs" "ingester_inv i" "all_kept holds H cfg W i s"
  shows "\<exists>i' s'. run S evs (i, s) = Some (Inr (i', s')) \<and> ingester_inv i'
    \<and> all_kept holds (H @ logged evs) cfg (W @ logged evs) i' s'"
  using assms
proof (induction evs arbitrary: i s H W)
  case (Cons ev evs)
  show ?case
  proof (cases ev)
    case (Log t l b)
    obtain i' where i': "Ingest t l b i = Inr i'" "ingester_inv i'" "config i' = config i"
      "written (chunks i') = written (chunks i) @ logged [ev]"
      "written (take (flushChunk i) (chunks i')) = written (take (flushChunk i) (chunks i))"
      "flushChunk i' = flushChunk i"
      using Ingest_keeps [OF Cons.prems(3), of t l b] Log by auto
    have "pending i' = pending i @ logged [ev]"
      unfolding pending_def using pending_write [OF i'(5)] i'(4,6) by simp
    then have "all_kept holds (H @ logged [ev]) cfg (W @ logged [ev]) i' s"
      using Cons.prems(4) i' by (simp add: all_kept_def del: append_assoc flip: append_assoc)
    from Cons.IH [OF _ _ i'(2) this] Cons.prems(1,2) Log i'(1) show ?thesis by simp
  next
    case (Tick now)
    have nq: "\<not> quit i" using Cons.prems(3) by (simp add: ingester_inv_def)
    have H: "set H \<subseteq> E" using Cons.prems(1) by simp
    obtain i' s' where i': "doRoutineCheck S now i s = Some (Inr (i', s'))" "ingester_inv i'"
      "all_kept holds H cfg W i' s'"
      using routine_all_kept [OF H Cons.prems(3,4)] by blast
    from Cons.IH [OF _ _ i'(2,3)] Cons.prems(1,2) Tick i'(1) nq show ?thesis by simp
  qed (use Cons.prems in simp)
qed simp

end

subsection \<open>A new ingester\<close>

text \<open>What the Go types guarantee of a configuration, and a retry limit below the largest \<^verbatim>\<open>int32\<close>.\<close>

definition valid_config :: "IngesterConfig \<Rightarrow> bool" where
  "valid_config c = (0 \<le> Chunks c \<and> Chunks c \<le> 255 \<and> MaxFlushRetry c < 2 ^ 31 - 1)"

lemma with_defaults_ok: "valid_config c \<Longrightarrow> config_ok (with_defaults c)"
  by (auto simp: config_ok_def with_defaults_def valid_config_def Let_def)

lemma NewIngester_inv:
  assumes "valid_config c"
  shows "ingester_inv (NewIngester (Some c))" "written (chunks (NewIngester (Some c))) = []"
    "config (NewIngester (Some c)) = with_defaults c" "pending (NewIngester (Some c)) = []"
proof -
  let ?c = "with_defaults c"
  let ?root = "NewChunk (ChunkSize ?c)"
  have ok: "config_ok ?c" using with_defaults_ok [OF assms] .
  have root: "new_chunk ?root" by (simp add: new_chunk_def fresh_NewChunk) (simp add: NewChunk_def zeroChunk_def)
  obtain new where new: "Init (nat (Chunks ?c)) [?root] 0 = [?root] @ new" "list_all new_chunk new"
    using Init_appends [of "[?root]" 0 "nat (Chunks ?c)"] new_wf [OF root] by auto
  have cs: "chunks (NewIngester (Some c)) = ?root # new" using new by (simp add: NewIngester_def Let_def)
  have all: "list_all new_chunk (?root # new)" using new root by simp
  have "frontier (?root # new) 0"
    using frontierI [of "[]" ?root new] all new_wf by (auto simp: list_all_iff new_chunk_def)
  moreover have "list_all (chunk_ok (MaxFlushRetry ?c)) (?root # new)"
    using all ok chunk_ok_new by (auto simp: list_all_iff config_ok_def)
  moreover have "list_all (\<lambda>c'. retries c' \<le> MaxFlushRetry ?c) (?root # new)"
    using all ok by (auto simp: list_all_iff new_chunk_def config_ok_def)
  moreover have "book ?root \<le> cap ?root"
    using root by (auto simp: new_chunk_def fresh_def wf_chunk_def)
  ultimately show "ingester_inv (NewIngester (Some c))"
    using ok by (simp add: ingester_inv_def cs) (simp add: NewIngester_def Let_def)
  have "written (?root # new) = []"
    by (rule written_fresh) (use all in \<open>auto simp: list_all_iff new_chunk_def\<close>)
  then show "written (chunks (NewIngester (Some c))) = []" "pending (NewIngester (Some c)) = []"
    by (simp_all add: cs pending_def) (simp add: NewIngester_def Let_def)
  show "config (NewIngester (Some c)) = ?c" by (simp add: NewIngester_def Let_def)
qed

subsection \<open>Any storage, observed\<close>

text \<open>
  Every storage keeps the contract for the list of its successful flushes: \<open>observed S\<close> is the
  storage \<open>S\<close> with a journal of the chunks given to it and whether it took them.
\<close>

definition observed :: "'s Storage \<Rightarrow> ('s \<times> (Chunk \<times> bool) list) Storage" where
  "observed S =
     \<lparr>Flush = (\<lambda>c (s, tr). let (err, s') = Flush S c s in (err, (s', tr @ [(c, err = None)]))),
      CloseStorage = (\<lambda>(s, tr). let (err, s') = CloseStorage S s in (err, (s', tr)))\<rparr>"

definition delivered :: "(Chunk \<times> bool) list \<Rightarrow> Entry list" where
  "delivered tr = written (map fst (filter snd tr))"

interpretation obs: storage_contract "observed S" "\<lambda>x. delivered (snd x)" for S :: "'s Storage"
proof
  fix c and s s' :: "'s \<times> (Chunk \<times> bool) list"
  assume "Flush (observed S) c s = (None, s')"
  then have "delivered (snd s') = delivered (snd s) @ contents c"
    by (auto simp: observed_def delivered_def written_simps split: prod.splits)
  then show "\<exists>es. subseq es (contents c) \<and> delivered (snd s') = delivered (snd s) @ es" by blast
next
  fix c err and s s' :: "'s \<times> (Chunk \<times> bool) list"
  assume "Flush (observed S) c s = (Some err, s')"
  then show "delivered (snd s') = delivered (snd s)"
    by (auto simp: observed_def delivered_def written_simps split: prod.splits)
next
  fix s :: "'s \<times> (Chunk \<times> bool) list"
  show "delivered (snd (snd (CloseStorage (observed S) s))) = delivered (snd s)"
    by (auto simp: observed_def split: prod.splits)
qed

lemma run_append: "run S (evs @ evs') x =
    (case run S evs x of None \<Rightarrow> None | Some (Inl p) \<Rightarrow> Some (Inl p) | Some (Inr x) \<Rightarrow> run S evs' x)"
  by (induction evs arbitrary: x) (auto split: option.splits sum.splits)

text \<open>One that never fails holds what was delivered to it.\<close>

definition reliably :: "'s Storage \<Rightarrow> 's \<times> (Chunk \<times> bool) list \<Rightarrow> Entry list \<Rightarrow> bool" where
  "reliably S x es = ((\<forall>c s. fst (Flush S c s) = None) \<and> delivered (snd x) = es)"

interpretation rel: kept_storage "observed S" "reliably S" UNIV for S :: "'s Storage"
proof
  fix c es and x :: "'s \<times> (Chunk \<times> bool) list"
  assume x: "reliably S x es"
  obtain r s' where "Flush S c (fst x) = (r, s')" by fastforce
  moreover from this x have "r = None" unfolding reliably_def by (metis fst_conv)
  ultimately show "\<exists>x'. Flush (observed S) c x = (None, x') \<and> reliably S x' (es @ contents c)"
    using x by (cases x) (auto simp: observed_def reliably_def delivered_def written_simps)
qed

lemma new_in_log:
  "valid_config c \<Longrightarrow> in_log (\<lambda>x. delivered (snd x)) [] (with_defaults c) [] (NewIngester (Some c)) (s, [])"
  by (simp add: in_log_def NewIngester_inv delivered_def written_simps)

text \<open>From a new ingester to the end of \<^verbatim>\<open>Close\<close>, over a storage that does not fail.\<close>

lemma kept_close:
  assumes K: "kept_storage S holds E" and "valid_config c" "Stop \<notin> set evs" "set (logged evs) \<subseteq> E" "holds s []"
  shows "\<exists>i s'. run S (evs @ [Stop]) (NewIngester (Some c), s) = Some (Inr (i, snd (CloseStorage S s'))) \<and> quit i \<and>
    holds s' (logged evs)"
proof -
  note new = NewIngester_inv [OF assms(2)]
  have "all_kept holds [] (with_defaults c) [] (NewIngester (Some c)) s" using new assms(5) by (simp add: all_kept_def)
  from kept_storage.run_all_kept [OF K _ assms(3) new(1) this] assms(4) obtain i s1 where
    r: "run S evs (NewIngester (Some c), s) = Some (Inr (i, s1))" "ingester_inv i"
      "all_kept holds (logged evs) (with_defaults c) (logged evs) i s1" by auto
  from kept_storage.close_all_kept [OF K assms(4) r(2,3)] r(1) show ?thesis by (auto simp: run_append)
qed

text \<open>What every flush of a storage keeps is kept by a tick, by a run and by the drain.\<close>

lemma routine_keeps_storage:
  assumes "ingester_inv i" "P s" "\<And>c s err s'. P s \<Longrightarrow> Flush S c s = (err, s') \<Longrightarrow> P s'"
  shows "\<exists>i' s'. doRoutineCheck S now i s = Some (Inr (i', s')) \<and> ingester_inv i' \<and> P s'"
  using routine_rule [where Q = "\<lambda>i s. P s" and S = S and now = now, OF assms(1,2)] assms(3) by blast

lemma close_keeps_storage:
  assumes i: "ingester_inv i" and P: "P s" "\<And>c s err s'. P s \<Longrightarrow> Flush S c s = (err, s') \<Longrightarrow> P s'"
  shows "\<exists>i' s'. Close S i s = Some (None, i', snd (CloseStorage S s')) \<and> quit i' \<and> P s'"
proof -
  let ?i = "at_chunk (flushChunk i) Lock (i\<lparr>quit := True\<rparr>)"
  have "\<exists>k' i' s'. drain S 0 (flushChunk i) ?i s = Some (k', i', s') \<and> drain_inv k' i' \<and> (P s' \<and> quit i') \<and> Empty (chunks i' ! k')"
    by (rule drain_rule [where Q = "\<lambda>k i s. P s \<and> quit i", OF drain_start [OF i]]) (use P in \<open>auto simp: same_chain_def\<close>)
  then show ?thesis using i by (auto simp: Close_def quit_routine_def Let_def ingester_inv_def)
qed

lemma run_keeps_storage:
  assumes P: "\<And>c s err s'. P s \<Longrightarrow> Flush S c s = (err, s') \<Longrightarrow> P s'"
  shows "Stop \<notin> set evs \<Longrightarrow> ingester_inv i \<Longrightarrow> P s \<Longrightarrow>
    \<exists>i' s'. run S evs (i, s) = Some (Inr (i', s')) \<and> ingester_inv i' \<and> P s'"
proof (induction evs arbitrary: i s)
  case (Cons ev evs)
  have nq: "\<not> quit i" using Cons.prems(2) by (simp add: ingester_inv_def)
  have "\<exists>i' s'. step S ev (i, s) = Some (Inr (i', s')) \<and> ingester_inv i' \<and> P s'"
  proof (cases ev)
    case (Log t l b)
    with Ingest_keeps [OF Cons.prems(2), of t l b] Cons.prems(3) show ?thesis by auto
  next
    case (Tick now)
    with routine_keeps_storage [where P = P and S = S and now = now, OF Cons.prems(2,3) P] nq show ?thesis by auto
  qed (use Cons.prems(1) in simp)
  with Cons.IH Cons.prems(1) show ?case by fastforce
qed simp

subsection \<open>Properties\<close>

text \<open>
  C6 (safety). However records and ticks of the routine alternate, and whatever the storage
  answers, the ingester neither panics nor hangs; the chain holds every record in the order it was
  logged; and the entries the storage took, followed by those still waiting, are a subsequence of
  the log: none is invented, duplicated or reordered.
\<close>

theorem log_order:
  assumes "valid_config c" "Stop \<notin> set evs"
  shows "\<exists>i s tr. run (observed S) evs (NewIngester (Some c), (s0, [])) = Some (Inr (i, (s, tr)))
    \<and> written (chunks i) = logged evs \<and> subseq (delivered tr @ pending i) (logged evs)"
  using obs.run_in_log [OF assms(2) NewIngester_inv(1) [OF assms(1)] new_in_log [OF assms(1)], of S s0]
  by (fastforce simp: in_log_def)

definition cfg1 :: IngesterConfig where
  "cfg1 = \<lparr>Chunks = 1, ChunkSize = 1, MaxChunkSizeBytes = 0, MaxDirtyChunks = 2, MaxFlushRetry = 1,
     FlushAfterSec = 0, IntervalCheckMs = 0\<rparr>"

definition at_sec :: "int \<Rightarrow> Time" where
  "at_sec t = \<lparr>unixSec = t, nsec = 0\<rparr>"

theorem log_order_witness:
  "\<exists>i s tr. run (observed (DummyStorage :: unit Storage))
      [Log (at_sec 7) 0 ''a'', Log (at_sec 8) 0 ''b'', Tick (at_sec 9)] (NewIngester (Some cfg1), ((), []))
      = Some (Inr (i, (s, tr)))
    \<and> written (chunks i) = [\<lparr>etime = at_sec 7, level = 0, content = ''a''\<rparr>, \<lparr>etime = at_sec 8, level = 0, content = ''b''\<rparr>]
    \<and> subseq (delivered tr @ pending i) (written (chunks i))"
  using log_order [of cfg1 "[Log (at_sec 7) 0 ''a'', Log (at_sec 8) 0 ''b'', Tick (at_sec 9)]" DummyStorage "()"]
  by (auto simp: valid_config_def cfg1_def)

lemma reliable_close:
  assumes "valid_config c" "Stop \<notin> set evs" "\<And>c s. fst (Flush S c s) = None"
  shows "\<exists>i s tr. run (observed S) (evs @ [Stop]) (NewIngester (Some c), (s0, [])) = Some (Inr (i, (s, tr)))
    \<and> quit i \<and> delivered tr = logged evs"
proof -
  have "reliably S (s0, []) []" using assms(3) by (simp add: reliably_def delivered_def written_simps)
  from kept_close [OF rel.kept_storage_axioms assms(1,2) subset_UNIV this] obtain i s' where
    r: "run (observed S) (evs @ [Stop]) (NewIngester (Some c), (s0, [])) = Some (Inr (i, snd (CloseStorage (observed S) s')))"
      "quit i" "reliably S s' (logged evs)" by blast
  obtain s tr where "snd (CloseStorage (observed S) s') = (s, tr)" by fastforce
  moreover from this have "tr = snd s'" by (cases s') (auto simp: observed_def split: prod.splits)
  ultimately show ?thesis using r by (auto simp: reliably_def)
qed

text \<open>
  C7 (liveness). With a storage whose \<^verbatim>\<open>Flush\<close> does not fail, \<^verbatim>\<open>Close\<close> returns with every
  record that was logged before it handed to the storage, once and in order.
\<close>

theorem close_delivers:
  assumes "valid_config c" "Stop \<notin> set evs" "\<And>c s. fst (Flush S c s) = None"
  shows "\<exists>i s tr. run (observed S) (evs @ [Stop]) (NewIngester (Some c), (s0, [])) = Some (Inr (i, (s, tr)))
    \<and> quit i \<and> delivered tr = logged evs"
  using assms by (rule reliable_close)

theorem close_delivers_witness:
  "\<exists>i s tr. run (observed (DummyStorage :: unit Storage)) ([Log (at_sec 7) 0 ''a'', Tick (at_sec 9)] @ [Stop])
      (NewIngester (Some cfg1), ((), [])) = Some (Inr (i, (s, tr)))
    \<and> quit i \<and> delivered tr = [\<lparr>etime = at_sec 7, level = 0, content = ''a''\<rparr>]"
  using close_delivers [of cfg1 "[Log (at_sec 7) 0 ''a'', Tick (at_sec 9)]" DummyStorage "()"]
  by (auto simp: valid_config_def cfg1_def DummyStorage_def)

text \<open>
  C8 (termination). \<^verbatim>\<open>Close\<close> ends for any storage, also one that always fails, as long as the
  retry limit is below the largest \<^verbatim>\<open>int32\<close>; what was stored by then is a subsequence of the log.
\<close>

theorem close_ends:
  assumes "valid_config c" "Stop \<notin> set evs"
  shows "\<exists>i s tr. run (observed S) (evs @ [Stop]) (NewIngester (Some c), (s0, [])) = Some (Inr (i, (s, tr)))
    \<and> quit i \<and> subseq (delivered tr) (logged evs)"
proof -
  obtain i s where r: "run (observed S) evs (NewIngester (Some c), (s0, [])) = Some (Inr (i, s))" "ingester_inv i"
    "in_log (\<lambda>x. delivered (snd x)) (logged evs) (with_defaults c) (logged evs) i s"
    using obs.run_in_log [OF assms(2) NewIngester_inv(1) [OF assms(1)] new_in_log [OF assms(1)]]
    by fastforce
  from obs.close_in_log [OF r(2,3), of S] r(1) show ?thesis by (auto simp: run_append)
qed

definition failing :: "unit Storage" where
  "failing = \<lparr>Flush = (\<lambda>_ s. (Some ''disk full'', s)), CloseStorage = (\<lambda>s. (None, s))\<rparr>"

theorem close_ends_witness:
  "\<exists>i s tr. run (observed failing) ([Log (at_sec 7) 0 ''a''] @ [Stop])
      (NewIngester (Some cfg1), ((), [])) = Some (Inr (i, (s, tr)))
    \<and> quit i \<and> subseq (delivered tr) [\<lparr>etime = at_sec 7, level = 0, content = ''a''\<rparr>]"
  using close_ends [of cfg1 "[Log (at_sec 7) 0 ''a'']" failing "()"]
  by (auto simp: valid_config_def cfg1_def)

text \<open>
  C36 (bounds). After every tick at most \<^verbatim>\<open>MaxDirtyChunks\<close> chunks hold entries that wait
  to be flushed, whatever the storage answers.
\<close>

theorem tick_bounds_memory:
  assumes "valid_config c" "Stop \<notin> set evs"
  shows "\<exists>i s. run (observed S) (evs @ [Tick now]) (NewIngester (Some c), (s0, [])) = Some (Inr (i, s))
    \<and> int (Depth (drop (flushChunk i) (chunks i))) \<le> MaxDirtyChunks (with_defaults c)"
proof -
  obtain i s where r: "run (observed S) evs (NewIngester (Some c), (s0, [])) = Some (Inr (i, s))" "ingester_inv i"
    "in_log (\<lambda>x. delivered (snd x)) (logged evs) (with_defaults c) (logged evs) i s"
    using obs.run_in_log [OF assms(2) NewIngester_inv(1) [OF assms(1)] new_in_log [OF assms(1)]]
    by fastforce
  have "\<not> quit i" using r(2) by (simp add: ingester_inv_def)
  with obs.routine_in_log [OF r(2,3), of S now] r(1) show ?thesis
    by (auto simp: run_append dirty_def in_log_def)
qed

theorem tick_bounds_memory_witness:
  "\<exists>i s. run (observed failing) ([Log (at_sec 1) 0 ''a'', Log (at_sec 2) 0 ''b'', Log (at_sec 3) 0 ''c'']
      @ [Tick (at_sec 4)]) (NewIngester (Some cfg1), ((), [])) = Some (Inr (i, s))
    \<and> int (Depth (drop (flushChunk i) (chunks i))) \<le> 2"
  using tick_bounds_memory [of cfg1 "[Log (at_sec 1) 0 ''a'', Log (at_sec 2) 0 ''b'', Log (at_sec 3) 0 ''c'']"
      failing "at_sec 4" "()"]
  by (simp add: valid_config_def cfg1_def with_defaults_def)

text \<open>
  Once closed, the ingester never touches the storage again: records logged later
  return no error and are lost, and a second \<^verbatim>\<open>Close\<close> returns \<^verbatim>\<open>ErrIngesterClosed\<close>.
\<close>

theorem closed_is_final:
  assumes "quit i" "run S evs (i, s) = Some (Inr (i', s'))"
  shows "s' = s \<and> quit i' \<and> Close S i' s' = Some (Some ErrIngesterClosed, i', s')"
  using assms
proof (induction evs arbitrary: i s)
  case (Cons ev evs)
  have q: "quit j" if "Ingest t l b i = Inr j" for t l b j
    using that Cons.prems(1) by (auto simp: Ingest_def Let_def split: sum.splits if_splits)
  show ?case
  proof (cases ev)
    case (Log t l b)
    with Cons.prems(2) obtain j where "Ingest t l b i = Inr j" "run S evs (j, s) = Some (Inr (i', s'))"
      by (auto split: sum.splits simp: map_sum_Inr_iff)
    with Cons.IH q show ?thesis by blast
  next
    case (Tick now)
    with Cons.prems have "run S evs (i, s) = Some (Inr (i', s'))" by simp
    with Cons.IH Cons.prems(1) show ?thesis by blast
  next
    case Stop
    with Cons.prems have "run S evs (i, s) = Some (Inr (i', s'))" by (simp add: Close_def)
    with Cons.IH Cons.prems(1) show ?thesis by blast
  qed
qed (simp add: Close_def)

theorem closed_is_final_witness:
  "\<exists>i. run DummyStorage [Log (at_sec 1) 0 ''a'', Stop] ((NewIngester (Some cfg1))\<lparr>quit := True\<rparr>, ()) = Some (Inr (i, ()))
    \<and> Close DummyStorage i () = Some (Some ErrIngesterClosed, i, ())"
proof -
  let ?r = "run DummyStorage [Log (at_sec 1) 0 ''a'', Stop] ((NewIngester (Some cfg1))\<lparr>quit := True\<rparr>, ())"
  have "case ?r of Some (Inr _) \<Rightarrow> True | _ \<Rightarrow> False" by code_simp
  then obtain i where "?r = Some (Inr (i, ()))" by (auto split: option.splits sum.splits)
  with closed_is_final [of "(NewIngester (Some cfg1))\<lparr>quit := True\<rparr>" DummyStorage "[Log (at_sec 1) 0 ''a'', Stop]" "()"]
  show ?thesis by auto
qed

end
