(* ===== verification/GoText.thy ===== *)
theory GoText imports Float64 "HOL-Library.Multiset" begin

text \<open>
  The functions of Go's \<^verbatim>\<open>strconv\<close>, \<^verbatim>\<open>fmt\<close>, \<^verbatim>\<open>strings\<close> and \<^verbatim>\<open>path\<close> packages that the storage code calls:
  decimal integers, splitting, extensions. Stable sorting as \<^verbatim>\<open>sort.SliceStable\<close> does it for a
  strict weak order.
\<close>

subsection \<open>Decimal integers\<close>

definition digit_char :: "nat \<Rightarrow> char" where
  "digit_char d = char_of (48 + d)"

fun show_nat :: "nat \<Rightarrow> string" where
  "show_nat n = (if n < 10 then [digit_char n] else show_nat (n div 10) @ [digit_char (n mod 10)])"

declare show_nat.simps [simp del]

definition show_int :: "int \<Rightarrow> string" where
  "show_int k = (if k < 0 then CHR ''-'' # show_nat (nat (- k)) else show_nat (nat k))"

definition parse_nat :: "string \<Rightarrow> nat option" where
  "parse_nat s =
     (if s = [] \<or> list_ex (\<lambda>c. \<not> is_digit c) s then None
      else Some (foldl (\<lambda>n c. 10 * n + (byte c - 48)) 0 s))"

text \<open>\<^verbatim>\<open>ParseInt(s, 10, bits)\<close>; \<^verbatim>\<open>None\<close> for a syntax or range error.\<close>

definition ParseInt :: "nat \<Rightarrow> string \<Rightarrow> int option" where
  "ParseInt bits s =
     (let neg = HasPrefix s ''-'';
          t = (if neg \<or> HasPrefix s ''+'' then drop 1 s else s)
      in case parse_nat t of
           None \<Rightarrow> None
         | Some n \<Rightarrow>
             (let k = (if neg then - int n else int n)
              in if - (2 ^ (bits - 1)) \<le> k \<and> k < 2 ^ (bits - 1) then Some k else None))"

lemma digit_char_digit: "d < 10 \<Longrightarrow> is_digit (digit_char d) \<and> byte (digit_char d) = 48 + d"
  by (simp add: digit_char_def is_digit_def byte_def)

lemma show_nat_digits: "list_all is_digit (show_nat n) \<and> show_nat n \<noteq> []"
proof (induction n rule: show_nat.induct)
  case (1 n)
  then show ?case by (subst (1 2) show_nat.simps) (simp add: digit_char_digit)
qed

lemma foldl_show_nat: "foldl (\<lambda>n c. 10 * n + (byte c - 48)) 0 (show_nat n) = n"
proof (induction n rule: show_nat.induct)
  case (1 n)
  then show ?case by (subst show_nat.simps) (simp add: digit_char_digit)
qed

lemma parse_show_nat: "parse_nat (show_nat n) = Some n"
  using show_nat_digits [of n] by (auto simp: parse_nat_def foldl_show_nat list_ex_iff list_all_iff)

lemma HasPrefix_single: "HasPrefix s [c] = (s \<noteq> [] \<and> hd s = c)"
  by (cases s) auto

lemma show_nat_no_sign: "hd (show_nat n) \<noteq> CHR ''-'' \<and> hd (show_nat n) \<noteq> CHR ''+''"
proof -
  have "is_digit (hd (show_nat n))"
    using show_nat_digits [of n] by (cases "show_nat n") auto
  then show ?thesis by (auto simp: is_digit_def byte_def)
qed

lemma parse_show_int:
  assumes "- (2 ^ (bits - 1)) \<le> k" "k < 2 ^ (bits - 1)"
  shows "ParseInt bits (show_int k) = Some k"
  using assms show_nat_no_sign [of "nat k"]
  by (auto simp: ParseInt_def show_int_def HasPrefix_single parse_show_nat)

subsection \<open>Splitting\<close>

fun Split :: "char \<Rightarrow> string \<Rightarrow> string list" where
  "Split sep [] = [[]]"
| "Split sep (c # cs) =
     (if c = sep then [] # Split sep cs
      else (case Split sep cs of [] \<Rightarrow> [[c]] | p # ps \<Rightarrow> (c # p) # ps))"

lemma Split_none: "sep \<notin> set s \<Longrightarrow> Split sep s = [s]"
  by (induction s) auto

text \<open>\<^verbatim>\<open>path.Ext\<close>: from the last dot after the last slash.\<close>

definition Ext :: "string \<Rightarrow> string" where
  "Ext p =
     (let base = takeWhile (\<lambda>c. c \<noteq> CHR ''/'') (rev p);
          ext = takeWhile (\<lambda>c. c \<noteq> CHR ''.'') base
      in if length ext < length base then CHR ''.'' # rev ext else '''')"

subsection \<open>Stable sorting\<close>

fun insert_stable :: "('a \<Rightarrow> 'a \<Rightarrow> bool) \<Rightarrow> 'a \<Rightarrow> 'a list \<Rightarrow> 'a list" where
  "insert_stable lt x [] = [x]"
| "insert_stable lt x (y # ys) = (if lt y x then y # insert_stable lt x ys else x # y # ys)"

definition SliceStable :: "('a \<Rightarrow> 'a \<Rightarrow> bool) \<Rightarrow> 'a list \<Rightarrow> 'a list" where
  "SliceStable lt xs = foldr (insert_stable lt) xs []"

lemma set_insert_stable: "set (insert_stable lt x ys) = insert x (set ys)"
  by (induction ys) auto

lemma mset_insert_stable: "mset (insert_stable lt x ys) = add_mset x (mset ys)"
  by (induction ys) auto

lemma mset_SliceStable: "mset (SliceStable lt xs) = mset xs"
  unfolding SliceStable_def by (induction xs) (simp_all add: mset_insert_stable)

lemma set_SliceStable [simp]: "set (SliceStable lt xs) = set xs"
  using mset_SliceStable [of lt xs] by (metis set_mset_mset)

lemma sorted_insert_stable:
  assumes "\<And>a b. lt a b \<Longrightarrow> \<not> lt b a" "\<And>a b c. \<not> lt b a \<Longrightarrow> \<not> lt c b \<Longrightarrow> \<not> lt c a"
    and "sorted_wrt (\<lambda>a b. \<not> lt b a) ys"
  shows "sorted_wrt (\<lambda>a b. \<not> lt b a) (insert_stable lt x ys)"
  using assms(3)
proof (induction ys)
  case (Cons y ys)
  show ?case
  proof (cases "lt y x")
    case True
    with Cons assms(1) show ?thesis by (auto simp: set_insert_stable)
  next
    case False
    with Cons.prems assms(2) [of y x] show ?thesis by auto
  qed
qed simp

lemma sorted_SliceStable:
  assumes "\<And>a b. lt a b \<Longrightarrow> \<not> lt b a" "\<And>a b c. \<not> lt b a \<Longrightarrow> \<not> lt c b \<Longrightarrow> \<not> lt c a"
  shows "sorted_wrt (\<lambda>a b. \<not> lt b a) (SliceStable lt xs)"
  unfolding SliceStable_def
  by (induction xs) (auto intro: sorted_insert_stable [OF assms])

subsection \<open>Paths\<close>

fun join_with :: "string \<Rightarrow> string list \<Rightarrow> string" where
  "join_with sep [] = ''''"
| "join_with sep [p] = p"
| "join_with sep (p # q # ps) = p @ sep @ join_with sep (q # ps)"

text \<open>\<^verbatim>\<open>path.Clean\<close>, on the elements between the slashes, and \<^verbatim>\<open>path.Join\<close> of two elements.\<close>

fun clean_elems :: "bool \<Rightarrow> string list \<Rightarrow> string list \<Rightarrow> string list" where
  "clean_elems rooted st [] = rev st"
| "clean_elems rooted st (e # es) =
     (if e = '''' \<or> e = ''.'' then clean_elems rooted st es
      else if e = ''..''
      then (case st of
              [] \<Rightarrow> clean_elems rooted (if rooted then [] else [e]) es
            | p # ps \<Rightarrow> if p = ''..'' then clean_elems rooted (e # st) es else clean_elems rooted ps es)
      else clean_elems rooted (e # st) es)"

definition Clean :: "string \<Rightarrow> string" where
  "Clean p =
     (let rooted = HasPrefix p ''/'';
          q = (if rooted then ''/'' else '''') @ join_with ''/'' (clean_elems rooted [] (Split CHR ''/'' p))
      in if q = '''' then ''.'' else q)"

definition Join :: "string \<Rightarrow> string \<Rightarrow> string" where
  "Join dir name =
     (let es = filter (\<lambda>e. e \<noteq> '''') [dir, name]
      in if es = [] then '''' else Clean (join_with ''/'' es))"

end
