(* ===== verification/StorageDb.thy ===== *)
theory StorageDb imports IngesterLog SqliteExpr GoText begin

text \<open>
  \<^verbatim>\<open>sqlite/storage_db.go\<close>: one database file of the storage and its life cycle. The SQL driver, the
  database and the file system are code outside the repository: a \<open>Driver\<close> is the record of the
  calls the code makes, over the state \<open>'w\<close> of that outside world; an error is its text.
\<close>

subsection \<open>The world outside\<close>

record 'w Driver =
  OpenSql :: "string \<Rightarrow> 'w \<Rightarrow> string option \<times> 'w"
  ExecSql :: "string \<Rightarrow> string \<Rightarrow> sqlarg list \<Rightarrow> 'w \<Rightarrow> string option \<times> 'w"
  QuerySql :: "string \<Rightarrow> string \<Rightarrow> sqlarg list \<Rightarrow> 'w \<Rightarrow> (string + sqlarg list list) \<times> 'w"
  CloseSql :: "string \<Rightarrow> 'w \<Rightarrow> 'w"
  BeginTx :: "string \<Rightarrow> 'w \<Rightarrow> string option \<times> 'w"
  PrepareTx :: "string \<Rightarrow> string \<Rightarrow> 'w \<Rightarrow> string option \<times> 'w"
  ExecTx :: "string \<Rightarrow> string \<Rightarrow> sqlarg list \<Rightarrow> 'w \<Rightarrow> string option \<times> 'w"
  Rollback :: "string \<Rightarrow> 'w \<Rightarrow> 'w"
  Commit :: "string \<Rightarrow> 'w \<Rightarrow> string option \<times> 'w"
  RenameFile :: "string \<Rightarrow> string \<Rightarrow> 'w \<Rightarrow> string option \<times> 'w"
  RemoveFile :: "string \<Rightarrow> 'w \<Rightarrow> string option \<times> 'w"
  RangeOrder :: "'w \<Rightarrow> int list \<Rightarrow> int list"

text \<open>
  The order in which \<^verbatim>\<open>Range\<close> of a \<^verbatim>\<open>sync.Map\<close> visits the keys is left to the world too: any order of the
  keys, each once.
\<close>

definition range_order :: "'w Driver \<Rightarrow> 'w \<Rightarrow> int list \<Rightarrow> int list" where
  "range_order D w ks = (let r = RangeOrder D w ks in if mset r = mset ks then r else ks)"

lemma mset_range_order [simp]: "mset (range_order D w ks) = mset ks"
  by (simp add: range_order_def Let_def)

lemma range_order_elements [simp]:
  "set (range_order D w ks) = set ks" "distinct (range_order D w ks) = distinct ks"
  by (rule mset_eq_setD, simp) (rule mset_eq_imp_distinct_iff, simp)

lemma range_order_one [simp]: "range_order D w [t] = [t]"
  using mset_range_order [of D w "[t]"] by (simp del: mset_range_order)

subsection \<open>A database\<close>

datatype db_status = db_closed | db_loading | db_open | db_closing | db_removing

text \<open>
  \<open>handle\<close> says whether \<^verbatim>\<open>db\<close> is set; \<open>dbTasks\<close> are the keys of \<^verbatim>\<open>taskMap\<close>. The epochs are
  \<^verbatim>\<open>epochStart\<close>, \<^verbatim>\<open>newEpochStart\<close> and \<^verbatim>\<open>epochEnd\<close>.
\<close>

record storageDb =
  live :: bool
  dbSize :: int
  status :: db_status
  dbStart :: int
  dbNewStart :: int
  dbEnd :: int
  lastQueryEpoch :: int
  maxChunkAgeSec :: int
  fileDir :: string
  filePath :: string
  filePrefix :: string
  handle :: bool
  taskCount :: int
  dbTasks :: "int list"

definition newline :: char where
  "newline = CHR 0x0A"

definition sqlCreateTable :: string where
  "sqlCreateTable = ''CREATE TABLE IF NOT EXISTS entries ('' @
     concat (map (\<lambda>l. newline # CHR 0x09 # CHR 0x09 # l)
       [''epoch_secs LONG,'', ''nanos INTEGER,'', ''level INTEGER,'', ''content BLOB'']) @
     [newline, CHR 0x09, CHR '')'']"

definition sqlCreateIndex :: string where
  "sqlCreateIndex = ''CREATE INDEX IF NOT EXISTS entries_epoch_desc ON entries(epoch_secs DESC)''"

definition isOpen :: "storageDb \<Rightarrow> bool" where
  "isOpen d = (status d = db_open)"

definition lastQuerySec :: "int \<Rightarrow> storageDb \<Rightarrow> int" where
  "lastQuerySec now d = i64 (now - lastQueryEpoch d)"

text \<open>The options, in the order in which the map is iterated.\<close>

definition connString :: "(string \<times> string) list \<Rightarrow> storageDb \<Rightarrow> string" where
  "connString options d =
     ''file:'' @ filePath d @
     (if length options > 0
      then ''?'' @ join_with ''&'' (map (\<lambda>(k, v). k @ ''='' @ v) options) else '''')"

definition connect :: "'w Driver \<Rightarrow> (string \<times> string) list \<Rightarrow> int \<Rightarrow> storageDb \<Rightarrow> 'w
    \<Rightarrow> string option \<times> storageDb \<times> 'w" where
  "connect D options now d w =
     (if status d \<noteq> db_closed then (None, d, w)
      else case OpenSql D (connString options d) w of
        (Some err, w) \<Rightarrow> (Some err, d\<lparr>status := db_closed\<rparr>, w)
      | (None, w) \<Rightarrow>
        (case ExecSql D (filePath d) sqlCreateTable [] w of
           (Some err, w) \<Rightarrow> (Some err, d\<lparr>status := db_closed\<rparr>, CloseSql D (filePath d) w)
         | (None, w) \<Rightarrow>
           (case ExecSql D (filePath d) sqlCreateIndex [] w of
              (Some err, w) \<Rightarrow> (Some err, d\<lparr>status := db_closed\<rparr>, CloseSql D (filePath d) w)
            | (None, w) \<Rightarrow>
                (None, d\<lparr>handle := True, lastQueryEpoch := now, status := db_open\<rparr>, w))))"

definition db_query :: "'w Driver \<Rightarrow> int \<Rightarrow> string \<Rightarrow> sqlarg list \<Rightarrow> storageDb \<Rightarrow> 'w
    \<Rightarrow> (string + sqlarg list list) \<times> storageDb \<times> 'w" where
  "db_query D now q as d w =
     (if \<not> handle d then (Inl ''db is closed'', d, w)
      else case QuerySql D (filePath d) q as w of
        (Inl err, w) \<Rightarrow> (Inl err, d, w)
      | (Inr rows, w) \<Rightarrow> (Inr rows, d\<lparr>lastQueryEpoch := now\<rparr>, w))"

subsection \<open>Writing a chunk\<close>

definition sqlInsert :: string where
  "sqlInsert = ''INSERT INTO entries(epoch_secs, nanos, level, content) VALUES ''"

definition sqlInsertValues :: string where
  "sqlInsertValues = ''(?,?,?,?)''"

definition entry_args :: "Entry \<Rightarrow> sqlarg list" where
  "entry_args e = [ArgInt (unixSec (etime e)), ArgInt (nsec (etime e)), ArgInt (level e), ArgText (content e)]"

text \<open>The loop over the entries from index \<open>i\<close>: what it adds to the statement and to the values.\<close>

fun insert_rows :: "int \<Rightarrow> nat \<Rightarrow> Entry option list \<Rightarrow> string \<times> sqlarg list" where
  "insert_rows maxChunkAge i [] = ('''', [])"
| "insert_rows maxChunkAge i (None # es) = insert_rows maxChunkAge (Suc i) es"
| "insert_rows maxChunkAge i (Some e # es) =
     (let (q, vs) = insert_rows maxChunkAge (Suc i) es
      in ((if i > 0 then '','' else '''') @ sqlInsertValues @ q,
          (if unixSec (etime e) < maxChunkAge then [] else entry_args e) @ vs))"

text \<open>A failed commit is not noticed; a missing handle is a \<^verbatim>\<open>nil\<close> dereference.\<close>

definition db_flush :: "'w Driver \<Rightarrow> Chunk \<Rightarrow> storageDb \<Rightarrow> 'w
    \<Rightarrow> panic + (string option \<times> storageDb \<times> 'w)" where
  "db_flush D chunk d w =
     (let (rows, vs) = insert_rows (i64 (dbStart d - maxChunkAgeSec d)) 0 (List chunk);
          q = sqlInsert @ rows; p = filePath d
      in if length vs = 0 then Inr (None, d, w)
         else if \<not> handle d then Inl NilDereference
         else case BeginTx D p w of
           (Some err, w) \<Rightarrow> Inr (Some err, d, w)
         | (None, w) \<Rightarrow>
           (case PrepareTx D p q w of
              (Some err, w) \<Rightarrow> Inr (Some err, d, Rollback D p w)
            | (None, w) \<Rightarrow>
              (case ExecTx D p q vs w of
                 (Some err, w) \<Rightarrow> Inr (Some err, d, Rollback D p w)
               | (None, w) \<Rightarrow>
                   let (_, w) = Commit D p w
                   in Inr (None,
                        d\<lparr>dbEnd := max (epochEnd chunk) (dbEnd d),
                          dbNewStart := (if epochStart chunk < dbNewStart d then epochStart chunk
                                         else dbNewStart d)\<rparr>, w))))"

subsection \<open>Closing\<close>

definition checkpoint :: "'w Driver \<Rightarrow> string \<Rightarrow> storageDb \<Rightarrow> 'w \<Rightarrow> 'w" where
  "checkpoint D mode d w =
     (if isOpen d then snd (ExecSql D (filePath d) ''PRAGMA wal_checkpoint(?)'' [ArgText mode] w) else w)"

definition renamed :: "storageDb \<Rightarrow> string" where
  "renamed d = Join (fileDir d) (filePrefix d @ ''_'' @ show_int (dbNewStart d) @ ''.db'')"

definition db_close :: "'w Driver \<Rightarrow> storageDb \<Rightarrow> 'w \<Rightarrow> bool \<times> storageDb \<times> 'w" where
  "db_close D d w =
     (if status d = db_open
      then let w = (if live d then snd (ExecSql D (filePath d) ''VACUUM'' [] w) else w);
               w = CloseSql D (filePath d) w;
               w = (if dbNewStart d < dbStart d then snd (RenameFile D (filePath d) (renamed d) w) else w)
           in (True, d\<lparr>handle := False, status := db_closed\<rparr>, w)
      else (status d = db_closed, d, w))"

definition closeSafe :: "'w Driver \<Rightarrow> int \<Rightarrow> storageDb \<Rightarrow> 'w \<Rightarrow> bool \<times> storageDb \<times> 'w" where
  "closeSafe D now d w = (if lastQuerySec now d < 2 then (False, d, w) else db_close D d w)"

definition db_remove :: "'w Driver \<Rightarrow> storageDb \<Rightarrow> 'w \<Rightarrow> storageDb \<times> 'w" where
  "db_remove D d w =
     (case db_close D d w of
        (closed, d, w) \<Rightarrow>
          if closed \<and> status d = db_closed
          then (d\<lparr>status := db_removing\<rparr>, snd (RemoveFile D (filePath d) w)) else (d, w))"

subsection \<open>Size, names, order\<close>

definition sqlSize :: string where
  "sqlSize =
     newline # CHR 0x09 # CHR 0x09 # ''SELECT '' @
     newline # CHR 0x09 # CHR 0x09 # CHR 0x09 # ''page_count * page_size as total_size, '' @
     newline # CHR 0x09 # CHR 0x09 # CHR 0x09 # ''freelist_count * page_size as freelist_size '' @
     newline # CHR 0x09 # CHR 0x09 # ''FROM  pragma_page_count(), pragma_freelist_count(), pragma_page_size()'' @
     [newline, CHR 0x09]"

definition updateSize :: "'w Driver \<Rightarrow> int \<Rightarrow> storageDb \<Rightarrow> 'w \<Rightarrow> string option \<times> storageDb \<times> 'w" where
  "updateSize D now d w =
     (case db_query D now sqlSize [] d w of
        (Inl err, d, w) \<Rightarrow> (Some err, d, w)
      | (Inr [], d, w) \<Rightarrow> (None, d\<lparr>dbSize := 0\<rparr>, w)
      | (Inr ([ArgInt used, ArgInt freelist] # _), d, w) \<Rightarrow> (None, d\<lparr>dbSize := i64 (used - freelist)\<rparr>, w)
      | (Inr _, d, w) \<Rightarrow> (Some ''sql: Scan error'', d, w))"

definition newDb :: "string \<Rightarrow> string \<Rightarrow> int \<Rightarrow> int \<Rightarrow> storageDb" where
  "newDb dir pre start maxAge =
     \<lparr>live = False, dbSize = 0, status = db_closed, dbStart = start, dbNewStart = start, dbEnd = 0,
      lastQueryEpoch = 0, maxChunkAgeSec = maxAge, fileDir = dir,
      filePath = Join dir (pre @ ''_'' @ show_int start @ ''.db''), filePrefix = pre,
      handle = False, taskCount = 0, dbTasks = []\<rparr>"

text \<open>
  A file found by the walk through the directory: its base name, whether it is a directory, and
  its size. The epochs are read from its name; the other fields keep their zero values.
\<close>

definition file_epochs :: "string \<Rightarrow> string \<Rightarrow> (int \<times> int) option" where
  "file_epochs pre name =
     (let epochs = Split CHR ''_'' (TrimSuffix (TrimPrefix name (pre @ ''_'')) ''.db'')
      in case ParseInt 64 (epochs ! 0) of
           None \<Rightarrow> None
         | Some start \<Rightarrow>
             if length epochs > 1
             then (case ParseInt 64 (epochs ! 1) of None \<Rightarrow> None | Some e \<Rightarrow> Some (start, e))
             else Some (start, 0))"

definition load_file :: "string \<Rightarrow> string \<Rightarrow> string \<times> bool \<times> int \<Rightarrow> storageDb option" where
  "load_file dir pre f =
     (case f of (name, isDir, sz) \<Rightarrow>
        if isDir \<or> \<not> HasPrefix name pre \<or> Ext name \<noteq> ''.db'' then None
        else case file_epochs pre name of
               None \<Rightarrow> None
             | Some (start, e) \<Rightarrow>
                 Some \<lparr>live = False, dbSize = sz, status = db_closed, dbStart = start, dbNewStart = 0,
                       dbEnd = e, lastQueryEpoch = 0, maxChunkAgeSec = 0, fileDir = '''',
                       filePath = Join dir name, filePrefix = '''', handle = False, taskCount = 0,
                       dbTasks = []\<rparr>)"

definition before_db :: "storageDb \<Rightarrow> storageDb \<Rightarrow> bool" where
  "before_db a b =
     (if dbEnd a = 0 \<and> dbEnd b = 0 then dbStart a < dbStart b
      else if dbEnd b = 0 then True
      else if dbEnd a = 0 then False
      else dbEnd a > dbEnd b)"

definition sortDbs :: "storageDb list \<Rightarrow> storageDb list" where
  "sortDbs dbs = SliceStable before_db dbs"

definition initDbs :: "string \<Rightarrow> string \<Rightarrow> (string \<times> bool \<times> int) list \<Rightarrow> storageDb list" where
  "initDbs dir pre files =
     (let dbs = List.map_filter (load_file dir pre) files
      in if length dbs > 1 then sortDbs dbs else dbs)"

subsection \<open>Scheduled tasks of a database\<close>

definition db_schedule :: "int \<Rightarrow> storageDb \<Rightarrow> storageDb" where
  "db_schedule tid d =
     d\<lparr>dbTasks := (if tid \<in> set (dbTasks d) then dbTasks d else dbTasks d @ [tid]),
       taskCount := i32 (taskCount d + 1)\<rparr>"

definition db_cancel :: "int \<Rightarrow> storageDb \<Rightarrow> bool \<times> storageDb" where
  "db_cancel tid d =
     (if tid \<in> set (dbTasks d)
      then (True, d\<lparr>dbTasks := removeAll tid (dbTasks d), taskCount := i32 (taskCount d - 1)\<rparr>)
      else (False, d))"

subsection \<open>The insert statement\<close>

lemma placeholders_values [simp]: "placeholders sqlInsertValues = 4"
  by (simp add: sqlInsertValues_def)

lemma placeholders_sqlInsert [simp]: "placeholders sqlInsert = 0"
  by (simp add: sqlInsert_def)

definition recent :: "int \<Rightarrow> Entry \<Rightarrow> bool" where
  "recent age e = (age \<le> unixSec (etime e))"

definition insert_sql :: "Entry list \<Rightarrow> string" where
  "insert_sql es = sqlInsert @ join_with '','' (map (\<lambda>_. sqlInsertValues) es)"

text \<open>Four placeholders for every entry of the chunk, four values for every entry that is recent.\<close>

lemma insert_rows_counts:
  "insert_rows age i es = (q, vs) \<Longrightarrow>
     placeholders q = 4 * length (filter (\<lambda>x. x \<noteq> None) es) \<and>
     vs = concat (map entry_args (filter (recent age) (List.map_filter id es)))"
proof (induction age i es arbitrary: q vs rule: insert_rows.induct)
  case (3 age i e es)
  then show ?case by (auto simp: recent_def List.map_filter_simps split: prod.splits)
qed (auto simp: List.map_filter_simps)

lemma join_commas: "join_with sep (p # ps) = p @ concat (map (\<lambda>q. sep @ q) ps)"
  by (induction ps arbitrary: p) auto

lemma insert_rows_text:
  "fst (insert_rows age (Suc i) (map Some es)) = concat (map (\<lambda>q. '','' @ q) (map (\<lambda>_. sqlInsertValues) es))"
  by (induction es arbitrary: i) (simp_all add: Let_def split_beta)

lemma insert_rows_all:
  "sqlInsert @ fst (insert_rows age 0 (map Some es)) = insert_sql es"
proof (cases es)
  case (Cons e es')
  then show ?thesis
    using insert_rows_text [of age 0 es'] join_commas [of "'',''" sqlInsertValues]
    by (simp add: insert_sql_def Let_def split_beta)
qed (simp add: insert_sql_def)

lemma map_filter_Some: "List.map_filter id (map Some es) = es"
  by (induction es) (simp_all add: List.map_filter_simps)

lemma length_entry_args: "length (concat (map entry_args es)) = 4 * length es"
  by (induction es) (simp_all add: entry_args_def)

lemma List_wf:
  assumes "wf_chunk c"
  shows "List c = map Some (contents c)"
proof -
  have "entries c i = Some (the (entries c i))" if "i < nat (writes c)" for i
  proof -
    have "int i < writes c" using that by simp
    then have "entries c i \<noteq> None" using assms unfolding wf_chunk_def by blast
    then show ?thesis by simp
  qed
  then show ?thesis by (simp add: List_def contents_def)
qed

lemma length_filter_all: "length (filter P xs) = length xs \<longleftrightarrow> list_all P xs"
proof (induction xs)
  case (Cons x xs)
  have "length (filter P xs) \<noteq> Suc (length xs)" using length_filter_le [of P xs] by linarith
  with Cons show ?case by auto
qed simp

text \<open>The statement and the values fit together exactly when no entry is too old.\<close>

lemma insert_fits:
  assumes "insert_rows age 0 (map Some es) = (q, vs)"
  shows "placeholders (sqlInsert @ q) = length vs \<longleftrightarrow> list_all (recent age) es"
    and "list_all (recent age) es \<Longrightarrow> sqlInsert @ q = insert_sql es \<and> vs = concat (map entry_args es)"
    and "vs = [] \<longleftrightarrow> list_all (\<lambda>e. \<not> recent age e) es"
proof -
  have c: "placeholders q = 4 * length es" "vs = concat (map entry_args (filter (recent age) es))"
    using insert_rows_counts [OF assms] by (simp_all add: map_filter_Some)
  then show "placeholders (sqlInsert @ q) = length vs \<longleftrightarrow> list_all (recent age) es"
    by (simp add: length_entry_args) (metis length_filter_all)
  show "list_all (recent age) es \<Longrightarrow> sqlInsert @ q = insert_sql es \<and> vs = concat (map entry_args es)"
    using insert_rows_all [of age es] assms c(2) by (simp add: list_all_iff filter_id_conv)
  show "vs = [] \<longleftrightarrow> list_all (\<lambda>e. \<not> recent age e) es"
    by (auto simp: c(2) list_all_iff filter_empty_conv entry_args_def)
qed

subsection \<open>Order of the databases\<close>

lemma before_db_asym: "before_db a b \<Longrightarrow> \<not> before_db b a"
  by (auto simp: before_db_def split: if_splits)

lemma before_db_trans: "\<not> before_db b a \<Longrightarrow> \<not> before_db c b \<Longrightarrow> \<not> before_db c a"
  by (auto simp: before_db_def split: if_splits)

lemma sortDbs_sorted: "sorted_wrt (\<lambda>a b. \<not> before_db b a) (sortDbs ds)" "mset (sortDbs ds) = mset ds"
  unfolding sortDbs_def
  by (rule sorted_SliceStable; use before_db_asym before_db_trans in blast) (rule mset_SliceStable)

end
