(* ===== verification/SqliteStorage.thy ===== *)
theory SqliteStorage imports StorageDb begin

text \<open>
  \<^verbatim>\<open>sqlite/storage.go\<close>: the storage over its databases. The databases are shared between the list
  of all databases and the list of live ones, so they are kept in a heap, and the two lists hold
  indices into it.
\<close>

record Config =
  Dir :: string
  Prefix :: string
  SQLiteOptions :: "(string \<times> string) list"
  ExprBuilder :: "string \<Rightarrow> expr_error + Expr"
  MaxChunkAgeSec :: int
  MaxFilesizeMB :: int
  TotalSizeCapMB :: int
  MaxOpenedDB :: int
  MaxRunningTasks :: int
  CloseIdleSec :: int
  IntervalSizeCheckSec :: int
  IntervalScheduledTasksMs :: int
  IntervalWalCheckpointSec :: int
  WalCheckpointMode :: string

text \<open>
  The result of a query and the tasks that will bring more. A callback is the query it runs;
  \<open>taskDb\<close> is the field \<^verbatim>\<open>db\<close> of a task.
\<close>

record Tick =
  Index :: int
  Start :: int
  End :: int
  Count :: int
  Debug :: int
  Info :: int
  Warn :: int
  Error :: int

record Output =
  Scheduled :: bool
  TaskIds :: "int list"
  OutError :: "string option"
  Ticks :: "Tick list"
  Entries :: "(int \<times> int \<times> int \<times> string) list"

datatype callback = ListEntries string "sqlarg list" | ListTicks string "sqlarg list"

datatype task_state = task_created | task_process | task_finished | task_canceled

record dbTask =
  taskDb :: "nat option"
  state :: task_state
  taskOutput :: Output
  taskCallback :: callback

record storage =
  heap :: "storageDb list"
  dbs :: "nat list"
  liveDbs :: "nat list"
  sconfig :: Config
  taskIdSeq :: int
  tasks :: "int \<rightharpoonup> dbTask"
  taskMap :: "int list"
  numActiveTasks :: int

definition StorageSQLiteOptions :: "(string \<times> string) list" where
  "StorageSQLiteOptions =
     [(''_journal_mode'', ''WAL''), (''_synchronous'', ''NORMAL''), (''_cache_size'', ''409600'')]"

subsection \<open>Opening\<close>

text \<open>
  The configuration as it is passed to \<^verbatim>\<open>New\<close>, which may be \<^verbatim>\<open>nil\<close>, and in which \<^verbatim>\<open>ExprBuilder\<close> may be
  \<^verbatim>\<open>nil\<close>: then it is the zero value, and \<^verbatim>\<open>ExpBuilderFn\<close>.
\<close>

definition zeroConfig :: Config where
  "zeroConfig = \<lparr>Dir = '''', Prefix = '''', SQLiteOptions = [], ExprBuilder = (\<lambda>_. Inr \<lparr>Sql = '''', Args = []\<rparr>),
     MaxChunkAgeSec = 0, MaxFilesizeMB = 0, TotalSizeCapMB = 0, MaxOpenedDB = 0, MaxRunningTasks = 0, CloseIdleSec = 0,
     IntervalSizeCheckSec = 0, IntervalScheduledTasksMs = 0, IntervalWalCheckpointSec = 0, WalCheckpointMode = ''''\<rparr>"

definition default_builder :: "string \<Rightarrow> expr_error + Expr" where
  "default_builder expression = fst (ExpBuilderFn Map.empty expression)"

definition given_config :: "(Config \<times> (string \<Rightarrow> expr_error + Expr) option) option \<Rightarrow> Config" where
  "given_config g =
     (let (c, b) = (case g of None \<Rightarrow> (zeroConfig, None) | Some cb \<Rightarrow> cb)
      in c\<lparr>ExprBuilder := (case b of None \<Rightarrow> default_builder | Some b \<Rightarrow> b)\<rparr>)"

text \<open>
  \<^verbatim>\<open>strings.Fields\<close> and \<^verbatim>\<open>strings.ToLower\<close> on ASCII bytes: the model of \<^verbatim>\<open>New\<close> is one for a \<^verbatim>\<open>Prefix\<close>
  without other bytes, which Go would decode as UTF-8.
\<close>

definition ascii_space :: "char \<Rightarrow> bool" where
  "ascii_space c = (c = CHR '' '' \<or> (9 \<le> byte c \<and> byte c \<le> 13))"

fun Fields :: "string \<Rightarrow> string \<Rightarrow> string list" where
  "Fields acc [] = (if acc = '''' then [] else [acc])"
| "Fields acc (c # cs) =
     (if ascii_space c then (if acc = '''' then Fields '''' cs else acc # Fields '''' cs)
      else Fields (acc @ [c]) cs)"

definition lower_byte :: "char \<Rightarrow> char" where
  "lower_byte c = (if 65 \<le> byte c \<and> byte c \<le> 90 then char_of (byte c + 32) else c)"

definition config_defaults :: "Config \<Rightarrow> Config" where
  "config_defaults c =
     (let c = (if SQLiteOptions c = [] then c\<lparr>SQLiteOptions := StorageSQLiteOptions\<rparr> else c);
          c = (if Dir c = '''' then c\<lparr>Dir := ''./logs''\<rparr> else c);
          c = c\<lparr>Prefix := TrimSpace (Prefix c)\<rparr>;
          c = c\<lparr>Prefix := (if Prefix c = '''' then ''sqlog''
                 else map lower_byte (join_with ''_'' (Fields '''' (Prefix c))))\<rparr>;
          c = (if MaxFilesizeMB c \<le> 0 then c\<lparr>MaxFilesizeMB := 20\<rparr> else c);
          c = (if TotalSizeCapMB c \<le> 0 then c\<lparr>TotalSizeCapMB := 1000\<rparr> else c);
          c = (if IntervalScheduledTasksMs c \<le> 0 then c\<lparr>IntervalScheduledTasksMs := 100\<rparr> else c);
          c = (if MaxRunningTasks c \<le> 0 then c\<lparr>MaxRunningTasks := 500\<rparr> else c);
          c = (if CloseIdleSec c \<le> 0 then c\<lparr>CloseIdleSec := 30\<rparr> else c);
          c = (if IntervalSizeCheckSec c \<le> 0 then c\<lparr>IntervalSizeCheckSec := 5\<rparr> else c);
          c = (if MaxChunkAgeSec c \<le> 0 then c\<lparr>MaxChunkAgeSec := 3600\<rparr> else c)
      in if IntervalWalCheckpointSec c > 0
         then c\<lparr>WalCheckpointMode :=
                (if List.member [''PASSIVE'', ''FULL'', ''RESTART'', ''TRUNCATE''] (ToUpper (WalCheckpointMode c))
                 then ToUpper (WalCheckpointMode c) else ''TRUNCATE'')\<rparr>
         else c)"

text \<open>
  \<^verbatim>\<open>New\<close>, on the files that the walk through the directory finds (creating the directory and the
  walk itself are left out), at the time \<open>now\<close>. The last database of the sorted list is the live one.
\<close>

definition New :: "'w Driver \<Rightarrow> Config \<Rightarrow> (string \<times> bool \<times> int) list \<Rightarrow> int \<Rightarrow> 'w
    \<Rightarrow> (string + storage) \<times> 'w" where
  "New D c files now w =
     (let c = config_defaults c;
          ds = initDbs (Dir c) (Prefix c) files;
          ds = (if ds = [] then [newDb (Dir c) (Prefix c) now (MaxChunkAgeSec c)] else ds);
          k = length ds - 1
      in case connect D (SQLiteOptions c) now (ds ! k) w of
           (Some err, _, w) \<Rightarrow> (Inl err, w)
         | (None, d, w) \<Rightarrow>
             (Inr \<lparr>heap = ds[k := d\<lparr>live := True\<rparr>], dbs = [0 ..< length ds], liveDbs = [k], sconfig = c,
                   taskIdSeq = 0, tasks = Map.empty, taskMap = [], numActiveTasks = 0\<rparr>, w))"

subsection \<open>Flush and Close\<close>

definition update_db :: "nat \<Rightarrow> storageDb \<Rightarrow> storage \<Rightarrow> storage" where
  "update_db k d s = s\<lparr>heap := (heap s)[k := d]\<rparr>"

definition covers :: "Chunk \<Rightarrow> storageDb \<Rightarrow> bool" where
  "covers chunk d = (dbStart d \<le> epochStart chunk \<and> (dbEnd d = 0 \<or> dbEnd d \<ge> epochEnd chunk))"

definition flush_target_db :: "Chunk \<Rightarrow> storage \<Rightarrow> panic + nat" where
  "flush_target_db chunk s =
     (case find (\<lambda>k. covers chunk (heap s ! k)) (liveDbs s) of
        Some k \<Rightarrow> Inr k
      | None \<Rightarrow> if liveDbs s = [] then Inl IndexOutOfRange else Inr (last (liveDbs s)))"

definition storage_Flush :: "'w Driver \<Rightarrow> Chunk \<Rightarrow> storage \<Rightarrow> 'w
    \<Rightarrow> panic + (string option \<times> storage \<times> 'w)" where
  "storage_Flush D chunk s w =
     (case flush_target_db chunk s of
        Inl p \<Rightarrow> Inl p
      | Inr k \<Rightarrow>
          if \<not> isOpen (heap s ! k) then Inr (Some ''db is closed'', s, w)
          else map_sum (\<lambda>p. p) (\<lambda>(err, d, w). (err, update_db k d s, w)) (db_flush D chunk (heap s ! k) w))"

fun close_all :: "'w Driver \<Rightarrow> nat list \<Rightarrow> storage \<Rightarrow> 'w \<Rightarrow> storage \<times> 'w" where
  "close_all D [] s w = (s, w)"
| "close_all D (k # ks) s w =
     (case db_close D (heap s ! k) w of (_, d, w) \<Rightarrow> close_all D ks (update_db k d s) w)"

definition storage_Close :: "'w Driver \<Rightarrow> storage \<Rightarrow> 'w \<Rightarrow> string option \<times> storage \<times> 'w" where
  "storage_Close D s w = (None, close_all D (dbs s) s w)"

text \<open>
  A database that is open without a handle: \<^verbatim>\<open>close\<close>, \<^verbatim>\<open>checkpoint\<close> and the queries would dereference \<^verbatim>\<open>nil\<close>. With one
  in the storage every operation that can come to it counts as a panic, whether it comes to it or not.
\<close>

definition dangling :: "storage \<Rightarrow> bool" where
  "dangling s = list_ex (\<lambda>d. isOpen d \<and> \<not> handle d) (heap s)"

text \<open>
  The storage behind the interface of the ingester. A panic of \<^verbatim>\<open>Flush\<close> ends the program: it is kept
  beside the storage, which is then left alone.
\<close>

definition sqliteStorage :: "'w Driver \<Rightarrow> (panic option \<times> storage \<times> 'w) Storage" where
  "sqliteStorage D =
     \<lparr>Flush = (\<lambda>c (p, s, w). if p \<noteq> None then (Some ''panic'', (p, s, w))
         else (case storage_Flush D c s w of
                 Inl q \<Rightarrow> (Some ''panic'', (Some q, s, w))
               | Inr (err, s, w) \<Rightarrow> (err, (None, s, w)))),
      CloseStorage = (\<lambda>(p, s, w). case storage_Close D s w of
         (err, s', w') \<Rightarrow> (err, (if dangling s then Some NilDereference else p, s', w')))\<rparr>"

subsection \<open>The storage keeps its contract\<close>

text \<open>
  What the SQL driver documents, for a function \<open>J\<close> from the state of the world to the entries
  that are committed, in the order of the commits: only a commit changes them; a statement with
  as many arguments as placeholders is needed; and a commit after an insert either adds all its
  rows or fails and adds none.
\<close>

definition sql_driver :: "'w Driver \<Rightarrow> ('w \<Rightarrow> Entry list) \<Rightarrow> bool" where
  "sql_driver D J =
     ((\<forall>p q vs w. J (snd (ExecSql D p q vs w)) = J w) \<and>
      (\<forall>p w. J (CloseSql D p w) = J w) \<and>
      (\<forall>p w. J (snd (BeginTx D p w)) = J w) \<and>
      (\<forall>p q w. J (snd (PrepareTx D p q w)) = J w) \<and>
      (\<forall>p q vs w. J (snd (ExecTx D p q vs w)) = J w) \<and>
      (\<forall>p w. J (Rollback D p w) = J w) \<and>
      (\<forall>p p' w. J (snd (RenameFile D p p' w)) = J w) \<and>
      (\<forall>p q vs w. fst (ExecTx D p q vs w) = None \<longrightarrow> placeholders q = length vs) \<and>
      (\<forall>p es w. fst (ExecTx D p (insert_sql es) (concat (map entry_args es)) w) = None \<longrightarrow>
         (case Commit D p (snd (ExecTx D p (insert_sql es) (concat (map entry_args es)) w)) of
            (None, w') \<Rightarrow> J w' = J w @ es
          | (Some err, w') \<Rightarrow> J w' = J w)))"

definition min_epoch :: "storageDb \<Rightarrow> int" where
  "min_epoch d = i64 (dbStart d - maxChunkAgeSec d)"

lemma sql_driverD:
  assumes "sql_driver D J"
  shows "ExecSql D p q vs w = (r, w') \<Longrightarrow> J w' = J w" "J (CloseSql D p w) = J w"
    "BeginTx D p w = (r, w') \<Longrightarrow> J w' = J w" "PrepareTx D p q w = (r, w') \<Longrightarrow> J w' = J w"
    "ExecTx D p q vs w = (r, w') \<Longrightarrow> J w' = J w" "J (Rollback D p w) = J w"
    "RenameFile D p p' w = (r, w') \<Longrightarrow> J w' = J w"
    "ExecTx D p q vs w = (None, w') \<Longrightarrow> placeholders q = length vs"
  using assms unfolding sql_driver_def by (metis fst_conv snd_conv)+

lemma sql_driver_commit:
  assumes "sql_driver D J" "ExecTx D p (insert_sql es) (concat (map entry_args es)) w = (None, w')"
  shows "J (snd (Commit D p w')) = (if fst (Commit D p w') = None then J w @ es else J w)"
proof -
  have law: "\<forall>p es w. fst (ExecTx D p (insert_sql es) (concat (map entry_args es)) w) = None \<longrightarrow>
      (case Commit D p (snd (ExecTx D p (insert_sql es) (concat (map entry_args es)) w)) of
         (None, w') \<Rightarrow> J w' = J w @ es | (Some err, w') \<Rightarrow> J w' = J w)"
    using assms(1) unfolding sql_driver_def by (elim conjE) assumption
  show ?thesis
    using law [rule_format, of p es w] assms(2) by (cases "Commit D p w'") (auto split: option.splits)
qed

lemma db_flush_error:
  assumes D: "sql_driver D J" and f: "db_flush D c d w = Inr (Some err, d', w')"
  shows "J w' = J w"
  using f sql_driverD(3,4,5,6) [OF D]
  by (fastforce simp: db_flush_def Let_def split: prod.splits if_splits option.splits)

lemma db_flush_success:
  assumes "db_flush D c d w = Inr (None, d', w')"
    and "insert_rows (min_epoch d) 0 (List c) = (q, vs)"
  shows "(vs = [] \<and> w' = w) \<or>
    (\<exists>w1 w2 w3. BeginTx D (filePath d) w = (None, w1) \<and> PrepareTx D (filePath d) (sqlInsert @ q) w1 = (None, w2) \<and>
       ExecTx D (filePath d) (sqlInsert @ q) vs w2 = (None, w3) \<and> w' = snd (Commit D (filePath d) w3))"
  using assms by (auto simp: db_flush_def Let_def min_epoch_def split: prod.splits if_splits option.splits)

text \<open>
  A flush of one database: an error changes nothing; success means that all entries were recent
  and committed, or all too old, or that the commit failed.
\<close>

lemma db_flush_result:
  assumes D: "sql_driver D J" and c: "wf_chunk c" and f: "db_flush D c d w = Inr (r, d', w')"
  shows "r = None \<Longrightarrow> J w' = J w \<or> (list_all (recent (min_epoch d)) (contents c) \<and> J w' = J w @ contents c)"
    and "r = None \<Longrightarrow> list_all (recent (min_epoch d)) (contents c) \<or> list_all (\<lambda>e. \<not> recent (min_epoch d) e) (contents c)"
    and "status d' = status d \<and> handle d' = handle d"
proof -
  obtain q vs where qv: "insert_rows (min_epoch d) 0 (map Some (contents c)) = (q, vs)" by fastforce
  note fits = insert_fits [OF qv]
  have F: "db_flush D c d w = Inr (r, d', w')" "insert_rows (min_epoch d) 0 (List c) = (q, vs)"
    using f qv List_wf [OF c] by simp_all
  show "status d' = status d \<and> handle d' = handle d"
    using F by (auto simp: db_flush_def Let_def min_epoch_def split: prod.splits if_splits option.splits)
  have ok: "(list_all (\<lambda>e. \<not> recent (min_epoch d) e) (contents c) \<and> J w' = J w) \<or>
      (list_all (recent (min_epoch d)) (contents c) \<and> (J w' = J w \<or> J w' = J w @ contents c))" if "r = None"
  proof -
    have F': "db_flush D c d w = Inr (None, d', w')" using F(1) that by simp
    consider "vs = []" "w' = w" | w1 w2 w3 where "BeginTx D (filePath d) w = (None, w1)"
        "PrepareTx D (filePath d) (sqlInsert @ q) w1 = (None, w2)"
        "ExecTx D (filePath d) (sqlInsert @ q) vs w2 = (None, w3)" "w' = snd (Commit D (filePath d) w3)"
      using db_flush_success [OF F' F(2)] by blast
    then show ?thesis
    proof cases
      case 1
      then show ?thesis using fits(3) by simp
    next
      case 2
      have r: "list_all (recent (min_epoch d)) (contents c)"
        using fits(1) sql_driverD(8) [OF D 2(3)] by simp
      have "ExecTx D (filePath d) (insert_sql (contents c)) (concat (map entry_args (contents c))) w2 = (None, w3)"
        using 2(3) fits(2) [OF r] by simp
      from sql_driver_commit [OF D this] have "J w' = J w2 @ contents c \<or> J w' = J w2"
        using 2(4) by (auto split: if_splits)
      moreover have "J w2 = J w" using sql_driverD(3,4) [OF D] 2(1,2) by metis
      ultimately show ?thesis using r by auto
    qed
  qed
  show "r = None \<Longrightarrow> J w' = J w \<or> (list_all (recent (min_epoch d)) (contents c) \<and> J w' = J w @ contents c)"
    "r = None \<Longrightarrow> list_all (recent (min_epoch d)) (contents c) \<or> list_all (\<lambda>e. \<not> recent (min_epoch d) e) (contents c)"
    using ok by blast+
qed

lemma close_all_journal: "sql_driver D J \<Longrightarrow> J (snd (close_all D ks s w)) = J w"
proof (induction ks arbitrary: s w)
  case (Cons k ks)
  obtain b d w' where db: "db_close D (heap s ! k) w = (b, d, w')" by (cases "db_close D (heap s ! k) w") auto
  then have "J w' = J w"
    using Cons.prems sql_driverD(2) [OF Cons.prems] unfolding sql_driver_def
    by (auto simp: db_close_def Let_def split: if_splits)
  with Cons db show ?case by simp
qed simp

text \<open>So the storage is a storage for the ingester: what it commits are entries of the chunks.\<close>

lemma sqlite_storage_contract:
  assumes D: "sql_driver D J"
  shows "storage_contract (sqliteStorage D) (\<lambda>(p, s, w). J w)"
proof
  fix c and x x' :: "panic option \<times> storage \<times> 'a"
  assume c: "wf_chunk c" and f: "Flush (sqliteStorage D) c x = (None, x')"
  obtain p s w p' s' w' where x: "x = (p, s, w)" "x' = (p', s', w')" by (metis prod_cases3)
  obtain k d' where "db_flush D c (heap s ! k) w = Inr (None, d', w')"
    using f by (auto simp: x sqliteStorage_def storage_Flush_def map_sum_Inr_iff split: sum.splits if_splits)
  from db_flush_result(1) [OF D c this]
  show "\<exists>es. subseq es (contents c) \<and> (case x' of (p, s, w) \<Rightarrow> J w) = (case x of (p, s, w) \<Rightarrow> J w) @ es"
    by (auto simp: x)
next
  fix c err and x x' :: "panic option \<times> storage \<times> 'a"
  assume f: "Flush (sqliteStorage D) c x = (Some err, x')"
  obtain p s w p' s' w' where x: "x = (p, s, w)" "x' = (p', s', w')" by (metis prod_cases3)
  from f have "w' = w \<or> (\<exists>k d'. db_flush D c (heap s ! k) w = Inr (Some err, d', w'))"
    by (auto simp: x sqliteStorage_def storage_Flush_def map_sum_Inr_iff split: sum.splits if_splits)
  then show "(case x' of (p, s, w) \<Rightarrow> J w) = (case x of (p, s, w) \<Rightarrow> J w)"
    using db_flush_error [OF D] by (auto simp: x)
next
  fix x :: "panic option \<times> storage \<times> 'a"
  obtain p s w where x: "x = (p, s, w)" by (metis prod_cases3)
  obtain s' w' where c: "close_all D (dbs s) s w = (s', w')" by (meson surj_pair)
  then show "(case snd (CloseStorage (sqliteStorage D) x) of (p, s, w) \<Rightarrow> J w) = (case x of (p, s, w) \<Rightarrow> J w)"
    using close_all_journal [OF D, of "dbs s" s w] by (simp add: x sqliteStorage_def storage_Close_def)
qed

end
