(* ===== verification/SqliteQuery.thy ===== *)
theory SqliteQuery imports SqliteStorage begin

text \<open>
  \<^verbatim>\<open>sqlite/api_entries.go\<close> and \<^verbatim>\<open>sqlite/api_ticks.go\<close>: a page of entries and the counts per interval. Both
  build one SQL query, ask the open databases that can have results, and schedule a task for a
  closed one. \<open>now\<close> is \<^verbatim>\<open>time.Now().Unix()\<close>.
\<close>

subsection \<open>Inputs and results\<close>

record TicksInput =
  ticksExpr :: string
  ticksLevel :: "string list"
  EpochEnd :: int
  IntervalSec :: int
  ticksMaxResult :: int

record EntriesInput =
  entriesExpr :: string
  entriesLevel :: "string list"
  Direction :: string
  EpochStart :: int
  NanosStart :: int
  entriesMaxResult :: int

datatype api_error = BadExpr expr_error | DbError string

definition zeroOutput :: Output where
  "zeroOutput = \<lparr>Scheduled = False, TaskIds = [], OutError = None, Ticks = [], Entries = []\<rparr>"

subsection \<open>Reading rows\<close>

fun entry_row :: "sqlarg list \<Rightarrow> (int \<times> int \<times> int \<times> string) option" where
  "entry_row [ArgInt epoch, ArgInt nanos, ArgInt lvl, ArgText body] = Some (epoch, nanos, lvl, body)"
| "entry_row _ = None"

fun tick_row :: "sqlarg list \<Rightarrow> Tick option" where
  "tick_row [ArgInt i, ArgInt s, ArgInt e, ArgInt c, ArgInt d, ArgInt f, ArgInt w, ArgInt x] =
     Some \<lparr>Index = i, Start = s, End = e, Count = c, Debug = d, Info = f, Warn = w, Error = x\<rparr>"
| "tick_row _ = None"

definition list_rows :: "(sqlarg list \<Rightarrow> 'r option) \<Rightarrow> 'w Driver \<Rightarrow> int \<Rightarrow> string \<Rightarrow> sqlarg list
    \<Rightarrow> storageDb \<Rightarrow> 'w \<Rightarrow> (string + 'r list) \<times> storageDb \<times> 'w" where
  "list_rows row D now q as d w =
     (case db_query D now q as d w of
        (Inl err, d, w) \<Rightarrow> (Inl err, d, w)
      | (Inr rows, d, w) \<Rightarrow>
          (case those (map row rows) of
             None \<Rightarrow> (Inl ''sql: Scan error'', d, w)
           | Some rs \<Rightarrow> (Inr rs, d, w)))"

definition listEntries :: "'w Driver \<Rightarrow> int \<Rightarrow> string \<Rightarrow> sqlarg list \<Rightarrow> storageDb \<Rightarrow> 'w
    \<Rightarrow> (string + (int \<times> int \<times> int \<times> string) list) \<times> storageDb \<times> 'w" where
  "listEntries = list_rows entry_row"

definition listTicks :: "'w Driver \<Rightarrow> int \<Rightarrow> string \<Rightarrow> sqlarg list \<Rightarrow> storageDb \<Rightarrow> 'w
    \<Rightarrow> (string + Tick list) \<times> storageDb \<times> 'w" where
  "listTicks = list_rows tick_row"

subsection \<open>Scheduling\<close>

text \<open>
  A task for each database. A task is known by its id: the two maps of the code hold the same
  object, here the entry of \<open>tasks\<close>. The field \<^verbatim>\<open>db\<close> of the task is not set.
\<close>

definition new_task :: "callback \<Rightarrow> dbTask" where
  "new_task cb = \<lparr>taskDb = None, state = task_created, taskOutput = zeroOutput, taskCallback = cb\<rparr>"

fun storage_schedule :: "nat list \<Rightarrow> callback \<Rightarrow> storage \<Rightarrow> int list \<times> storage" where
  "storage_schedule [] cb s = ([], s)"
| "storage_schedule (k # ks) cb s =
     (let tid = i32 (taskIdSeq s + 1);
          s = s\<lparr>taskIdSeq := tid, tasks := (tasks s)(tid \<mapsto> new_task cb), taskMap := List.insert tid (taskMap s)\<rparr>;
          s = update_db k (db_schedule tid (heap s ! k)) s;
          (tids, s) = storage_schedule ks cb s
      in (tid # tids, s))"

subsection \<open>The condition on levels\<close>

definition level_sql :: "string list \<Rightarrow> string" where
  "level_sql ls =
     (let levels = List.member ls
      in if levels ''error'' \<and> levels ''warn'' \<and> levels ''info'' then '' e.level >= 0 ''
         else
           let (q, clause) =
                 (if levels ''error'' \<and> levels ''warn'' then ('' e.level >= 4 '', '' OR '')
                  else if levels ''error'' then ('' e.level >= 8 '', '' OR '')
                  else if levels ''warn'' then ('' (e.level BETWEEN 4 AND 7) '', '' OR '')
                  else ('''', ''''));
               (q, clause) =
                 (if levels ''info'' then (q @ clause @ '' (e.level BETWEEN 0 AND 3) '', '' OR '')
                  else (q, clause))
           in if levels ''debug'' then q @ clause @ '' e.level < 0 '' else q)"

text \<open>\<^verbatim>\<open>len(levels) > 0 && len(levels) != 4\<close>, of the map of the levels.\<close>

definition filters_levels :: "string list \<Rightarrow> bool" where
  "filters_levels ls = (length (remdups ls) > 0 \<and> length (remdups ls) \<noteq> 4)"

subsection \<open>A page of entries\<close>

definition sqlSeekPageAfter :: string where
  "sqlSeekPageAfter = ''SELECT e.epoch_secs, e.nanos, e.level, e.content FROM entries e '' @
     ''WHERE (e.epoch_secs > ? OR (e.epoch_secs = ? AND e.nanos > ?)) ''"

definition sqlSeekPageBefore :: string where
  "sqlSeekPageBefore = ''SELECT e.epoch_secs, e.nanos, e.level, e.content FROM entries e '' @
     ''WHERE (e.epoch_secs < ? OR (e.epoch_secs = ? AND e.nanos < ?)) ''"

definition sqlSeekPageAfterOrder :: string where
  "sqlSeekPageAfterOrder = '' ORDER BY e.epoch_secs ASC, e.nanos ASC LIMIT ?''"

definition sqlSeekPageBeforeOrder :: string where
  "sqlSeekPageBeforeOrder = '' ORDER BY e.epoch_secs DESC, e.nanos DESC LIMIT ?''"

text \<open>The text of the query and its arguments, for the start \<open>epoch_start\<close>.\<close>

definition entries_query :: "(string \<Rightarrow> expr_error + Expr) \<Rightarrow> EntriesInput \<Rightarrow> int
    \<Rightarrow> expr_error + (string \<times> sqlarg list)" where
  "entries_query build input epoch_start =
     (let before = (Direction input = ''before'');
          q = (if before then sqlSeekPageBefore else sqlSeekPageAfter);
          as = [ArgInt epoch_start, ArgInt epoch_start, ArgInt (NanosStart input)];
          q = (if filters_levels (entriesLevel input)
               then q @ '' AND ('' @ level_sql (entriesLevel input) @ '') '' else q);
          expr = TrimSpace (entriesExpr input);
          order = (if before then sqlSeekPageBeforeOrder else sqlSeekPageAfterOrder);
          limit = ArgInt (min (max (entriesMaxResult input) 10) 100)
      in if expr = '''' then Inr (q @ order, as @ [limit])
         else case build expr of
                Inl err \<Rightarrow> Inl err
              | Inr compiled \<Rightarrow>
                  if Sql compiled \<noteq> ''''
                  then Inr (q @ '' AND ('' @ Sql compiled @ '')'' @ order, as @ Args compiled @ [limit])
                  else Inr (q @ order, as @ [limit]))"

text \<open>The databases to ask, in the order to ask them.\<close>

definition entries_dbs :: "string \<Rightarrow> int \<Rightarrow> storage \<Rightarrow> nat list" where
  "entries_dbs direction epoch_start s =
     (let ks = filter (\<lambda>k. let d = heap s ! k
                           in if direction = ''before'' then dbStart d \<le> epoch_start
                              else dbEnd d = 0 \<or> dbEnd d \<ge> epoch_start) (dbs s)
      in if direction = ''before''
         then SliceStable (\<lambda>i j. dbStart (heap s ! i) > dbStart (heap s ! j)) ks
         else SliceStable (\<lambda>i j. dbStart (heap s ! i) < dbStart (heap s ! j)) ks)"

fun entries_loop :: "'w Driver \<Rightarrow> int \<Rightarrow> int \<Rightarrow> string \<Rightarrow> sqlarg list \<Rightarrow> nat list
    \<Rightarrow> (int \<times> int \<times> int \<times> string) list \<Rightarrow> storage \<Rightarrow> 'w \<Rightarrow> (string + Output) \<times> storage \<times> 'w" where
  "entries_loop D now maxResult q as [] list s w = (Inr (zeroOutput\<lparr>Entries := list\<rparr>), s, w)"
| "entries_loop D now maxResult q as (k # ks) list s w =
     (if isOpen (heap s ! k)
      then case listEntries D now q as (heap s ! k) w of
             (Inl err, d, w) \<Rightarrow> (Inl err, update_db k d s, w)
           | (Inr ll, d, w) \<Rightarrow>
               if int (length (list @ ll)) \<ge> maxResult
               then (Inr (zeroOutput\<lparr>Entries := list @ ll\<rparr>), update_db k d s, w)
               else entries_loop D now maxResult q as ks (list @ ll) (update_db k d s) w
      else let (tids, s) = storage_schedule [k] (ListEntries q as) s
           in (Inr (zeroOutput\<lparr>Scheduled := True, TaskIds := tids, Entries := list\<rparr>), s, w))"

definition storage_Entries :: "'w Driver \<Rightarrow> EntriesInput \<Rightarrow> int \<Rightarrow> storage \<Rightarrow> 'w
    \<Rightarrow> (api_error + Output) \<times> storage \<times> 'w" where
  "storage_Entries D input now s w =
     (let epoch_start = (if EpochStart input = 0 then now else EpochStart input)
      in case entries_query (ExprBuilder (sconfig s)) input epoch_start of
           Inl err \<Rightarrow> (Inl (BadExpr err), s, w)
         | Inr (q, as) \<Rightarrow>
             (case entries_loop D now (entriesMaxResult input) q as
                     (entries_dbs (Direction input) epoch_start s) [] s w of
                (r, s, w) \<Rightarrow> (map_sum DbError (\<lambda>x. x) r, s, w)))"

subsection \<open>Counts per interval\<close>

definition source_line :: "nat \<Rightarrow> string \<Rightarrow> string" where
  "source_line n l = newline # replicate n CHR 0x09 @ l"

definition sqlTicksInit :: string where
  "sqlTicksInit =
     source_line 2 ''WITH RECURSIVE series(idx, epoch_start, epoch_end) AS ('' @
     source_line 3 ''SELECT ?-1, ? - ?, ? '' @
     source_line 3 ''UNION ALL '' @
     source_line 3 ''SELECT idx-1, epoch_start - ?, epoch_end - ? FROM series LIMIT ?'' @
     source_line 2 '')'' @ [CHR 0x09] @
     source_line 2 ''SELECT '' @
     source_line 3 ''c.idx, '' @
     source_line 3 ''c.epoch_start, '' @
     source_line 3 ''c.epoch_end,'' @
     source_line 3 ''COUNT(e.epoch_secs) AS count,'' @
     source_line 3 ''COUNT(CASE WHEN e.level < 0 THEN 1 END) AS count_debug,'' @
     source_line 3 ''COUNT(CASE WHEN e.level >= 0 AND e.level < 4 THEN 1 END) AS count_info,'' @
     source_line 3 ''COUNT(CASE WHEN e.level >= 4 AND e.level < 8 THEN 1 END) AS count_warn,'' @
     source_line 3 ''COUNT(CASE WHEN e.level >= 8 THEN 1 END) AS count_error'' @
     source_line 2 ''FROM series c'' @
     source_line 2 ''JOIN entries e ON e.epoch_secs >= c.epoch_start AND e.epoch_secs < c.epoch_end'' @
     source_line 1 ''''"

definition sqlTicksEnd :: string where
  "sqlTicksEnd = ''GROUP BY c.epoch_start, c.epoch_end''"

definition ticks_query :: "(string \<Rightarrow> expr_error + Expr) \<Rightarrow> TicksInput \<Rightarrow> int
    \<Rightarrow> expr_error + (string \<times> sqlarg list)" where
  "ticks_query build input epoch_end =
     (let n = ArgInt (ticksMaxResult input); i = ArgInt (IntervalSec input); e = ArgInt epoch_end;
          as = [n, e, i, e, i, i, n];
          (q, clause) =
            (if filters_levels (ticksLevel input)
             then (sqlTicksInit @ '' WHERE '' @ '' ('' @ level_sql (ticksLevel input) @ '') '', '' AND '')
             else (sqlTicksInit, '' WHERE ''));
          expr = TrimSpace (ticksExpr input)
      in if expr = '''' then Inr (q @ sqlTicksEnd, as)
         else case build expr of
                Inl err \<Rightarrow> Inl err
              | Inr compiled \<Rightarrow>
                  if Sql compiled \<noteq> ''''
                  then Inr (q @ clause @ Sql compiled @ '' '' @ sqlTicksEnd, as @ Args compiled)
                  else Inr (q @ sqlTicksEnd, as))"

definition ticks_dbs :: "int \<Rightarrow> int \<Rightarrow> storage \<Rightarrow> nat list" where
  "ticks_dbs epoch_start epoch_end s =
     filter (\<lambda>k. let d = heap s ! k
                 in \<not> (epoch_end < dbStart d \<or> (dbEnd d \<noteq> 0 \<and> dbEnd d < epoch_start))) (dbs s)"

text \<open>The ticks of one database join the list; one whose index is in the map is dropped.\<close>

fun add_ticks :: "(int \<rightharpoonup> Tick) \<Rightarrow> Tick list \<Rightarrow> Tick list \<Rightarrow> Tick list" where
  "add_ticks tickByIndex list [] = list"
| "add_ticks tickByIndex list (t # ts) =
     (case tickByIndex (Index t) of
        Some tick \<Rightarrow> add_ticks tickByIndex list ts
      | None \<Rightarrow> add_ticks tickByIndex (list @ [t]) ts)"

text \<open>The loop over the databases: the ticks and the closed databases. The map stays empty.\<close>

fun ticks_loop :: "'w Driver \<Rightarrow> int \<Rightarrow> string \<Rightarrow> sqlarg list \<Rightarrow> nat list \<Rightarrow> Tick list \<Rightarrow> nat list \<Rightarrow> storage \<Rightarrow> 'w
    \<Rightarrow> (string + Tick list \<times> nat list) \<times> storage \<times> 'w" where
  "ticks_loop D now q as [] list closedDbs s w = (Inr (list, closedDbs), s, w)"
| "ticks_loop D now q as (k # ks) list closedDbs s w =
     (if isOpen (heap s ! k)
      then case listTicks D now q as (heap s ! k) w of
             (Inl err, d, w) \<Rightarrow> (Inl err, update_db k d s, w)
           | (Inr ll, d, w) \<Rightarrow>
               ticks_loop D now q as ks (add_ticks Map.empty list ll) closedDbs (update_db k d s) w
      else ticks_loop D now q as ks list (closedDbs @ [k]) s w)"

definition storage_Ticks :: "'w Driver \<Rightarrow> TicksInput \<Rightarrow> int \<Rightarrow> storage \<Rightarrow> 'w
    \<Rightarrow> (api_error + Output) \<times> storage \<times> 'w" where
  "storage_Ticks D input now s w =
     (let epoch_end = (if EpochEnd input = 0 then now else EpochEnd input)
      in case ticks_query (ExprBuilder (sconfig s)) input epoch_end of
           Inl err \<Rightarrow> (Inl (BadExpr err), s, w)
         | Inr (q, as) \<Rightarrow>
             (let epoch_start = i64 (epoch_end - i64 (IntervalSec input * ticksMaxResult input))
              in case ticks_loop D now q as (ticks_dbs epoch_start epoch_end s) [] [] s w of
                   (Inl err, s, w) \<Rightarrow> (Inl (DbError err), s, w)
                 | (Inr (list, []), s, w) \<Rightarrow> (Inr (zeroOutput\<lparr>Ticks := list\<rparr>), s, w)
                 | (Inr (list, closedDbs), s, w) \<Rightarrow>
                     (let (tids, s) = storage_schedule closedDbs (ListTicks q as) s
                      in (Inr (zeroOutput\<lparr>Ticks := list, Scheduled := True, TaskIds := tids\<rparr>), s, w))))"

lemma nth_update_db: "heap (update_db j d s) ! k = (if k = j \<and> j < length (heap s) then d else heap s ! k)"
  by (cases "j < length (heap s)") (auto simp: update_db_def nth_list_update list_update_beyond)

lemma length_update_db [simp]: "length (heap (update_db j d s)) = length (heap s)"
  by (simp add: update_db_def)

lemma update_db_fields [simp]:
  "dbs (update_db j d s) = dbs s" "liveDbs (update_db j d s) = liveDbs s" "sconfig (update_db j d s) = sconfig s"
  "tasks (update_db j d s) = tasks s" "taskMap (update_db j d s) = taskMap s" "taskIdSeq (update_db j d s) = taskIdSeq s"
  "numActiveTasks (update_db j d s) = numActiveTasks s"
  by (simp_all add: update_db_def)

end
