(* ===== verification/SqliteScheduler.thy ===== *)
theory SqliteScheduler imports SqliteQuery "HOL-Library.Signed_Division" begin

text \<open>
  \<^verbatim>\<open>sqlite/storage_scheduler.go\<close>: the tasks that queries leave for closed databases, the routine that opens
  and closes databases and starts tasks, and the goroutines that run them. The state is the
  storage, the world of the driver, and the goroutines that have been started: a database, a task
  and the number of its retries. A goroutine runs \<^verbatim>\<open>exec\<close> in one step.
\<close>

subsection \<open>Results and cancellation\<close>

definition loaded :: "int \<Rightarrow> storage \<Rightarrow> dbTask option" where
  "loaded tid s = (if tid \<in> set (taskMap s) then tasks s tid else None)"

definition upd_task :: "int \<Rightarrow> (dbTask \<Rightarrow> dbTask) \<Rightarrow> storage \<Rightarrow> storage" where
  "upd_task tid f s = s\<lparr>tasks := (tasks s)(tid := map_option f (tasks s tid))\<rparr>"

definition storage_Result :: "int \<Rightarrow> storage \<Rightarrow> Output option \<times> storage" where
  "storage_Result tid s =
     (case loaded tid s of
        None \<Rightarrow> (None, s)
      | Some task \<Rightarrow>
          if state task = task_finished \<or> state task = task_canceled
          then (Some (taskOutput task), s\<lparr>taskMap := removeAll tid (taskMap s)\<rparr>)
          else (Some (zeroOutput\<lparr>Scheduled := True, TaskIds := [tid]\<rparr>), s))"

text \<open>A task whose \<^verbatim>\<open>db\<close> is not set is a \<^verbatim>\<open>nil\<close> dereference, after its state has been changed.\<close>

definition storage_Cancel :: "int \<Rightarrow> storage \<Rightarrow> (panic + unit) \<times> storage" where
  "storage_Cancel tid s =
     (case loaded tid s of
        None \<Rightarrow> (Inr (), s)
      | Some task \<Rightarrow>
          let s = upd_task tid (\<lambda>t. t\<lparr>state := task_canceled\<rparr>) s
          in case taskDb task of
               None \<Rightarrow> (Inl NilDereference, s)
             | Some k \<Rightarrow>
                 let (_, d) = db_cancel tid (heap s ! k)
                 in (Inr (), (update_db k d s)\<lparr>taskMap := removeAll tid (taskMap s)\<rparr>))"

subsection \<open>Running a task\<close>

definition cas_state :: "int \<Rightarrow> task_state \<Rightarrow> task_state \<Rightarrow> storage \<Rightarrow> bool \<times> storage" where
  "cas_state tid old new s =
     (if map_option state (tasks s tid) = Some old then (True, upd_task tid (\<lambda>t. t\<lparr>state := new\<rparr>) s)
      else (False, s))"

definition onDbTask :: "bool \<Rightarrow> storage \<Rightarrow> storage" where
  "onDbTask complete s = s\<lparr>numActiveTasks := i32 (numActiveTasks s + (if complete then - 1 else 1))\<rparr>"

definition reschedule :: "nat \<Rightarrow> int \<Rightarrow> storage \<Rightarrow> storage" where
  "reschedule k tid s =
     (let (swapped, s) = cas_state tid task_process task_created s
      in if swapped then update_db k (db_schedule tid (heap s ! k)) s else s)"

text \<open>The callback of a task: its query, whose rows become the output of the task.\<close>

definition run_callback :: "'w Driver \<Rightarrow> int \<Rightarrow> nat \<Rightarrow> int \<Rightarrow> callback \<Rightarrow> storage \<Rightarrow> 'w
    \<Rightarrow> string option \<times> storage \<times> 'w" where
  "run_callback D now k tid cb s w =
     (case cb of
        ListEntries q as \<Rightarrow>
          (case listEntries D now q as (heap s ! k) w of
             (Inl err, d, w) \<Rightarrow> (Some err, update_db k d s, w)
           | (Inr rs, d, w) \<Rightarrow>
               (None, upd_task tid (\<lambda>t. t\<lparr>taskOutput := (taskOutput t)\<lparr>Entries := rs\<rparr>\<rparr>) (update_db k d s), w))
      | ListTicks q as \<Rightarrow>
          (case listTicks D now q as (heap s ! k) w of
             (Inl err, d, w) \<Rightarrow> (Some err, update_db k d s, w)
           | (Inr ts, d, w) \<Rightarrow>
               (None, upd_task tid (\<lambda>t. t\<lparr>taskOutput := (taskOutput t)\<lparr>Ticks := ts\<rparr>\<rparr>) (update_db k d s), w)))"

text \<open>\<^verbatim>\<open>exec\<close>; a number is the retry that \<^verbatim>\<open>go exec()\<close> starts.\<close>

definition exec_task :: "'w Driver \<Rightarrow> int \<Rightarrow> nat \<Rightarrow> int \<Rightarrow> nat \<Rightarrow> storage \<Rightarrow> 'w
    \<Rightarrow> nat option \<times> storage \<times> 'w" where
  "exec_task D now k tid nretry s w =
     (case (cas_state tid task_created task_process s, tasks s tid) of
        ((True, s), Some task) \<Rightarrow>
          if \<not> isOpen (heap s ! k) then (None, onDbTask True (reschedule k tid s), w)
          else (case run_callback D now k tid (taskCallback task) s w of
                  (Some err, s, w) \<Rightarrow>
                    if \<not> isOpen (heap s ! k) then (None, onDbTask True (reschedule k tid s), w)
                    else if nretry < 3 then (Some (nretry + 1), s, w)
                    else let s = upd_task tid (\<lambda>t. t\<lparr>taskOutput := (taskOutput t)\<lparr>OutError := Some err\<rparr>\<rparr>) s;
                             s = snd (cas_state tid task_process task_finished s)
                         in (None, onDbTask True s, w)
                | (None, s, w) \<Rightarrow> (None, onDbTask True (snd (cas_state tid task_process task_finished s)), w))
      | _ \<Rightarrow> (None, onDbTask True s, w))"

subsection \<open>The routine\<close>

record 'w sched =
  stor :: storage
  world :: 'w
  goroutines :: "(nat \<times> int \<times> nat) list"

definition ntasks :: "storage \<Rightarrow> nat \<Rightarrow> int" where
  "ntasks s k = taskCount (heap s ! k)"

definition dequeue :: "int \<Rightarrow> storageDb \<Rightarrow> storageDb" where
  "dequeue tid d = d\<lparr>taskCount := i32 (taskCount d - 1), dbTasks := removeAll tid (dbTasks d)\<rparr>"

text \<open>
  \<^verbatim>\<open>executeDbTasks\<close> over the keys that \<^verbatim>\<open>execute\<close> ranges over, in the order \<open>range_order\<close> in which \<^verbatim>\<open>Range\<close> visits them:
  each is taken off the queue and started.
\<close>

fun executeDbTasks :: "nat \<Rightarrow> int \<Rightarrow> int \<Rightarrow> int list \<Rightarrow> 'w sched \<Rightarrow> 'w sched" where
  "executeDbTasks k i maxForThisDb [] x = x"
| "executeDbTasks k i maxForThisDb (tid # tids) x =
     (let s = update_db k (dequeue tid (heap (stor x) ! k)) (stor x);
          x = x\<lparr>stor := onDbTask False s, goroutines := goroutines x @ [(k, tid, 0)]\<rparr>
      in if i + 1 < maxForThisDb then executeDbTasks k (i + 1) maxForThisDb tids x else x)"

fun execute_open :: "'w Driver \<Rightarrow> int \<Rightarrow> int \<Rightarrow> nat list \<Rightarrow> 'w sched \<Rightarrow> 'w sched" where
  "execute_open D totalTasks qtMaxTasks [] x = x"
| "execute_open D totalTasks qtMaxTasks (k # ks) x =
     (let numTasks = ntasks (stor x) k
      in if numTasks = 0 then execute_open D totalTasks qtMaxTasks ks x
         else execute_open D totalTasks qtMaxTasks ks
                (executeDbTasks k 0 (max 1 (i32 (numTasks sdiv totalTasks * qtMaxTasks)))
                   (range_order D (world x) (dbTasks (heap (stor x) ! k))) x))"

text \<open>A database that \<^verbatim>\<open>closeSafe\<close> reports closed lowers the number of open ones.\<close>

type_synonym 'w closing = "storage \<times> 'w \<times> int \<times> bool"

definition close_one :: "'w Driver \<Rightarrow> int \<Rightarrow> nat \<Rightarrow> 'w closing \<Rightarrow> 'w closing" where
  "close_one D now k c =
     (case c of (s, w, totalOpen, closedAny) \<Rightarrow>
        (case closeSafe D now (heap s ! k) w of
           (closed, d, w) \<Rightarrow>
             (update_db k d s, w, (if closed then i32 (totalOpen - 1) else totalOpen), closedAny \<or> closed)))"

definition close_idle :: "'w Driver \<Rightarrow> int \<Rightarrow> nat list \<Rightarrow> 'w closing \<Rightarrow> 'w closing" where
  "close_idle D now = fold (\<lambda>k c. case c of (s, _) \<Rightarrow>
     if \<not> live (heap s ! k) \<and> lastQuerySec now (heap s ! k) > CloseIdleSec (sconfig s) then close_one D now k c else c)"

definition close_over :: "'w Driver \<Rightarrow> int \<Rightarrow> nat list \<Rightarrow> 'w closing \<Rightarrow> 'w closing" where
  "close_over D now = fold (\<lambda>k c. case c of (s, w, totalOpen, closedAny) \<Rightarrow>
     if totalOpen > MaxOpenedDB (sconfig s) \<and> \<not> live (heap s ! k) then close_one D now k c else c)"

fun open_first :: "'w Driver \<Rightarrow> int \<Rightarrow> nat list \<Rightarrow> storage \<Rightarrow> 'w \<Rightarrow> storage \<times> 'w" where
  "open_first D now [] s w = (s, w)"
| "open_first D now (k # ks) s w =
     (case connect D (SQLiteOptions (sconfig s)) now (heap s ! k) w of
        (None, d, w) \<Rightarrow> (update_db k d s, w)
      | (Some err, d, w) \<Rightarrow> open_first D now ks (update_db k d s) w)"

fun open_all :: "'w Driver \<Rightarrow> int \<Rightarrow> int \<Rightarrow> nat list \<Rightarrow> storage \<Rightarrow> 'w \<Rightarrow> storage \<times> 'w" where
  "open_all D now totalOpen [] s w = (s, w)"
| "open_all D now totalOpen (k # ks) s w =
     (if totalOpen > MaxOpenedDB (sconfig s) then (s, w)
      else case connect D (SQLiteOptions (sconfig s)) now (heap s ! k) w of
        (None, d, w) \<Rightarrow> open_all D now (i32 (totalOpen + 1)) ks (update_db k d s) w
      | (Some err, d, w) \<Rightarrow> open_all D now totalOpen ks (update_db k d s) w)"

definition fewest_tasks :: "storage \<Rightarrow> nat list \<Rightarrow> nat list" where
  "fewest_tasks s ks = SliceStable (\<lambda>i j. ntasks s i < ntasks s j) ks"

definition sort_lists :: "storage \<Rightarrow> storage" where
  "sort_lists s =
     (let lt = (\<lambda>i j. before_db (heap s ! i) (heap s ! j))
      in s\<lparr>dbs := SliceStable lt (dbs s), liveDbs := SliceStable lt (liveDbs s)\<rparr>)"

definition start_tasks :: "'w Driver \<Rightarrow> 'w sched \<Rightarrow> 'w sched" where
  "start_tasks D x =
     (let s = stor x;
          totalTasks = foldl (\<lambda>n k. i32 (n + ntasks s k)) 0 (dbs s);
          openWithTasks = filter (\<lambda>k. isOpen (heap s ! k) \<and> ntasks s k > 0) (dbs s);
          qtMaxTasks = i32 (MaxRunningTasks (sconfig s) - numActiveTasks s)
      in if totalTasks > 0 \<and> qtMaxTasks > 0 then execute_open D totalTasks qtMaxTasks openWithTasks x else x)"

definition doRoutineScheduledTasks :: "'w Driver \<Rightarrow> int \<Rightarrow> 'w sched \<Rightarrow> 'w sched" where
  "doRoutineScheduledTasks D now x =
     (let s = stor x;
          totalOpen = int (length (filter (\<lambda>k. isOpen (heap s ! k)) (dbs s)));
          openWithTasks = filter (\<lambda>k. isOpen (heap s ! k) \<and> ntasks s k > 0) (dbs s);
          openWithoutTask = filter (\<lambda>k. isOpen (heap s ! k) \<and> \<not> ntasks s k > 0) (dbs s);
          closedWithTasks = filter (\<lambda>k. \<not> isOpen (heap s ! k) \<and> ntasks s k > 0) (dbs s);
          x = start_tasks D x;
          c = close_idle D now (dbs s) (stor x, world x, totalOpen, False);
          c = (if fst (snd (snd c)) > MaxOpenedDB (sconfig s) then close_over D now openWithoutTask c else c);
          c = (if fst (snd (snd c)) > MaxOpenedDB (sconfig s)
               then close_over D now (fewest_tasks (fst c) openWithTasks) c else c)
      in case c of (s, w, totalOpen, closedAny) \<Rightarrow>
           (let ks = fewest_tasks s closedWithTasks;
                (s, w) = (if totalOpen > MaxOpenedDB (sconfig s) then open_first D now ks s w
                          else open_all D now totalOpen ks s w)
            in x\<lparr>stor := (if closedAny then sort_lists s else s), world := w\<rparr>))"

end
