(* ===== verification/SqliteMaintenance.thy ===== *)
theory SqliteMaintenance imports SqliteQuery begin

text \<open>
  \<^verbatim>\<open>sqlite/storage_size_check.go\<close> and \<^verbatim>\<open>sqlite/storage_wal_checkpoint.go\<close>: what one tick of the two maintenance
  routines does. Timers and log messages are left out.
\<close>

subsection \<open>Size check\<close>

text \<open>
  The start of the next database: the interval is multiplied as an \<^verbatim>\<open>int32\<close> number of nanoseconds.
\<close>

definition next_start :: "Config \<Rightarrow> Time \<Rightarrow> int" where
  "next_start c now =
     unixSec now + (nsec now + i32 (i32 (IntervalSizeCheckSec c * 2) * 1000000000)) div 1000000000"

definition archive_live :: "'w Driver \<Rightarrow> Time \<Rightarrow> storage \<Rightarrow> 'w \<Rightarrow> storage \<times> 'w" where
  "archive_live D now s w =
     (let c = sconfig s
      in if dbSize (heap s ! last (liveDbs s)) > MaxFilesizeMB c * 1000000
         then (case connect D (SQLiteOptions c) (unixSec now)
                     (newDb (Dir c) (Prefix c) (next_start c now) (MaxChunkAgeSec c)) w of
                 (Some err, _, w) \<Rightarrow> (s, w)
               | (None, d, w) \<Rightarrow>
                   (s\<lparr>heap := heap s @ [d], liveDbs := liveDbs s @ [length (heap s)]\<rparr>, w))
         else (s, w))"

fun update_sizes :: "'w Driver \<Rightarrow> int \<Rightarrow> nat list \<Rightarrow> storage \<Rightarrow> 'w \<Rightarrow> storage \<times> 'w" where
  "update_sizes D now [] s w = (s, w)"
| "update_sizes D now (k # ks) s w =
     (case updateSize D now (heap s ! k) w of (_, d, w) \<Rightarrow> update_sizes D now ks (update_db k d s) w)"

definition total_size :: "storage \<Rightarrow> int" where
  "total_size s = foldl (\<lambda>n k. i64 (n + dbSize (heap s ! k))) 0 (dbs s)"

definition size_check :: "'w Driver \<Rightarrow> Time \<Rightarrow> storage \<Rightarrow> 'w \<Rightarrow> panic + (storage \<times> 'w)" where
  "size_check D now s w =
     (if liveDbs s = [] then Inl IndexOutOfRange
      else let (s, w) = archive_live D now s w;
               (s, w) = update_sizes D (unixSec now) (liveDbs s) s w
           in if total_size s > TotalSizeCapMB (sconfig s) * 1000000
              then (case dbs s of
                      [] \<Rightarrow> Inl IndexOutOfRange
                    | k # ks \<Rightarrow>
                        if \<not> live (heap s ! k)
                        then (case db_remove D (heap s ! k) w of
                                (d, w) \<Rightarrow> Inr ((update_db k d s)\<lparr>dbs := ks\<rparr>, w))
                        else Inr (s, w))
              else Inr (s, w))"

subsection \<open>Checkpoints\<close>

definition wal_checkpoint :: "'w Driver \<Rightarrow> nat list \<Rightarrow> storage \<Rightarrow> 'w \<Rightarrow> 'w" where
  "wal_checkpoint D ks s w =
     fold (\<lambda>k w. if isOpen (heap s ! k) then checkpoint D (WalCheckpointMode (sconfig s)) (heap s ! k) w else w) ks w"

end
