(* ===== verification/StorageProperties.thy ===== *)
theory StorageProperties imports SqliteStorage begin

text \<open>
  What can be relied on in \<^verbatim>\<open>sqlite/storage.go\<close> and \<^verbatim>\<open>sqlite/storage_db.go\<close>: from the record that is logged
  to the row in a database, and what happens to database files. \<open>memDriver\<close> is a driver that keeps
  its rows in a list; it shows that the assumptions on drivers can hold.
\<close>

subsection \<open>A driver for the witnesses\<close>

fun decode_rows :: "sqlarg list \<Rightarrow> Entry list option" where
  "decode_rows [] = Some []"
| "decode_rows (ArgInt a # ArgInt b # ArgInt c # ArgText d # vs) =
     map_option (Cons \<lparr>etime = \<lparr>unixSec = a, nsec = b\<rparr>, level = c, content = d\<rparr>) (decode_rows vs)"
| "decode_rows _ = None"

definition memDriver :: "(Entry list \<times> Entry list) Driver" where
  "memDriver =
     \<lparr>OpenSql = (\<lambda>p w. (None, w)), ExecSql = (\<lambda>p q vs w. (None, w)), QuerySql = (\<lambda>p q vs w. (Inr [], w)),
      CloseSql = (\<lambda>p w. w), BeginTx = (\<lambda>p w. (None, w)), PrepareTx = (\<lambda>p q w. (None, w)),
      ExecTx = (\<lambda>p q vs w. if placeholders q \<noteq> length vs then (Some ''arguments'', w)
                 else case decode_rows vs of None \<Rightarrow> (Some ''types'', w) | Some es \<Rightarrow> (None, (fst w, es))),
      Rollback = (\<lambda>p w. (fst w, [])), Commit = (\<lambda>p w. (None, (fst w @ snd w, []))),
      RenameFile = (\<lambda>p q w. (None, w)), RemoveFile = (\<lambda>p w. (None, w)), RangeOrder = (\<lambda>w ks. ks)\<rparr>"

lemma decode_entry_args: "decode_rows (concat (map entry_args es)) = Some es"
proof (induction es)
  case (Cons e es)
  then show ?case by (cases e; cases "etime e") (simp add: entry_args_def)
qed simp

lemma memDriver_ok: "sql_driver memDriver fst"
  by (auto simp: sql_driver_def memDriver_def decode_entry_args split: option.splits)

text \<open>
  What holds of a storage between calls: there is a live database, and a database that is open
  has its handle.
\<close>

definition storage_inv :: "storage \<Rightarrow> bool" where
  "storage_inv s =
     (liveDbs s \<noteq> [] \<and> list_all (\<lambda>k. k < length (heap s)) (liveDbs s @ dbs s) \<and>
      list_all (\<lambda>d. isOpen d \<longrightarrow> handle d) (heap s))"

lemma connect_handle:
  "connect D os now d w = (r, d', w') \<Longrightarrow> isOpen d \<longrightarrow> handle d \<Longrightarrow> isOpen d' \<longrightarrow> handle d'"
  by (auto simp: connect_def isOpen_def split: prod.splits option.splits if_splits)

lemma connect_opens:
  "connect D os now d w = (None, d', w') \<Longrightarrow> status d = db_closed \<Longrightarrow> isOpen d' \<and> handle d'"
  by (auto simp: connect_def isOpen_def split: prod.splits option.splits if_splits)

lemma initDbs_closed:
  assumes "d \<in> set (initDbs dir pre files)"
  shows "status d = db_closed \<and> dbTasks d = [] \<and> taskCount d = 0"
proof -
  have "set (sortDbs ds) = set ds" for ds using sortDbs_sorted(2) mset_eq_setD by blast
  with assms have "d \<in> set (List.map_filter (load_file dir pre) files)"
    by (simp add: initDbs_def Let_def split: if_splits)
  then obtain f where "load_file dir pre f = Some d" by (auto simp: map_filter_def)
  then show ?thesis by (auto simp: load_file_def split: prod.splits option.splits if_splits)
qed

lemma New_form:
  assumes "New D cfg files now w = (Inr s, w')"
  obtains ds d os c where "connect D os now (last ds) w = (None, d, w')" "ds \<noteq> []"
    "\<forall>d \<in> set ds. status d = db_closed \<and> dbTasks d = [] \<and> taskCount d = 0"
    "s = \<lparr>heap = ds[length ds - 1 := d\<lparr>live := True\<rparr>], dbs = [0 ..< length ds], liveDbs = [length ds - 1], sconfig = c,
          taskIdSeq = 0, tasks = Map.empty, taskMap = [], numActiveTasks = 0\<rparr>"
proof -
  define c where "c = config_defaults cfg"
  define ds where "ds = (let ds = initDbs (Dir c) (Prefix c) files
    in if ds = [] then [newDb (Dir c) (Prefix c) now (MaxChunkAgeSec c)] else ds)"
  have ne: "ds \<noteq> []" by (simp add: ds_def Let_def)
  have closed: "\<forall>d \<in> set ds. status d = db_closed \<and> dbTasks d = [] \<and> taskCount d = 0"
    using initDbs_closed by (auto simp: ds_def Let_def newDb_def split: if_splits)
  obtain d where d: "connect D (SQLiteOptions c) now (ds ! (length ds - 1)) w = (None, d, w')"
    and s: "s = \<lparr>heap = ds[length ds - 1 := d\<lparr>live := True\<rparr>], dbs = [0 ..< length ds], liveDbs = [length ds - 1], sconfig = c,
          taskIdSeq = 0, tasks = Map.empty, taskMap = [], numActiveTasks = 0\<rparr>"
    using assms unfolding New_def Let_def c_def [symmetric] ds_def [unfolded Let_def, symmetric]
    by (auto split: prod.splits option.splits)
  from that [OF _ ne closed s] d ne show thesis by (simp add: last_conv_nth)
qed

lemma storage_inv_update:
  "storage_inv s \<Longrightarrow> isOpen d \<longrightarrow> handle d \<Longrightarrow> storage_inv (update_db k d s)"
  by (auto simp: storage_inv_def update_db_def intro: list_all_update)

lemma storage_inv_nth: "storage_inv s \<Longrightarrow> k < length (heap s) \<Longrightarrow> isOpen (heap s ! k) \<Longrightarrow> handle (heap s ! k)"
  by (simp add: storage_inv_def list_all_length)

lemma flush_target_live:
  assumes "storage_inv s"
  obtains k where "flush_target_db c s = Inr k" "k < length (heap s)"
proof -
  have live: "k \<in> set (liveDbs s) \<Longrightarrow> k < length (heap s)" for k
    using assms by (simp add: storage_inv_def list_all_iff)
  show thesis
  proof (cases "find (\<lambda>k. covers c (heap s ! k)) (liveDbs s)")
    case None
    then show thesis using assms live [of "last (liveDbs s)"] that
      by (simp add: flush_target_db_def storage_inv_def)
  next
    case (Some k)
    then have "k \<in> set (liveDbs s)" by (metis find_Some_iff nth_mem)
    then show thesis using Some live that by (simp add: flush_target_db_def)
  qed
qed

lemma db_flush_status:
  "db_flush D c d w = Inr (r, d', w') \<Longrightarrow> status d' = status d \<and> handle d' = handle d"
  by (auto simp: db_flush_def Let_def split: prod.splits if_splits option.splits)

lemma db_flush_returns: "handle d \<Longrightarrow> db_flush D c d w \<noteq> Inl p"
  by (auto simp: db_flush_def Let_def split: prod.splits option.splits)

lemma storage_Flush_keeps:
  assumes "storage_inv s"
  shows "\<exists>err s' v'. storage_Flush D c s v = Inr (err, s', v') \<and> storage_inv s'"
proof -
  obtain k where k: "flush_target_db c s = Inr k" "k < length (heap s)" using flush_target_live [OF assms] .
  show ?thesis
  proof (cases "isOpen (heap s ! k)")
    case True
    with storage_inv_nth [OF assms k(2)] have h: "handle (heap s ! k)" by blast
    then obtain r d' w' where f: "db_flush D c (heap s ! k) v = Inr (r, d', w')"
      using db_flush_returns [of "heap s ! k" D c v] by (cases "db_flush D c (heap s ! k) v") auto
    with db_flush_status [OF f] h storage_inv_update [OF assms, of d' k] show ?thesis
      using True k by (simp add: storage_Flush_def isOpen_def)
  qed (use assms k in \<open>simp add: storage_Flush_def\<close>)
qed

lemma New_in_order:
  assumes "New D cfg files now w = (Inr s, w')"
  shows "storage_inv s \<and> isOpen (heap s ! hd (liveDbs s))"
proof -
  from assms obtain ds d os c where d: "connect D os now (last ds) w = (None, d, w')" and ne: "ds \<noteq> []"
    and closed: "\<forall>d \<in> set ds. status d = db_closed \<and> dbTasks d = [] \<and> taskCount d = 0"
    and s: "s = \<lparr>heap = ds[length ds - 1 := d\<lparr>live := True\<rparr>], dbs = [0 ..< length ds], liveDbs = [length ds - 1], sconfig = c,
          taskIdSeq = 0, tasks = Map.empty, taskMap = [], numActiveTasks = 0\<rparr>"
    by (rule New_form)
  have od: "isOpen d \<and> handle d" using connect_opens [OF d] closed ne by simp
  have "storage_inv s"
    using ne closed od
    by (auto simp: s storage_inv_def list_all_iff isOpen_def dest!: set_update_subset_insert [THEN subsetD])
  moreover have "isOpen (heap s ! hd (liveDbs s))" using ne od by (simp add: s isOpen_def)
  ultimately show ?thesis by blast
qed

text \<open>
  A storage that \<^verbatim>\<open>New\<close> has opened has a live database that is open, and every open
  database has its handle; \<^verbatim>\<open>Flush\<close> keeps this, and does not panic.
\<close>

theorem opened_storage_flushes:
  assumes "New D cfg files now w = (Inr s, w')"
  shows "storage_inv s \<and> isOpen (heap s ! hd (liveDbs s)) \<and>
    (case storage_Flush D' chunk s v of Inl p \<Rightarrow> False | Inr (err, s', v') \<Rightarrow> storage_inv s')"
  using New_in_order [OF assms] storage_Flush_keeps [of s D' chunk v] by auto

definition quietDriver :: "unit Driver" where
  "quietDriver =
     \<lparr>OpenSql = (\<lambda>p w. (None, w)), ExecSql = (\<lambda>p q vs w. (None, w)), QuerySql = (\<lambda>p q vs w. (Inr [], w)),
      CloseSql = (\<lambda>p w. w), BeginTx = (\<lambda>p w. (None, w)), PrepareTx = (\<lambda>p q w. (None, w)),
      ExecTx = (\<lambda>p q vs w. (None, w)), Rollback = (\<lambda>p w. w), Commit = (\<lambda>p w. (None, w)),
      RenameFile = (\<lambda>p q w. (None, w)), RemoveFile = (\<lambda>p w. (None, w)), RangeOrder = (\<lambda>w. rev)\<rparr>"

lemma quiet_connect: "status d = db_closed \<Longrightarrow>
  connect quietDriver os now d w = (None, d\<lparr>handle := True, lastQueryEpoch := now, status := db_open\<rparr>, w)"
  by (simp add: connect_def quietDriver_def)

lemma New_quiet: "\<exists>s. New quietDriver zeroConfig [] 7 () = (Inr s, ())"
  by (simp add: New_def initDbs_def Let_def quiet_connect newDb_def map_filter_simps)

theorem opened_storage_flushes_witness:
  "\<exists>s. New quietDriver zeroConfig [] 7 () = (Inr s, ()) \<and> storage_inv s \<and>
    (case storage_Flush quietDriver (NewChunk 3) s () of Inl p \<Rightarrow> False | Inr (err, s', v') \<Rightarrow> storage_inv s')"
  using New_quiet opened_storage_flushes [of quietDriver zeroConfig "[]" 7 "()" _ "()" quietDriver "NewChunk 3" "()"]
  by blast

lemma no_dangling: "storage_inv s \<Longrightarrow> \<not> dangling s"
  by (auto simp: storage_inv_def dangling_def list_all_iff list_ex_iff)

subsection \<open>From the log to the rows\<close>

definition under_inv :: "panic option \<times> storage \<times> 'w \<Rightarrow> bool" where
  "under_inv x = (fst x = None \<and> storage_inv (fst (snd x)))"

lemma flush_under:
  assumes "under_inv x" "Flush (sqliteStorage D) c x = (err, x')"
  shows "under_inv x'"
proof -
  obtain s w where x: "x = (None, s, w)" "storage_inv s" using assms(1) by (cases x) (auto simp: under_inv_def)
  from storage_Flush_keeps [OF x(2), of D c w] assms(2) show ?thesis by (auto simp: x(1) sqliteStorage_def under_inv_def)
qed

text \<open>
  C3 (refinement). The ingester over the SQLite storage, from any storage that is in order, with its live databases open or
  closed: whatever errors the driver returns, and even if commits fail, no flush panics, every run ends, and the rows
  committed are those there were before followed by a subsequence of the records logged, each at most once and in order.
\<close>

theorem rows_follow_log:
  assumes "sql_driver D J" "valid_config c" "Stop \<notin> set evs" "storage_inv s"
  shows "\<exists>i s' w'. run (sqliteStorage D) (evs @ [Stop]) (NewIngester (Some c), (None, s, w)) = Some (Inr (i, (None, s', w')))
    \<and> subseq (J w') (J w @ logged evs)"
proof -
  note C = sqlite_storage_contract [OF assms(1)]
  let ?S = "sqliteStorage D" and ?x = "(None :: panic option, s, w)" and ?J = "\<lambda>(p :: panic option, s :: storage, w). J w"
  have x: "under_inv ?x" using assms(4) by (simp add: under_inv_def)
  have keep: "under_inv x \<Longrightarrow> Flush ?S c x = (err, x') \<Longrightarrow> under_inv x'" for c err x x' by (rule flush_under)
  have "in_log ?J (J w) (with_defaults c) [] (NewIngester (Some c)) ?x"
    using NewIngester_inv [OF assms(2)] by (simp add: in_log_def)
  from storage_contract.run_in_log [OF C assms(3) NewIngester_inv(1) [OF assms(2)] this]
  obtain i x where r: "run ?S evs (NewIngester (Some c), ?x) = Some (Inr (i, x))" "ingester_inv i"
    "in_log ?J (J w @ logged evs) (with_defaults c) (logged evs) i x" by auto
  from run_keeps_storage [where P = under_inv and S = ?S, OF keep assms(3) NewIngester_inv(1) [OF assms(2)] x] r(1)
  have u: "under_inv x" by auto
  from storage_contract.close_in_log [OF C r(2,3)] obtain i' x' where
    c: "Close ?S i x = Some (None, i', x')" "subseq (?J x') (J w @ logged evs)" by blast
  have "\<exists>i' y. Close ?S i x = Some (None, i', snd (CloseStorage ?S y)) \<and> quit i' \<and> under_inv y"
    by (rule close_keeps_storage [where P = under_inv, OF r(2) u]) (rule keep)
  with c(1) obtain y where y: "x' = snd (CloseStorage ?S y)" "under_inv y" by force
  obtain s1 w1 where y1: "y = (None, s1, w1)" "\<not> dangling s1" using y(2) no_dangling by (cases y) (auto simp: under_inv_def)
  obtain s' w' where "close_all D (dbs s1) s1 w1 = (s', w')" by (meson surj_pair)
  then have "x' = (None, s', w')" by (simp add: y(1) y1 sqliteStorage_def storage_Close_def)
  with c r(1) show ?thesis by (auto simp: run_append)
qed

definition recentEntry :: "int \<Rightarrow> string \<Rightarrow> Entry" where
  "recentEntry t c = \<lparr>etime = \<lparr>unixSec = t, nsec = 0\<rparr>, level = 0, content = c\<rparr>"

text \<open>A storage that \<^verbatim>\<open>New\<close> has opened, and the same storage after its live database was closed.\<close>

definition closedLive :: storage where
  "closedLive = \<lparr>heap = [(newDb ''d'' ''p'' 5 3600)\<lparr>live := True\<rparr>], dbs = [0], liveDbs = [0], sconfig = zeroConfig,
     taskIdSeq = 0, tasks = Map.empty, taskMap = [], numActiveTasks = 0\<rparr>"

theorem rows_follow_log_witness:
  "(\<exists>s. New memDriver zeroConfig [] 5 ([], []) = (Inr s, ([], [])) \<and>
     (\<exists>i s' w'. run (sqliteStorage memDriver) ([Log (at_sec 7) 0 ''a'', Tick (at_sec 9)] @ [Stop])
        (NewIngester (Some cfg1), (None, s, ([], []))) = Some (Inr (i, (None, s', w')))
      \<and> subseq (fst w') [recentEntry 7 ''a''])) \<and>
   (\<exists>i s' w'. run (sqliteStorage memDriver) ([Log (at_sec 7) 0 ''a''] @ [Stop])
        (NewIngester (Some cfg1), (None, closedLive, ([], []))) = Some (Inr (i, (None, s', w'))))"
proof -
  have k: "status d = db_closed \<Longrightarrow> connect memDriver os now d w = (None, d\<lparr>handle := True, lastQueryEpoch := now, status := db_open\<rparr>, w)"
    for os now d w by (simp add: connect_def memDriver_def)
  obtain s where s: "New memDriver zeroConfig [] 5 ([], []) = (Inr s, ([], []))"
    by (simp add: New_def initDbs_def Let_def k newDb_def map_filter_simps)
  from New_in_order [OF s] have o: "storage_inv s" by blast
  have c: "valid_config cfg1" by (simp add: valid_config_def cfg1_def)
  have "storage_inv closedLive" by (simp add: storage_inv_def closedLive_def isOpen_def newDb_def)
  from rows_follow_log [OF memDriver_ok c _ this, of "[Log (at_sec 7) 0 ''a'']" "([], [])"]
  have 2: "\<exists>i s' w'. run (sqliteStorage memDriver) ([Log (at_sec 7) 0 ''a''] @ [Stop])
        (NewIngester (Some cfg1), (None, closedLive, ([], []))) = Some (Inr (i, (None, s', w')))" by auto
  from rows_follow_log [OF memDriver_ok c _ o, of "[Log (at_sec 7) 0 ''a'', Tick (at_sec 9)]" "([], [])"]
  have 1: "\<exists>i s' w'. run (sqliteStorage memDriver) ([Log (at_sec 7) 0 ''a'', Tick (at_sec 9)] @ [Stop])
        (NewIngester (Some cfg1), (None, s, ([], []))) = Some (Inr (i, (None, s', w')))
      \<and> subseq (fst w') [recentEntry 7 ''a'']"
    by (auto simp: recentEntry_def at_sec_def)
  from s 1 2 show ?thesis by blast
qed

subsection \<open>Old entries\<close>

text \<open>
  An entry older than \<^verbatim>\<open>MaxChunkAgeSec\<close> before the database gets placeholders in the insert
  but no values, which the driver refuses: together with a recent entry it keeps its whole chunk
  from ever being stored.
\<close>

theorem old_entry_blocks_chunk:
  assumes "sql_driver D J" "wf_chunk c" "db_flush D c d w = Inr (r, d', w')"
    and "e \<in> set (contents c)" "\<not> recent (min_epoch d) e" "e' \<in> set (contents c)" "recent (min_epoch d) e'"
  shows "r \<noteq> None \<and> J w' = J w"
proof -
  have r: "r \<noteq> None" using db_flush_result(2) [OF assms(1-3)] assms(4-) by (auto simp: list_all_iff)
  then obtain err where "r = Some err" by blast
  with db_flush_error [OF assms(1)] assms(3) r show ?thesis by blast
qed

definition twoChunk :: "Entry \<Rightarrow> Entry \<Rightarrow> Chunk" where
  "twoChunk e e' = accept e' (accept e (NewChunk 3))"

lemma twoChunk_ok: "wf_chunk (twoChunk e e')" "contents (twoChunk e e') = [e, e']"
proof -
  have c: "wf_chunk (NewChunk 3)" "book (NewChunk 3) = 0" "cap (NewChunk 3) = 3" "contents (NewChunk 3) = []"
    using fresh_NewChunk [of 3] fresh_contents by (simp_all add: fresh_def NewChunk_def)
  then have c1: "wf_chunk (accept e (NewChunk 3))" "contents (accept e (NewChunk 3)) = [e]"
    "book (accept e (NewChunk 3)) = 1" "cap (accept e (NewChunk 3)) = 3"
    by (simp_all add: wf_accept contents_accept book_accept accept_fields)
  then show "wf_chunk (twoChunk e e')" "contents (twoChunk e e') = [e, e']"
    by (simp_all add: twoChunk_def wf_accept contents_accept)
qed

theorem old_entry_blocks_chunk_witness:
  "\<exists>r d' w'. db_flush memDriver (twoChunk (recentEntry 9000 ''a'') (recentEntry 10 ''b''))
      ((newDb ''d'' ''p'' 9000 3600)\<lparr>handle := True\<rparr>) ([], []) = Inr (r, d', w') \<and> r \<noteq> None \<and> fst w' = []"
proof -
  let ?d = "(newDb ''d'' ''p'' 9000 3600)\<lparr>handle := True\<rparr>"
  let ?e = "recentEntry 9000 ''a''" and ?e' = "recentEntry 10 ''b''"
  have "handle ?d" "min_epoch ?d = 5400" by (simp_all add: min_epoch_def newDb_def i64_id)
  then obtain r d' w' where "db_flush memDriver (twoChunk ?e ?e') ?d ([], []) = Inr (r, d', w')"
    using db_flush_returns [of ?d memDriver "twoChunk ?e ?e'" "([], [])"]
    by (cases "db_flush memDriver (twoChunk ?e ?e') ?d ([], [])") auto
  with old_entry_blocks_chunk [OF memDriver_ok twoChunk_ok(1) this, of ?e' ?e] \<open>min_epoch ?d = 5400\<close>
  show ?thesis by (simp add: twoChunk_ok recent_def recentEntry_def)
qed

text \<open>
  A chunk of old entries only is dropped with success: the ingester counts it as stored.
\<close>

theorem old_chunk_dropped:
  assumes "wf_chunk c" "list_all (\<lambda>e. \<not> recent (min_epoch d) e) (contents c)"
  shows "db_flush D c d w = Inr (None, d, w)"
proof -
  obtain q vs where qv: "insert_rows (min_epoch d) 0 (map Some (contents c)) = (q, vs)" by fastforce
  then show ?thesis using insert_fits(3) [OF qv] assms(2) List_wf [OF assms(1)]
    by (simp add: db_flush_def min_epoch_def)
qed

theorem old_chunk_dropped_witness:
  "db_flush memDriver (twoChunk (recentEntry 10 ''a'') (recentEntry 11 ''b'')) (newDb ''d'' ''p'' 9000 3600) ([], [])
     = Inr (None, newDb ''d'' ''p'' 9000 3600, ([], []))"
  by (rule old_chunk_dropped) (simp_all add: twoChunk_ok recent_def recentEntry_def min_epoch_def newDb_def i64_id)

subsection \<open>Files\<close>

text \<open>
  The order of the databases: first those with an end, from the newest end to the
  oldest, then those without, from the oldest start to the newest; none is lost or doubled.
\<close>

theorem databases_sorted:
  "\<exists>xs ys. sortDbs ds = xs @ ys \<and> mset (xs @ ys) = mset ds \<and> list_all (\<lambda>d. dbEnd d \<noteq> 0) xs \<and> list_all (\<lambda>d. dbEnd d = 0) ys \<and>
     sorted_wrt (\<lambda>a b. dbEnd a \<ge> dbEnd b) xs \<and> sorted_wrt (\<lambda>a b. dbStart a \<le> dbStart b) ys"
proof (intro exI conjI)
  let ?xs = "takeWhile (\<lambda>d. dbEnd d \<noteq> 0) (sortDbs ds)" and ?ys = "dropWhile (\<lambda>d. dbEnd d \<noteq> 0) (sortDbs ds)"
  show "sortDbs ds = ?xs @ ?ys" "mset (?xs @ ?ys) = mset ds" by (simp_all add: sortDbs_sorted(2))
  show xs: "list_all (\<lambda>d. dbEnd d \<noteq> 0) ?xs" by (auto simp: list_all_iff dest: set_takeWhileD)
  have "sorted_wrt (\<lambda>a b. \<not> before_db b a) (?xs @ ?ys)" using sortDbs_sorted(1) [of ds] by simp
  then have s: "sorted_wrt (\<lambda>a b. \<not> before_db b a) ?xs" "sorted_wrt (\<lambda>a b. \<not> before_db b a) ?ys"
    unfolding sorted_wrt_append by blast+
  show ys: "list_all (\<lambda>d. dbEnd d = 0) ?ys"
  proof (cases ?ys)
    case (Cons y ys)
    then have "dbEnd y = 0" using hd_dropWhile [of "\<lambda>d. dbEnd d \<noteq> 0" "sortDbs ds"] by simp
    with s(2) Cons show ?thesis by (auto simp: list_all_iff before_db_def split: if_splits)
  next
    case Nil
    show ?thesis unfolding Nil by simp
  qed
  show "sorted_wrt (\<lambda>a b. dbEnd a \<ge> dbEnd b) ?xs"
  proof (rule sorted_wrt_mono_rel [OF _ s(1)])
    fix a b assume "a \<in> set ?xs" "b \<in> set ?xs" "\<not> before_db b a"
    moreover from this xs have "dbEnd a \<noteq> 0" "dbEnd b \<noteq> 0" unfolding list_all_iff by blast+
    ultimately show "dbEnd a \<ge> dbEnd b" by (simp add: before_db_def)
  qed
  show "sorted_wrt (\<lambda>a b. dbStart a \<le> dbStart b) ?ys"
  proof (rule sorted_wrt_mono_rel [OF _ s(2)])
    fix a b assume "a \<in> set ?ys" "b \<in> set ?ys" "\<not> before_db b a"
    moreover from this ys have "dbEnd a = 0" "dbEnd b = 0" unfolding list_all_iff by blast+
    ultimately show "dbStart a \<le> dbStart b" by (simp add: before_db_def)
  qed
qed

lemma HasPrefix_append [simp]: "HasPrefix (p @ s) p"
  by (simp add: HasPrefix_iff)

lemma TrimPrefix_append [simp]: "TrimPrefix (p @ s) p = s"
  by (simp add: TrimPrefix_def)

lemma TrimSuffix_append [simp]: "TrimSuffix (s @ p) p = s"
  by (simp add: TrimSuffix_def HasSuffix_def)

lemma show_int_chars: "c \<in> set (show_int k) \<Longrightarrow> is_digit c \<or> c = CHR ''-''"
  using show_nat_digits by (auto simp: show_int_def list_all_iff split: if_splits)

lemma show_int_no_underscore: "CHR ''_'' \<notin> set (show_int k)"
  using show_int_chars [of "CHR ''_''" k] by (auto simp: is_digit_def byte_def)

lemma Ext_db: "Ext (s @ ''.db'') = ''.db''"
  by (simp add: Ext_def)

lemma new_file_loads:
  assumes "- (2 ^ 63) \<le> start" "start < 2 ^ 63"
  shows "\<exists>d. load_file dir pre (pre @ ''_'' @ show_int start @ ''.db'', False, sz) = Some d \<and>
    dbStart d = dbStart (newDb dir pre start age) \<and> filePath d = filePath (newDb dir pre start age) \<and> dbEnd d = 0"
proof -
  have "Split CHR ''_'' (show_int start) = [show_int start]" by (rule Split_none [OF show_int_no_underscore])
  moreover have "TrimPrefix (pre @ ''_'' @ show_int start @ ''.db'') (pre @ ''_'') = show_int start @ ''.db''"
    using TrimPrefix_append [of "pre @ ''_''" "show_int start @ ''.db''"] by simp
  ultimately have "file_epochs pre (pre @ ''_'' @ show_int start @ ''.db'') = Some (start, 0)"
    using parse_show_int [of 64 start] assms by (simp add: file_epochs_def)
  moreover have "Ext (pre @ ''_'' @ show_int start @ ''.db'') = ''.db''"
    using Ext_db [of "pre @ ''_'' @ show_int start"] by simp
  ultimately show ?thesis by (simp add: load_file_def newDb_def)
qed

text \<open>
  C40 (roundtrip). The file of a new database is found again: the walk reads from its name the
  start the name was made of, and the same path. The end is not in the name.
\<close>

theorem file_name_roundtrip:
  assumes "- (2 ^ 63) \<le> start" "start < 2 ^ 63"
  shows "\<exists>d. load_file dir pre (pre @ ''_'' @ show_int start @ ''.db'', False, sz) = Some d \<and>
    dbStart d = dbStart (newDb dir pre start age) \<and> filePath d = filePath (newDb dir pre start age) \<and> dbEnd d = 0"
  by (rule new_file_loads [OF assms])

theorem file_name_roundtrip_witness:
  "\<exists>d. load_file ''logs'' ''demo'' (''demo_'' @ show_int 1700000000 @ ''.db'', False, 5) = Some d \<and>
    dbStart d = 1700000000 \<and> dbEnd d = 0"
  using file_name_roundtrip [of 1700000000 "''logs''" "''demo''" 5 0] by (auto simp: newDb_def)

text \<open>
  A database found on disk has lost its directory and prefix: when it is closed its
  file is renamed to \<^verbatim>\<open>_0.db\<close>, whatever it was called, so the next such file replaces it.
\<close>

theorem reopened_db_renamed:
  assumes "load_file dir pre f = Some d" "0 < dbStart d" "connect D os now d w = (None, d', w')"
  shows "db_close D d' w' = (True, d'\<lparr>handle := False, status := db_closed\<rparr>,
           snd (RenameFile D (filePath d) ''_0.db'' (CloseSql D (filePath d) w')))"
proof -
  have d: "status d = db_closed \<and> dbNewStart d = 0 \<and> fileDir d = '''' \<and> filePrefix d = '''' \<and> \<not> live d"
    using assms(1) by (auto simp: load_file_def split: prod.splits if_splits option.splits)
  then have d': "d' = d\<lparr>handle := True, lastQueryEpoch := now, status := db_open\<rparr>"
    using assms(3) by (auto simp: connect_def split: prod.splits option.splits)
  have "show_int 0 = ''0''" by code_simp
  then have "renamed d' = ''_0.db''"
    using d by (simp add: d' renamed_def Join_def Clean_def)
  with d assms(2) show ?thesis by (simp add: d' db_close_def)
qed

theorem reopened_db_renamed_witness:
  "\<exists>d' w'. connect quietDriver [] 9 (the (load_file ''logs'' ''demo'' (''demo_7.db'', False, 5))) () = (None, d', w') \<and>
     db_close quietDriver d' w' = (True, d'\<lparr>handle := False, status := db_closed\<rparr>, ())"
proof -
  have f: "case load_file ''logs'' ''demo'' (''demo_7.db'', False, 5) of None \<Rightarrow> False
      | Some d \<Rightarrow> 0 < dbStart d \<and> status d = db_closed"
    by code_simp
  then obtain d where d: "load_file ''logs'' ''demo'' (''demo_7.db'', False, 5) = Some d" "0 < dbStart d" "status d = db_closed"
    by (auto split: option.splits)
  with reopened_db_renamed [OF d(1,2) quiet_connect [OF d(3), of "[]" 9 "()"]] show ?thesis
    by (simp add: quiet_connect)
qed

end
