(* ===== verification/QueryProperties.thy ===== *)
theory QueryProperties imports SqliteQuery StorageProperties begin

text \<open>
  What can be relied on in the queries of \<^verbatim>\<open>sqlite/api_entries.go\<close> and \<^verbatim>\<open>sqlite/api_ticks.go\<close>: the SQL that
  is built, which levels it selects, and the pages the databases give.
\<close>

subsection \<open>Placeholders\<close>

lemma level_sql_placeholders [simp]: "placeholders (level_sql ls) = 0"
  by (auto simp: level_sql_def Let_def)

lemma query_text_placeholders [simp]:
  "placeholders sqlSeekPageAfter = 3" "placeholders sqlSeekPageBefore = 3"
  "placeholders sqlSeekPageAfterOrder = 1" "placeholders sqlSeekPageBeforeOrder = 1"
  "placeholders sqlTicksEnd = 0"
  by (simp_all add: sqlSeekPageAfter_def sqlSeekPageBefore_def sqlSeekPageAfterOrder_def
      sqlSeekPageBeforeOrder_def sqlTicksEnd_def)

lemma source_line_placeholders [simp]: "placeholders (source_line n l) = placeholders l"
  by (induction n) (simp_all add: source_line_def newline_def)

lemma sqlTicksInit_placeholders [simp]: "placeholders sqlTicksInit = 7"
  by (simp add: sqlTicksInit_def)

text \<open>
  C22 (safety). With the default expression builder both queries have as many placeholders as
  arguments, for every input: the driver never refuses them for their number.
\<close>

theorem queries_fit_arguments:
  assumes "entries_query default_builder input e = Inr (q, as)" "ticks_query default_builder input' e' = Inr (q', as')"
  shows "placeholders q = length as \<and> placeholders q' = length as'"
  using assms compiled_chain
  by (auto simp: entries_query_def ticks_query_def default_builder_def Let_def split: if_splits sum.splits)

definition entriesIn :: EntriesInput where
  "entriesIn = \<lparr>entriesExpr = '' '', entriesLevel = [''warn''], Direction = ''after'', EpochStart = 7, NanosStart = 0, entriesMaxResult = 5\<rparr>"

definition ticksIn :: TicksInput where
  "ticksIn = \<lparr>ticksExpr = ''user:x'', ticksLevel = [], EpochEnd = 100, IntervalSec = 10, ticksMaxResult = 3\<rparr>"

theorem queries_fit_arguments_witness:
  "\<exists>q as q' as'. entries_query default_builder entriesIn 7 = Inr (q, as) \<and> ticks_query default_builder ticksIn 100 = Inr (q', as') \<and>
    placeholders q = length as \<and> placeholders q' = length as'"
proof -
  have "isl (entries_query default_builder entriesIn 7) = False" "isl (ticks_query default_builder ticksIn 100) = False"
    by code_simp+
  then obtain q as q' as' where q: "entries_query default_builder entriesIn 7 = Inr (q, as)"
    "ticks_query default_builder ticksIn 100 = Inr (q', as')"
    by (cases "entries_query default_builder entriesIn 7"; cases "ticks_query default_builder ticksIn 100") auto
  with queries_fit_arguments [OF q] show ?thesis by blast
qed

subsection \<open>Levels\<close>

text \<open>The level of an entry by name, as the counts of \<^verbatim>\<open>sqlTicksInit\<close> have it, and conditions on it.\<close>

definition level_name :: "int \<Rightarrow> string" where
  "level_name l = (if l < 0 then ''debug'' else if l < 4 then ''info'' else if l < 8 then ''warn'' else ''error'')"

definition level_names :: "string list" where
  "level_names = [''debug'', ''info'', ''warn'', ''error'']"

datatype level_cond = AtLeast int | Within int int | Below int

fun show_cond :: "level_cond \<Rightarrow> string" where
  "show_cond (AtLeast n) = '' e.level >= '' @ show_int n @ '' ''"
| "show_cond (Within a b) = '' (e.level BETWEEN '' @ show_int a @ '' AND '' @ show_int b @ '') ''"
| "show_cond (Below n) = '' e.level < '' @ show_int n @ '' ''"

fun holds_cond :: "level_cond \<Rightarrow> int \<Rightarrow> bool" where
  "holds_cond (AtLeast n) l = (n \<le> l)"
| "holds_cond (Within a b) l = (a \<le> l \<and> l \<le> b)"
| "holds_cond (Below n) l = (l < n)"

definition level_conds :: "bool \<Rightarrow> bool \<Rightarrow> bool \<Rightarrow> bool \<Rightarrow> level_cond list" where
  "level_conds debug info warn error =
     (if error \<and> warn \<and> info then [AtLeast 0]
      else (if error \<and> warn then [AtLeast 4] else if error then [AtLeast 8] else if warn then [Within 4 7] else []) @
           (if info then [Within 0 3] else []) @ (if debug then [Below 0] else []))"

lemma show_int_small: "show_int 0 = ''0''" "show_int 3 = ''3''" "show_int 4 = ''4''" "show_int 7 = ''7''" "show_int 8 = ''8''"
  by code_simp+

lemma level_sql_conds:
  "level_sql ls = join_with '' OR '' (map show_cond
     (level_conds (''debug'' \<in> set ls) (''info'' \<in> set ls) (''warn'' \<in> set ls) (''error'' \<in> set ls)))"
  by (simp add: level_sql_def level_conds_def Let_def show_int_small)

lemma four_levels:
  assumes "set ls \<subseteq> set level_names" "filters_levels ls"
  shows "\<not> (''debug'' \<in> set ls \<and> ''info'' \<in> set ls \<and> ''warn'' \<in> set ls \<and> ''error'' \<in> set ls)"
proof
  assume "''debug'' \<in> set ls \<and> ''info'' \<in> set ls \<and> ''warn'' \<in> set ls \<and> ''error'' \<in> set ls"
  with assms(1) have "set ls = set level_names" by (auto simp: level_names_def)
  then have "length (remdups ls) = card (set level_names)" by (metis length_remdups_card_conv)
  also have "\<dots> = 4" by (simp add: level_names_def)
  finally show False using assms(2) by (simp add: filters_levels_def)
qed

text \<open>
  C24 (equivalence). For known levels the condition of the query, a disjunction of comparisons,
  selects exactly the entries whose level has one of the names.
\<close>

theorem level_filter_exact:
  assumes "set ls \<subseteq> set level_names" "filters_levels ls"
  shows "\<exists>cs. level_sql ls = join_with '' OR '' (map show_cond cs) \<and>
    (\<forall>l. list_ex (\<lambda>c. holds_cond c l) cs = (level_name l \<in> set ls))"
proof (intro exI conjI allI)
  show "level_sql ls = join_with '' OR '' (map show_cond
     (level_conds (''debug'' \<in> set ls) (''info'' \<in> set ls) (''warn'' \<in> set ls) (''error'' \<in> set ls)))"
    by (rule level_sql_conds)
  fix l :: int
  show "list_ex (\<lambda>c. holds_cond c l) (level_conds (''debug'' \<in> set ls) (''info'' \<in> set ls) (''warn'' \<in> set ls)
      (''error'' \<in> set ls)) = (level_name l \<in> set ls)"
    using four_levels [OF assms] by (auto simp: level_conds_def level_name_def)
qed

theorem level_filter_exact_witness:
  "\<exists>cs. level_sql [''error'', ''info''] = join_with '' OR '' (map show_cond cs) \<and>
    (\<forall>l. list_ex (\<lambda>c. holds_cond c l) cs = (level_name l \<in> {''error'', ''info''}))"
  using level_filter_exact [of "[''error'', ''info'']"] by (simp add: level_names_def filters_levels_def)

text \<open>
  Names that are not levels leave the condition empty: the query then contains
  \<^verbatim>\<open>AND ()\<close>, which is not SQL, instead of selecting nothing or everything.
\<close>

theorem unknown_levels_break_query:
  assumes "filters_levels (entriesLevel input)" "set (entriesLevel input) \<inter> set level_names = {}"
    "TrimSpace (entriesExpr input) = ''''" "Direction input \<noteq> ''before''"
  shows "entries_query build input e = Inr (sqlSeekPageAfter @ '' AND () '' @ sqlSeekPageAfterOrder,
    [ArgInt e, ArgInt e, ArgInt (NanosStart input), ArgInt (min (max (entriesMaxResult input) 10) 100)])"
  using assms by (auto simp: entries_query_def level_sql_conds level_conds_def level_names_def Let_def)

theorem unknown_levels_break_query_witness:
  "entries_query default_builder (entriesIn\<lparr>entriesLevel := [''WARN'']\<rparr>) 7 =
     Inr (sqlSeekPageAfter @ '' AND () '' @ sqlSeekPageAfterOrder, [ArgInt 7, ArgInt 7, ArgInt 0, ArgInt 10])"
proof -
  have "TrimSpace '' '' = ''''" by code_simp
  then show ?thesis
    using unknown_levels_break_query [of "entriesIn\<lparr>entriesLevel := [''WARN'']\<rparr>" default_builder 7]
    by (simp add: entriesIn_def filters_levels_def level_names_def)
qed

subsection \<open>Pages\<close>

type_synonym row = "int \<times> int \<times> int \<times> string"

fun row_args :: "row \<Rightarrow> sqlarg list" where
  "row_args (a, b, c, d) = [ArgInt a, ArgInt b, ArgInt c, ArgText d]"

fun row_time :: "row \<Rightarrow> int \<times> int" where
  "row_time (a, b, c, d) = (a, b)"

lemma entry_rows: "those (map (entry_row \<circ> row_args) rs) = Some rs"
proof (induction rs)
  case (Cons r rs)
  then show ?case by (cases r) simp
qed simp

text \<open>A driver that answers the query \<open>q\<close> on the database file \<open>p\<close> with the rows \<open>R p\<close>.\<close>

definition answers :: "'w Driver \<Rightarrow> string \<Rightarrow> sqlarg list \<Rightarrow> (string \<Rightarrow> row list) \<Rightarrow> bool" where
  "answers D q as R = (\<forall>p w. fst (QuerySql D p q as w) = Inr (map row_args (R p)))"

lemma listEntries_answer:
  assumes "answers D q as R" "handle d"
  shows "\<exists>w'. listEntries D now q as d w = (Inr (R (filePath d)), d\<lparr>lastQueryEpoch := now\<rparr>, w')"
proof -
  obtain w' where "QuerySql D (filePath d) q as w = (Inr (map row_args (R (filePath d))), w')"
    using assms(1) by (metis answers_def prod.collapse)
  with assms(2) show ?thesis by (simp add: listEntries_def list_rows_def db_query_def entry_rows)
qed

text \<open>The database at \<open>k\<close> can be asked, and a query of another one does not change that.\<close>

definition askable :: "storage \<Rightarrow> nat \<Rightarrow> bool" where
  "askable s k = (isOpen (heap s ! k) \<and> handle (heap s ! k))"

lemma query_keeps:
  "askable (update_db j ((heap s ! j)\<lparr>lastQueryEpoch := now\<rparr>) s) k = askable s k"
  "filePath (heap (update_db j ((heap s ! j)\<lparr>lastQueryEpoch := now\<rparr>) s) ! k) = filePath (heap s ! k)"
  by (simp_all add: askable_def nth_update_db isOpen_def)

text \<open>The rows of the first \<open>n\<close> databases, and the number of databases that a page is read from.\<close>

definition first_rows :: "(string \<Rightarrow> row list) \<Rightarrow> storage \<Rightarrow> nat list \<Rightarrow> nat \<Rightarrow> row list" where
  "first_rows R s ks n = concat (map (\<lambda>k. R (filePath (heap s ! k))) (take n ks))"

definition fills_page :: "int \<Rightarrow> row list \<Rightarrow> (string \<Rightarrow> row list) \<Rightarrow> storage \<Rightarrow> nat list \<Rightarrow> nat \<Rightarrow> bool" where
  "fills_page m list R s ks n \<longleftrightarrow>
     n \<le> length ks \<and> (ks \<noteq> [] \<longrightarrow> 0 < n) \<and>
     (n < length ks \<longrightarrow> m \<le> int (length (list @ first_rows R s ks n))) \<and>
     (\<forall>j. 0 < j \<and> j < n \<longrightarrow> int (length (list @ first_rows R s ks j)) < m)"

lemma fills_one: "m \<le> int (length (list @ R (filePath (heap s ! k)))) \<Longrightarrow> fills_page m list R s (k # ks) 1"
  by (simp add: fills_page_def first_rows_def)

lemma fills_more:
  assumes "int (length (list @ R (filePath (heap s ! k)))) < m" "fills_page m (list @ R (filePath (heap s ! k))) R s ks n"
  shows "fills_page m list R s (k # ks) (Suc n)"
proof -
  have "int (length (list @ first_rows R s (k # ks) j)) < m" if "0 < j" "j < Suc n" for j
    using that assms by (cases j; cases "j = 1") (auto simp: fills_page_def first_rows_def algebra_simps)
  with assms show ?thesis by (auto simp: fills_page_def first_rows_def)
qed

lemma entries_loop_open:
  assumes "answers D q as R" "list_all (askable s) ks"
  shows "\<exists>n s' w'. entries_loop D now m q as ks list s w = (Inr (zeroOutput\<lparr>Entries := list @ first_rows R s ks n\<rparr>), s', w') \<and>
    fills_page m list R s ks n"
  using assms(2)
proof (induction ks arbitrary: list s w)
  case (Cons k ks)
  let ?s = "update_db k ((heap s ! k)\<lparr>lastQueryEpoch := now\<rparr>) s"
  have k: "isOpen (heap s ! k)" "handle (heap s ! k)" using Cons.prems by (simp_all add: askable_def)
  obtain w1 where l: "listEntries D now q as (heap s ! k) w
      = (Inr (R (filePath (heap s ! k))), (heap s ! k)\<lparr>lastQueryEpoch := now\<rparr>, w1)"
    using listEntries_answer [OF assms(1) k(2)] by blast
  show ?case
  proof (cases "m \<le> int (length (list @ R (filePath (heap s ! k))))")
    case True
    with k l fills_one [of m list R s k ks] True show ?thesis by (intro exI [of _ 1]) (simp add: first_rows_def)
  next
    case False
    have f: "first_rows R ?s ks n = first_rows R s ks n" for n by (simp add: first_rows_def query_keeps)
    have "list_all (askable ?s) ks" using Cons.prems by (simp add: query_keeps list_all_iff)
    from Cons.IH [OF this, of "list @ R (filePath (heap s ! k))" w1] obtain n s' w' where
      r: "entries_loop D now m q as ks (list @ R (filePath (heap s ! k))) ?s w1 =
        (Inr (zeroOutput\<lparr>Entries := (list @ R (filePath (heap s ! k))) @ first_rows R s ks n\<rparr>), s', w')"
        "fills_page m (list @ R (filePath (heap s ! k))) R ?s ks n"
      unfolding f by blast
    have "fills_page m (list @ R (filePath (heap s ! k))) R s ks n" using r(2) unfolding fills_page_def f .
    then have "fills_page m list R s (k # ks) (Suc n)" using False by (intro fills_more) simp_all
    with r(1) False k l show ?thesis by (intro exI [of _ "Suc n"]) (auto simp: first_rows_def)
  qed
qed (simp add: fills_page_def first_rows_def)

text \<open>
  C25 (functional). When the databases that can have results are open, a page is the answers of the
  first of them, in the order of their starts, up to the first one that fills the page, and not further: the answers of fewer
  of them are fewer rows than asked for.
\<close>

theorem page_of_open_dbs:
  assumes "EpochStart input = e" "e \<noteq> 0" "entries_query (ExprBuilder (sconfig s)) input e = Inr (q, as)"
    and "answers D q as R" "list_all (askable s) (entries_dbs (Direction input) e s)" "ks = entries_dbs (Direction input) e s"
  shows "\<exists>n s' w'. storage_Entries D input now s w = (Inr (zeroOutput\<lparr>Entries := first_rows R s ks n\<rparr>), s', w') \<and>
    n \<le> length ks \<and> (ks \<noteq> [] \<longrightarrow> 0 < n) \<and>
    (n < length ks \<longrightarrow> entriesMaxResult input \<le> int (length (first_rows R s ks n))) \<and>
    (\<forall>j. 0 < j \<and> j < n \<longrightarrow> int (length (first_rows R s ks j)) < entriesMaxResult input)"
proof -
  obtain n s' w' where "entries_loop D now (entriesMaxResult input) q as ks [] s w =
      (Inr (zeroOutput\<lparr>Entries := first_rows R s ks n\<rparr>), s', w')" "fills_page (entriesMaxResult input) [] R s ks n"
    using entries_loop_open [OF assms(4,5), of now "entriesMaxResult input" "[]" w] assms(6) by auto
  with assms(1-3,6) show ?thesis
    by (intro exI [of _ n] exI [of _ s'] exI [of _ w']) (simp add: storage_Entries_def fills_page_def)
qed

definition rowDriver :: "(string \<Rightarrow> row list) \<Rightarrow> unit Driver" where
  "rowDriver R = quietDriver\<lparr>QuerySql := (\<lambda>p q vs w. (Inr (map row_args (R p)), w))\<rparr>"

lemma rowDriver_answers: "answers (rowDriver R) q as R"
  by (simp add: answers_def rowDriver_def)

definition openDb :: "int \<Rightarrow> storageDb" where
  "openDb start = (newDb ''logs'' ''demo'' start 3600)\<lparr>status := db_open, handle := True\<rparr>"

definition storageOf :: "storageDb list \<Rightarrow> storage" where
  "storageOf ds = \<lparr>heap = ds, dbs = [0 ..< length ds], liveDbs = [length ds - 1], sconfig = zeroConfig,
     taskIdSeq = 0, tasks = Map.empty, taskMap = [], numActiveTasks = 0\<rparr>"

text \<open>Three databases with three rows each: a page of five is read from the first two.\<close>

definition threeEach :: "string \<Rightarrow> row list" where
  "threeEach p = [(8, 0, 4, p), (8, 1, 4, p), (8, 2, 4, p)]"

definition threeOpen :: storage where
  "threeOpen = storageOf [openDb 1, openDb 3, openDb 5]"

theorem page_of_open_dbs_witness:
  "\<exists>s' w'. storage_Entries (rowDriver threeEach) entriesIn 9 threeOpen () =
     (Inr (zeroOutput\<lparr>Entries := threeEach (filePath (openDb 1)) @ threeEach (filePath (openDb 3))\<rparr>), s', w')"
proof -
  obtain q as where q: "entries_query (ExprBuilder (sconfig threeOpen)) entriesIn 7 = Inr (q, as)"
  proof -
    have "TrimSpace '' '' = ''''" by code_simp
    then show thesis using that by (simp add: entries_query_def entriesIn_def Let_def)
  qed
  have dbs: "entries_dbs (Direction entriesIn) 7 threeOpen = [0, 1, 2]"
    by (simp add: entries_dbs_def entriesIn_def threeOpen_def storageOf_def openDb_def newDb_def SliceStable_def upt_rec)
  have "list_all (askable threeOpen) (entries_dbs (Direction entriesIn) 7 threeOpen)"
    unfolding dbs by (simp add: askable_def threeOpen_def storageOf_def openDb_def isOpen_def)
  from page_of_open_dbs [of entriesIn 7, OF _ _ q rowDriver_answers this dbs [symmetric], of threeEach 9 "()"]
  obtain n s' w' where r: "storage_Entries (rowDriver threeEach) entriesIn 9 threeOpen () =
      (Inr (zeroOutput\<lparr>Entries := first_rows threeEach threeOpen [0, 1, 2] n\<rparr>), s', w')"
    "n \<le> 3" "0 < n" "n < 3 \<Longrightarrow> 5 \<le> length (first_rows threeEach threeOpen [0, 1, 2] n)"
    "\<And>j. 0 < j \<Longrightarrow> j < n \<Longrightarrow> length (first_rows threeEach threeOpen [0, 1, 2] j) < 5"
    by (auto simp: entriesIn_def)
  have "n \<noteq> 1" using r(4) by (auto simp: first_rows_def threeEach_def)
  moreover have "n \<noteq> 3" using r(5) [of 2] by (auto simp: first_rows_def threeEach_def)
  ultimately have "n = 2" using r(2,3) by linarith
  with r(1) show ?thesis by (auto simp: first_rows_def threeOpen_def storageOf_def)
qed

subsection \<open>The next page\<close>

text \<open>What the condition on the start means, and a driver that answers it on sorted tables \<open>T\<close>.\<close>

fun later :: "int \<times> int \<Rightarrow> int \<times> int \<Rightarrow> bool" where
  "later (e, n) (a, b) = (a > e \<or> (a = e \<and> b > n))"

definition seek_driver :: "'w Driver \<Rightarrow> (string \<Rightarrow> row list) \<Rightarrow> bool" where
  "seek_driver D T = (\<forall>e n l. answers D (sqlSeekPageAfter @ sqlSeekPageAfterOrder) [ArgInt e, ArgInt e, ArgInt n, ArgInt l]
     (\<lambda>p. take (nat l) (filter (\<lambda>r. later (e, n) (row_time r)) (T p))))"

definition page_size :: "EntriesInput \<Rightarrow> nat" where
  "page_size input = nat (min (max (entriesMaxResult input) 10) 100)"

text \<open>No filter, from a start forward; one open database that has no end yet.\<close>

definition plain_forward :: "EntriesInput \<Rightarrow> bool" where
  "plain_forward input = (TrimSpace (entriesExpr input) = '''' \<and> \<not> filters_levels (entriesLevel input) \<and>
     Direction input \<noteq> ''before'' \<and> EpochStart input > 0)"

definition one_open_db :: "nat \<Rightarrow> storage \<Rightarrow> bool" where
  "one_open_db k s = (dbs s = [k] \<and> dbEnd (heap s ! k) = 0 \<and> askable s k)"

definition rows_after :: "EntriesInput \<Rightarrow> row list \<Rightarrow> row list" where
  "rows_after input rs = filter (\<lambda>r. later (EpochStart input, NanosStart input) (row_time r)) rs"

lemma one_page:
  assumes "one_open_db k s" "plain_forward input"
    and "QuerySql D (filePath (heap s ! k)) (sqlSeekPageAfter @ sqlSeekPageAfterOrder)
      [ArgInt (EpochStart input), ArgInt (EpochStart input), ArgInt (NanosStart input), ArgInt (int (page_size input))] w
      = (Inr (map row_args rs), w')"
  shows "\<exists>s'. storage_Entries D input now s w = (Inr (zeroOutput\<lparr>Entries := rs\<rparr>), s', w') \<and>
    one_open_db k s' \<and> filePath (heap s' ! k) = filePath (heap s ! k)"
proof -
  let ?as = "[ArgInt (EpochStart input), ArgInt (EpochStart input), ArgInt (NanosStart input), ArgInt (int (page_size input))]"
  let ?d = "(heap s ! k)\<lparr>lastQueryEpoch := now\<rparr>"
  have s: "dbs s = [k]" "dbEnd (heap s ! k) = 0" "isOpen (heap s ! k)" "handle (heap s ! k)"
    using assms(1) by (simp_all add: one_open_db_def askable_def)
  have "int (page_size input) = min (max (entriesMaxResult input) 10) 100" by (simp add: page_size_def max_def)
  then have q: "entries_query b input (EpochStart input) = Inr (sqlSeekPageAfter @ sqlSeekPageAfterOrder, ?as)" for b
    using assms(2) by (simp add: entries_query_def plain_forward_def Let_def)
  have l: "listEntries D now (sqlSeekPageAfter @ sqlSeekPageAfterOrder) ?as (heap s ! k) w = (Inr rs, ?d, w')"
    using assms(3) s(4) by (simp add: listEntries_def list_rows_def db_query_def entry_rows)
  have "entries_dbs (Direction input) (EpochStart input) s = [k]"
    using s(1,2) assms(2) by (simp add: entries_dbs_def plain_forward_def SliceStable_def)
  moreover have "entries_loop D now m (sqlSeekPageAfter @ sqlSeekPageAfterOrder) ?as [k] [] s w =
      (Inr (zeroOutput\<lparr>Entries := rs\<rparr>), update_db k ?d s, w')" for m
    using l s(3) by simp
  ultimately have "storage_Entries D input now s w = (Inr (zeroOutput\<lparr>Entries := rs\<rparr>), update_db k ?d s, w')"
    using assms(2) by (simp add: storage_Entries_def plain_forward_def q Let_def del: entries_loop.simps)
  moreover have "one_open_db k (update_db k ?d s)"
    using s by (simp add: one_open_db_def query_keeps askable_def nth_update_db isOpen_def)
  ultimately show ?thesis by (auto simp: query_keeps)
qed

lemma single_page:
  assumes "seek_driver D T" "one_open_db k s" "plain_forward input"
  shows "\<exists>s' w'. storage_Entries D input now s w =
      (Inr (zeroOutput\<lparr>Entries := take (page_size input) (rows_after input (T (filePath (heap s ! k))))\<rparr>), s', w') \<and>
    one_open_db k s' \<and> filePath (heap s' ! k) = filePath (heap s ! k)"
proof -
  let ?as = "[ArgInt (EpochStart input), ArgInt (EpochStart input), ArgInt (NanosStart input), ArgInt (int (page_size input))]"
  have "answers D (sqlSeekPageAfter @ sqlSeekPageAfterOrder) ?as (\<lambda>p. take (page_size input) (rows_after input (T p)))"
    using assms(1) unfolding seek_driver_def rows_after_def by (metis nat_int)
  then obtain w' where "QuerySql D (filePath (heap s ! k)) (sqlSeekPageAfter @ sqlSeekPageAfterOrder) ?as w =
      (Inr (map row_args (take (page_size input) (rows_after input (T (filePath (heap s ! k)))))), w')"
    unfolding answers_def by (metis prod.collapse)
  from one_page [OF assms(2,3) this] show ?thesis by blast
qed

lemma filter_after_take:
  assumes "sorted_wrt P xs" "\<And>x. \<not> P x x" "\<And>x y. P x y \<Longrightarrow> \<not> P y x" "take n xs \<noteq> []"
  shows "filter (P (last (take n xs))) xs = drop n xs"
proof -
  let ?y = "last (take n xs)"
  obtain ys where ys: "take n xs = ys @ [?y]" using assms(4) by (metis append_butlast_last_id)
  then have xs: "xs = ys @ [?y] @ drop n xs" by (metis append.assoc append_take_drop_id)
  then have s: "sorted_wrt P (ys @ [?y] @ drop n xs)" using assms(1) by simp
  have "\<forall>x\<in>set ys. \<not> P ?y x" using s assms(3) by (auto simp: sorted_wrt_append)
  moreover have "\<forall>x\<in>set (drop n xs). P ?y x" using s by (auto simp: sorted_wrt_append)
  ultimately have "filter (P ?y) (ys @ [?y] @ drop n xs) = drop n xs" using assms(2) by simp
  with xs show ?thesis by simp
qed

text \<open>The input for the page that follows the rows \<open>rs\<close>.\<close>

definition next_input :: "row list \<Rightarrow> EntriesInput \<Rightarrow> EntriesInput" where
  "next_input rs input = input\<lparr>EpochStart := fst (row_time (last rs)), NanosStart := snd (row_time (last rs))\<rparr>"

lemma next_page_rows:
  assumes "sorted_wrt (\<lambda>r r'. later (row_time r) (row_time r')) rs" "rows = take n (rows_after input rs)" "rows \<noteq> []"
  shows "rows_after (next_input rows input) rs = drop n (rows_after input rs)"
    and "plain_forward input \<Longrightarrow> plain_forward (next_input rows input)" "page_size (next_input rows input) = page_size input"
proof -
  let ?P = "\<lambda>r r'. later (row_time r) (row_time r')" and ?c = "row_time (last rows)"
  have "last rows \<in> set (rows_after input rs)" using assms(2,3) by (metis in_set_takeD last_in_set)
  then have later: "later (EpochStart input, NanosStart input) ?c" by (simp add: rows_after_def)
  then show "plain_forward input \<Longrightarrow> plain_forward (next_input rows input)"
    by (cases ?c) (auto simp: plain_forward_def next_input_def)
  show "page_size (next_input rows input) = page_size input" by (simp add: page_size_def next_input_def)
  have trans: "later a b \<Longrightarrow> later b c \<Longrightarrow> later a c" for a b c by (cases a; cases b; cases c) auto
  have irr: "\<not> later a a" "later a b \<Longrightarrow> \<not> later b a" for a b by (cases a; cases b; auto)+
  have "rows_after (next_input rows input) rs = filter (?P (last rows)) rs" by (simp add: rows_after_def next_input_def)
  also have "\<dots> = filter (?P (last rows)) (rows_after input rs)"
    unfolding rows_after_def filter_filter using trans [OF later] by (intro filter_cong) auto
  also have "\<dots> = drop n (rows_after input rs)"
  proof -
    have "sorted_wrt ?P (rows_after input rs)" using assms(1) by (simp add: rows_after_def sorted_wrt_filter)
    from filter_after_take [OF this irr, of n] show ?thesis using assms(2,3) by simp
  qed
  finally show "rows_after (next_input rows input) rs = drop n (rows_after input rs)" .
qed

text \<open>
  C26 (functional). Paging forward without filters on one open database, which has no end yet and whose rows have
  different times, is complete: the page that starts after the last row of a page continues exactly where that page ended.
\<close>

theorem next_page_continues:
  assumes "seek_driver D T" "one_open_db k s" "plain_forward input"
    and "sorted_wrt (\<lambda>r r'. later (row_time r) (row_time r')) (T (filePath (heap s ! k)))"
    and "storage_Entries D input now s w = (Inr out, s', w')" "Entries out \<noteq> []"
    and "input' = next_input (Entries out) input"
  shows "\<exists>out' s'' w''. storage_Entries D input' now' s' w' = (Inr out', s'', w'') \<and>
    Entries out @ Entries out' = take (2 * page_size input) (rows_after input (T (filePath (heap s ! k))))"
proof -
  let ?T = "T (filePath (heap s ! k))" and ?n = "page_size input"
  have p: "Entries out = take ?n (rows_after input ?T)" "one_open_db k s'" "filePath (heap s' ! k) = filePath (heap s ! k)"
    using single_page [OF assms(1-3), of now w] assms(5) by auto
  note pg = next_page_rows [OF assms(4) p(1) assms(6), folded assms(7)]
  from single_page [OF assms(1) p(2) pg(2) [OF assms(3)], of now' w'] obtain s'' w'' where
    r: "storage_Entries D input' now' s' w' = (Inr (zeroOutput\<lparr>Entries := take ?n (rows_after input' ?T)\<rparr>), s'', w'')"
    using p(3) pg(3) by auto
  have "Entries out @ take ?n (rows_after input' ?T) = take (2 * ?n) (rows_after input ?T)"
    by (simp add: pg(1) p(1) mult_2 take_add)
  with r show ?thesis by (intro exI [of _ "zeroOutput\<lparr>Entries := take ?n (rows_after input' ?T)\<rparr>"]) simp
qed

definition seekDriver :: "(string \<Rightarrow> row list) \<Rightarrow> unit Driver" where
  "seekDriver T = quietDriver\<lparr>QuerySql := (\<lambda>p q vs w. case vs of
     [ArgInt e, _, ArgInt n, ArgInt l] \<Rightarrow> (Inr (map row_args (take (nat l) (filter (\<lambda>r. later (e, n) (row_time r)) (T p)))), w)
   | _ \<Rightarrow> (Inl ''arguments'', w))\<rparr>"

lemma seekDriver_seeks: "seek_driver (seekDriver T) T"
  by (simp add: seek_driver_def answers_def seekDriver_def)

definition twelveRows :: "row list" where
  "twelveRows = map (\<lambda>i. (100 + int i, 0, 4, [char_of i])) [0 ..< 12]"

definition fromOne :: EntriesInput where
  "fromOne = entriesIn\<lparr>entriesLevel := [], EpochStart := 1\<rparr>"

lemma fromOne_ok: "plain_forward fromOne" "one_open_db 0 (storageOf [openDb 1])"
proof -
  have "TrimSpace '' '' = ''''" by code_simp
  then show "plain_forward fromOne" by (simp add: plain_forward_def fromOne_def entriesIn_def filters_levels_def)
  show "one_open_db 0 (storageOf [openDb 1])"
    by (simp add: one_open_db_def storageOf_def openDb_def newDb_def askable_def isOpen_def)
qed

theorem next_page_continues_witness:
  "\<exists>out s' w' out' s'' w''. storage_Entries (seekDriver (\<lambda>_. twelveRows)) fromOne 9 (storageOf [openDb 1]) () = (Inr out, s', w') \<and>
     storage_Entries (seekDriver (\<lambda>_. twelveRows)) (next_input (Entries out) fromOne) 9 s' w' = (Inr out', s'', w'') \<and>
     Entries out @ Entries out' = twelveRows"
proof -
  let ?D = "seekDriver (\<lambda>_. twelveRows)" and ?s = "storageOf [openDb 1]"
  have n: "page_size fromOne = 10" by (simp add: page_size_def fromOne_def entriesIn_def)
  have all: "rows_after fromOne twelveRows = twelveRows" "length twelveRows = 12"
    by (auto simp: rows_after_def twelveRows_def fromOne_def filter_id_conv)
  have sorted: "sorted_wrt (\<lambda>r r'. later (row_time r) (row_time r')) twelveRows"
    by (simp add: twelveRows_def sorted_wrt_map sorted_wrt_upt)
  obtain s' w' where p: "storage_Entries ?D fromOne 9 ?s () = (Inr (zeroOutput\<lparr>Entries := take 10 twelveRows\<rparr>), s', w')"
    using single_page [OF seekDriver_seeks fromOne_ok(2,1), of "\<lambda>_. twelveRows" 9 "()"] n all(1) by auto
  have "Entries (zeroOutput\<lparr>Entries := take 10 twelveRows\<rparr>) \<noteq> []" using all(2) by (cases twelveRows) auto
  from next_page_continues [OF seekDriver_seeks [of "\<lambda>_. twelveRows"] fromOne_ok(2,1) sorted p this refl, of 9] show ?thesis
    using p n all by auto
qed

text \<open>
  Rows of one time that a page does not hold together are lost: the next page has no
  row of the time at which the page ended.
\<close>

theorem same_time_rows_skipped:
  assumes "seek_driver D T" "one_open_db k s" "plain_forward input"
    and "EpochStart input = fst (row_time r)" "NanosStart input = snd (row_time r)"
  shows "\<exists>out s' w'. storage_Entries D input now s w = (Inr out, s', w') \<and> row_time r \<notin> row_time ` set (Entries out)"
proof -
  have "row_time r \<notin> row_time ` set (rows_after input T')" for T'
    using assms(4,5) by (cases "row_time r") (auto simp: rows_after_def)
  then have "row_time r \<notin> row_time ` set (take n (rows_after input T'))" for n T'
    using set_take_subset [of n "rows_after input T'"] by blast
  with single_page [OF assms(1-3), of now w] show ?thesis by fastforce
qed

theorem same_time_rows_skipped_witness:
  "\<exists>out s' w'. storage_Entries (seekDriver (\<lambda>_. replicate 12 (1, 0, 4, ''x''))) fromOne 9 (storageOf [openDb 1]) () = (Inr out, s', w') \<and>
     (1, 0) \<notin> row_time ` set (Entries out)"
  using same_time_rows_skipped [OF seekDriver_seeks fromOne_ok(2,1), of "(1, 0, 4, ''x'')" "\<lambda>_. replicate 12 (1, 0, 4, ''x'')" 9 "()"]
  by (simp add: fromOne_def entriesIn_def)

subsection \<open>Counts\<close>

fun tick_args :: "Tick \<Rightarrow> sqlarg list" where
  "tick_args t = map ArgInt [Index t, Start t, End t, Count t, Debug t, Info t, Warn t, Error t]"

lemma tick_rows: "those (map (tick_row \<circ> tick_args) ts) = Some ts"
  by (induction ts) simp_all

definition answers_ticks :: "'w Driver \<Rightarrow> string \<Rightarrow> sqlarg list \<Rightarrow> (string \<Rightarrow> Tick list) \<Rightarrow> bool" where
  "answers_ticks D q as R = (\<forall>p w. fst (QuerySql D p q as w) = Inr (map tick_args (R p)))"

lemma listTicks_answer:
  assumes "answers_ticks D q as R" "handle d"
  shows "\<exists>w'. listTicks D now q as d w = (Inr (R (filePath d)), d\<lparr>lastQueryEpoch := now\<rparr>, w')"
proof -
  obtain w' where "QuerySql D (filePath d) q as w = (Inr (map tick_args (R (filePath d))), w')"
    using assms(1) by (metis answers_ticks_def prod.collapse)
  with assms(2) show ?thesis by (simp add: listTicks_def list_rows_def db_query_def tick_rows del: tick_args.simps)
qed

lemma add_ticks_empty: "add_ticks Map.empty list ts = list @ ts"
  by (induction ts arbitrary: list) simp_all

lemma query_keeps_open:
  "isOpen (heap (update_db j ((heap s ! j)\<lparr>lastQueryEpoch := now\<rparr>) s) ! k) = isOpen (heap s ! k)"
  by (simp add: nth_update_db isOpen_def)

lemma ticks_loop_answer:
  assumes "answers_ticks D q as R" "\<And>k. k \<in> set ks \<Longrightarrow> isOpen (heap s ! k) \<Longrightarrow> handle (heap s ! k)"
  shows "\<exists>s' w'. ticks_loop D now q as ks list closedDbs s w =
    (Inr (list @ concat (map (\<lambda>k. R (filePath (heap s ! k))) (filter (\<lambda>k. isOpen (heap s ! k)) ks)),
          closedDbs @ filter (\<lambda>k. \<not> isOpen (heap s ! k)) ks), s', w')"
  using assms(2)
proof (induction ks arbitrary: list closedDbs s w)
  case (Cons k ks)
  let ?s = "update_db k ((heap s ! k)\<lparr>lastQueryEpoch := now\<rparr>) s"
  show ?case
  proof (cases "isOpen (heap s ! k)")
    case True
    then obtain w1 where l: "listTicks D now q as (heap s ! k) w
        = (Inr (R (filePath (heap s ! k))), (heap s ! k)\<lparr>lastQueryEpoch := now\<rparr>, w1)"
      using listTicks_answer [OF assms(1)] Cons.prems by (metis list.set_intros(1))
    have "isOpen (heap ?s ! j) \<Longrightarrow> handle (heap ?s ! j)" if "j \<in> set ks" for j
      using Cons.prems [of j] that by (auto simp: nth_update_db isOpen_def split: if_splits)
    from Cons.IH [of ?s, OF this, of "list @ R (filePath (heap s ! k))" closedDbs w1] True l show ?thesis
      by (auto simp: query_keeps query_keeps_open add_ticks_empty)
  next
    case False
    with Cons.IH [of s list "closedDbs @ [k]" w] Cons.prems show ?thesis by simp
  qed
qed simp

lemma schedule_length: "length (fst (storage_schedule ks cb s)) = length ks"
  by (induction ks arbitrary: s) (simp_all add: Let_def split_beta)

text \<open>
  \<^verbatim>\<open>Ticks\<close> answers with the counts of every open database in the range, one list after
  the other: an interval that two databases share is there twice, since the counts are never
  merged. Each closed database in the range gets one task.
\<close>

theorem ticks_per_database:
  assumes "EpochEnd input = e" "e \<noteq> 0" "ticks_query (ExprBuilder (sconfig s)) input e = Inr (q, as)"
    and "answers_ticks D q as R" "storage_inv s"
    and "ks = ticks_dbs (i64 (e - i64 (IntervalSec input * ticksMaxResult input))) e s"
  shows "\<exists>out s' w'. storage_Ticks D input now s w = (Inr out, s', w') \<and>
    Ticks out = concat (map (\<lambda>k. R (filePath (heap s ! k))) (filter (\<lambda>k. isOpen (heap s ! k)) ks)) \<and>
    length (TaskIds out) = length (filter (\<lambda>k. \<not> isOpen (heap s ! k)) ks) \<and> Scheduled out = (TaskIds out \<noteq> [])"
proof -
  have h: "k \<in> set ks \<Longrightarrow> isOpen (heap s ! k) \<Longrightarrow> handle (heap s ! k)" for k
    using storage_inv_nth [OF assms(5)] assms(5) by (auto simp: assms(6) ticks_dbs_def storage_inv_def list_all_iff)
  let ?closed = "filter (\<lambda>k. \<not> isOpen (heap s ! k)) ks"
  obtain s' w' where l: "ticks_loop D now q as ks [] [] s w =
    (Inr (concat (map (\<lambda>k. R (filePath (heap s ! k))) (filter (\<lambda>k. isOpen (heap s ! k)) ks)), ?closed), s', w')"
    using ticks_loop_answer [OF assms(4) h, where list = "[]" and closedDbs = "[]"] by fastforce
  obtain tids s'' where sch: "storage_schedule ?closed (ListTicks q as) s' = (tids, s'')" by fastforce
  then have "length tids = length ?closed" using schedule_length [of ?closed "ListTicks q as" s'] by simp
  with l sch assms(1-3,6) show ?thesis
    by (cases ?closed) (auto simp: storage_Ticks_def Let_def zeroOutput_def simp del: storage_schedule.simps)
qed

definition tickRow :: Tick where
  "tickRow = \<lparr>Index = 2, Start = 90, End = 100, Count = 3, Debug = 0, Info = 3, Warn = 0, Error = 0\<rparr>"

definition tickDriver :: "unit Driver" where
  "tickDriver = quietDriver\<lparr>QuerySql := (\<lambda>p q vs w. (Inr [tick_args tickRow], w))\<rparr>"

theorem ticks_per_database_witness:
  "\<exists>out s' w'. storage_Ticks tickDriver (ticksIn\<lparr>ticksExpr := ''''\<rparr>) 9 (storageOf [openDb 1, openDb 5]) () = (Inr out, s', w') \<and>
     Ticks out = [tickRow, tickRow]"
proof -
  let ?s = "storageOf [openDb 1, openDb 5]" and ?in = "ticksIn\<lparr>ticksExpr := ''''\<rparr>"
  have t: "TrimSpace '''' = ''''" by code_simp
  obtain q as where q: "ticks_query (ExprBuilder (sconfig ?s)) ?in 100 = Inr (q, as)"
    using t by (auto simp: ticks_query_def ticksIn_def filters_levels_def Let_def)
  have o: "isOpen (openDb t) \<and> handle (openDb t)" for t by (simp add: openDb_def isOpen_def)
  have inv: "storage_inv ?s" by (simp add: storage_inv_def storageOf_def o)
  have ks: "[0, 1] = ticks_dbs (i64 (100 - i64 (IntervalSec ?in * ticksMaxResult ?in))) 100 ?s"
    by (simp add: ticks_dbs_def ticksIn_def storageOf_def openDb_def newDb_def upt_rec)
  have a: "answers_ticks tickDriver q as (\<lambda>_. [tickRow])" by (simp add: answers_ticks_def tickDriver_def del: tick_args.simps)
  from ticks_per_database [OF _ _ q a inv ks, of 9 "()"] show ?thesis
    by (auto simp: ticksIn_def storageOf_def o)
qed

end
