(* ===== verification/SqliteSystem.thy ===== *)
theory SqliteSystem imports SqliteScheduler SqliteMaintenance QueryProperties begin

text \<open>
  The storage as a whole: the routines of \<^verbatim>\<open>sqlite/storage_scheduler.go\<close>, \<^verbatim>\<open>sqlite/storage_size_check.go\<close> and
  \<^verbatim>\<open>sqlite/storage_wal_checkpoint.go\<close>, the task goroutines, the queries and the flushes as steps that take
  turns in any order, and what holds after all of them.
\<close>

subsection \<open>Steps\<close>

datatype sched_event =
    Routine int
  | Exec nat int
  | AskEntries EntriesInput int
  | AskTicks TicksInput int
  | AskResult int
  | AskCancel int
  | FlushChunk Chunk
  | SizeCheck Time
  | WalCheckpoint

definition run_goroutine :: "'w Driver \<Rightarrow> int \<Rightarrow> nat \<Rightarrow> 'w sched \<Rightarrow> 'w sched" where
  "run_goroutine D now g x =
     (if g < length (goroutines x)
      then case goroutines x ! g of (k, tid, nretry) \<Rightarrow>
             (let rest = take g (goroutines x) @ drop (Suc g) (goroutines x)
              in case exec_task D now k tid nretry (stor x) (world x) of
                   (None, s, w) \<Rightarrow> x\<lparr>stor := s, world := w, goroutines := rest\<rparr>
                 | (Some n, s, w) \<Rightarrow> x\<lparr>stor := s, world := w, goroutines := rest @ [(k, tid, n)]\<rparr>)
      else x)"

fun sched_step :: "'w Driver \<Rightarrow> sched_event \<Rightarrow> 'w sched \<Rightarrow> 'w sched" where
  "sched_step D (Routine now) x = doRoutineScheduledTasks D now x"
| "sched_step D (Exec g now) x = run_goroutine D now g x"
| "sched_step D (AskEntries input now) x =
     (case storage_Entries D input now (stor x) (world x) of (_, s, w) \<Rightarrow> x\<lparr>stor := s, world := w\<rparr>)"
| "sched_step D (AskTicks input now) x =
     (case storage_Ticks D input now (stor x) (world x) of (_, s, w) \<Rightarrow> x\<lparr>stor := s, world := w\<rparr>)"
| "sched_step D (AskResult tid) x = x\<lparr>stor := snd (storage_Result tid (stor x))\<rparr>"
| "sched_step D (AskCancel tid) x = x\<lparr>stor := snd (storage_Cancel tid (stor x))\<rparr>"
| "sched_step D (FlushChunk c) x =
     (case storage_Flush D c (stor x) (world x) of
        Inl p \<Rightarrow> x | Inr (_, s, w) \<Rightarrow> x\<lparr>stor := s, world := w\<rparr>)"
| "sched_step D (SizeCheck now) x =
     (case size_check D now (stor x) (world x) of
        Inl p \<Rightarrow> x | Inr (s, w) \<Rightarrow> x\<lparr>stor := s, world := w\<rparr>)"
| "sched_step D WalCheckpoint x =
     x\<lparr>world := wal_checkpoint D (liveDbs (stor x)) (stor x) (world x)\<rparr>"

end
