(* ===== verification/SystemInvariant.thy ===== *)
theory SystemInvariant imports SqliteSystem begin

text \<open>
  The invariant of the storage as a whole, and why every step keeps it. Most operations leave the
  tasks alone (\<open>quiet\<close>); the others move the id of a task from one place to another.
\<close>

subsection \<open>What happens to one database\<close>

text \<open>
  A change that keeps the queue and the flag \<^verbatim>\<open>live\<close>, keeps a handle for an open database, and does
  not close a live one.
\<close>

definition db_move :: "storageDb \<Rightarrow> storageDb \<Rightarrow> bool" where
  "db_move d d' =
     (dbTasks d' = dbTasks d \<and> taskCount d' = taskCount d \<and> live d' = live d \<and>
      ((isOpen d \<longrightarrow> handle d) \<longrightarrow> isOpen d' \<longrightarrow> handle d') \<and> (live d \<and> isOpen d \<longrightarrow> isOpen d'))"

lemma db_move_refl [simp]: "db_move d d"
  by (simp add: db_move_def)

lemma db_move_trans: "db_move a b \<Longrightarrow> db_move b c \<Longrightarrow> db_move a c"
  by (auto simp: db_move_def)

lemma connect_moves: "connect D os now d w = (r, d', w') \<Longrightarrow> db_move d d'"
  by (auto simp: connect_def db_move_def isOpen_def split: prod.splits option.splits if_splits)

lemma query_moves: "db_query D now q as d w = (r, d', w') \<Longrightarrow> db_move d d'"
  by (auto simp: db_query_def db_move_def isOpen_def split: prod.splits sum.splits if_splits)

lemma list_moves:
  "listEntries D now q as d w = (r, d', w') \<Longrightarrow> db_move d d'"
  "listTicks D now q as d w = (r', d', w') \<Longrightarrow> db_move d d'"
  by (auto simp: listEntries_def listTicks_def list_rows_def dest: query_moves split: prod.splits sum.splits option.splits)

lemma flush_moves: "db_flush D c d w = Inr (r, d', w') \<Longrightarrow> db_move d d'"
  by (auto simp: db_flush_def db_move_def isOpen_def Let_def split: prod.splits if_splits option.splits)

lemma size_moves: "updateSize D now d w = (r, d', w') \<Longrightarrow> db_move d d'"
proof -
  assume "updateSize D now d w = (r, d', w')"
  moreover obtain r1 d1 w1 where q: "db_query D now sqlSize [] d w = (r1, d1, w1)" by (metis prod_cases3)
  ultimately have "d' = d1 \<or> (\<exists>n. d' = d1\<lparr>dbSize := n\<rparr>)"
    by (auto simp: updateSize_def split: sum.splits list.splits sqlarg.splits)
  then show ?thesis using query_moves [OF q] by (auto simp: db_move_def isOpen_def)
qed

lemma close_moves: "db_close D d w = (b, d', w') \<Longrightarrow> \<not> live d \<Longrightarrow> db_move d d'"
  by (auto simp: db_close_def db_move_def isOpen_def Let_def split: if_splits)

lemma closeSafe_moves: "closeSafe D now d w = (b, d', w') \<Longrightarrow> \<not> live d \<Longrightarrow> db_move d d'"
  by (auto simp: closeSafe_def dest: close_moves split: if_splits)

lemma remove_moves: "db_remove D d w = (d', w') \<Longrightarrow> \<not> live d \<Longrightarrow> db_move d d'"
proof -
  assume *: "db_remove D d w = (d', w')" "\<not> live d"
  obtain b d1 w1 where c: "db_close D d w = (b, d1, w1)" by (metis prod_cases3)
  then have "d' = d1 \<or> d' = d1\<lparr>status := db_removing\<rparr>" using *(1) by (auto simp: db_remove_def split: if_splits)
  with close_moves [OF c *(2)] *(2) show ?thesis by (auto simp: db_move_def isOpen_def)
qed

subsection \<open>Steps that leave the tasks alone\<close>

text \<open>Databases may be added, with empty queues, at the end of the heap.\<close>

definition idle_db :: "storageDb \<Rightarrow> bool" where
  "idle_db d = (dbTasks d = [] \<and> taskCount d = 0 \<and> (isOpen d \<longrightarrow> handle d))"

definition heap_moves :: "storageDb list \<Rightarrow> storageDb list \<Rightarrow> bool" where
  "heap_moves hs hs' =
     (length hs \<le> length hs' \<and> (\<forall>k < length hs. db_move (hs ! k) (hs' ! k)) \<and>
      (\<forall>k < length hs'. length hs \<le> k \<longrightarrow> idle_db (hs' ! k)))"

definition quiet :: "storage \<Rightarrow> storage \<Rightarrow> bool" where
  "quiet s s' =
     (heap_moves (heap s) (heap s') \<and>
      tasks s' = tasks s \<and> taskMap s' = taskMap s \<and> taskIdSeq s' = taskIdSeq s \<and>
      numActiveTasks s' = numActiveTasks s \<and> sconfig s' = sconfig s \<and>
      set (dbs s') \<subseteq> set (dbs s) \<and> length (dbs s') \<le> length (dbs s) \<and> set (liveDbs s) \<subseteq> set (liveDbs s') \<and>
      set (liveDbs s') \<subseteq> set (liveDbs s) \<union> {length (heap s) ..< length (heap s')})"

lemma heap_moves_refl [simp]: "heap_moves hs hs"
  by (auto simp: heap_moves_def)

lemma idle_moves: "db_move d d' \<Longrightarrow> idle_db d \<Longrightarrow> idle_db d'"
  by (auto simp: db_move_def idle_db_def)

lemma heap_moves_trans:
  assumes "heap_moves a b" "heap_moves b c"
  shows "heap_moves a c"
proof -
  have "idle_db (c ! k)" if "length a \<le> k" "k < length c" for k
  proof (cases "k < length b")
    case True
    with assms that have "db_move (b ! k) (c ! k)" "idle_db (b ! k)" by (simp_all add: heap_moves_def)
    then show ?thesis by (rule idle_moves)
  next
    case False
    with assms that show ?thesis by (simp add: heap_moves_def)
  qed
  moreover have "db_move (a ! k) (c ! k)" if "k < length a" for k
    using assms that by (auto simp: heap_moves_def intro: db_move_trans)
  ultimately show ?thesis using assms by (simp add: heap_moves_def)
qed

lemma quiet_refl [simp]: "quiet s s"
  by (simp add: quiet_def)

lemma quiet_trans:
  assumes "quiet a b" "quiet b c"
  shows "quiet a c"
proof -
  have l: "length (heap a) \<le> length (heap b)" "length (heap b) \<le> length (heap c)"
    using assms by (simp_all add: quiet_def heap_moves_def)
  have "set (liveDbs c) \<subseteq> set (liveDbs b) \<union> {length (heap b) ..< length (heap c)}"
    "set (liveDbs b) \<subseteq> set (liveDbs a) \<union> {length (heap a) ..< length (heap b)}"
    using assms by (simp_all add: quiet_def)
  moreover have "{length (heap b) ..< length (heap c)} \<subseteq> {length (heap a) ..< length (heap c)}"
    "{length (heap a) ..< length (heap b)} \<subseteq> {length (heap a) ..< length (heap c)}" using l by auto
  ultimately have "set (liveDbs c) \<subseteq> set (liveDbs a) \<union> {length (heap a) ..< length (heap c)}" by blast
  moreover have "heap_moves (heap a) (heap c)" using assms heap_moves_trans unfolding quiet_def by blast
  moreover have "set (dbs c) \<subseteq> set (dbs a)" "set (liveDbs a) \<subseteq> set (liveDbs c)" "length (dbs c) \<le> length (dbs a)"
    using assms unfolding quiet_def by (blast, blast, linarith)
  ultimately show ?thesis using assms by (simp add: quiet_def)
qed

lemma quiet_update: "(k < length (heap s) \<Longrightarrow> db_move (heap s ! k) d) \<Longrightarrow> quiet s (update_db k d s)"
  by (auto simp: quiet_def heap_moves_def nth_update_db)

lemma entries_loop_quiet:
  assumes "entries_loop D now m q as ks list s w = (r, s', w')"
  shows "\<exists>s1. quiet s s1 \<and> (s' = s1 \<or> (\<exists>k cb. k \<in> set ks \<and> s' = snd (storage_schedule [k] cb s1)))"
  using assms
proof (induction ks arbitrary: list s w)
  case (Cons k ks)
  show ?case
  proof (cases "isOpen (heap s ! k)")
    case True
    obtain x d w1 where l: "listEntries D now q as (heap s ! k) w = (x, d, w1)" by (metis prod_cases3)
    then have q: "quiet s (update_db k d s)" by (auto intro: quiet_update list_moves)
    show ?thesis
    proof (cases "s' = update_db k d s")
      case False
      with Cons.prems True l obtain ll where "entries_loop D now m q as ks (list @ ll) (update_db k d s) w1 = (r, s', w')"
        by (auto split: sum.splits if_splits)
      from Cons.IH [OF this] obtain s1 where "quiet (update_db k d s) s1"
        "s' = s1 \<or> (\<exists>k cb. k \<in> set ks \<and> s' = snd (storage_schedule [k] cb s1))" by blast
      with quiet_trans [OF q] show ?thesis by (intro exI [of _ s1]) (auto simp del: storage_schedule.simps)
    qed (use q in blast)
  next
    case False
    with Cons.prems have "s' = snd (storage_schedule [k] (ListEntries q as) s)"
      by (auto simp del: storage_schedule.simps split: prod.splits)
    then show ?thesis by (metis list.set_intros(1) quiet_refl)
  qed
qed auto

lemma ticks_loop_quiet:
  "ticks_loop D now q as ks list cs s w = (r, s', w') \<Longrightarrow>
     quiet s s' \<and> (\<forall>ts cs'. r = Inr (ts, cs') \<longrightarrow> set cs' \<subseteq> set cs \<union> set ks)"
proof (induction ks arbitrary: list cs s w)
  case (Cons k ks)
  show ?case
  proof (cases "isOpen (heap s ! k)")
    case True
    obtain x d w1 where l: "listTicks D now q as (heap s ! k) w = (x, d, w1)" by (metis prod_cases3)
    then have q: "quiet s (update_db k d s)" by (auto intro: quiet_update list_moves)
    with Cons True l show ?thesis by (fastforce split: sum.splits intro: quiet_trans)
  next
    case False
    with Cons.prems have "ticks_loop D now q as ks list (cs @ [k]) s w = (r, s', w')" by simp
    from Cons.IH [OF this] show ?thesis by auto
  qed
qed auto

lemma ticks_loop_length:
  "ticks_loop D now q as ks list cs s w = (Inr (ts, cs'), s', w') \<Longrightarrow> length cs' \<le> length cs + length ks"
proof (induction ks arbitrary: list cs s w)
  case (Cons k ks)
  show ?case
  proof (cases "isOpen (heap s ! k)")
    case True
    obtain x d w1 where l: "listTicks D now q as (heap s ! k) w = (x, d, w1)" by (metis prod_cases3)
    with Cons.prems True obtain ll where "ticks_loop D now q as ks ll cs (update_db k d s) w1 = (Inr (ts, cs'), s', w')"
      by (auto split: sum.splits)
    from Cons.IH [OF this] show ?thesis by simp
  next
    case False
    with Cons.prems have "ticks_loop D now q as ks list (cs @ [k]) s w = (Inr (ts, cs'), s', w')" by simp
    from Cons.IH [OF this] show ?thesis by simp
  qed
qed simp

lemma Flush_quiet: "storage_Flush D c s w = Inr (r, s', w') \<Longrightarrow> quiet s s'"
  by (auto simp: storage_Flush_def map_sum_Inr_iff intro!: quiet_update dest: flush_moves split: sum.splits if_splits)

lemma close_one_quiet: "\<not> live (heap s ! k) \<Longrightarrow> quiet s (fst (close_one D now k (s, w, n, b)))"
  by (auto simp: close_one_def split: prod.splits intro!: quiet_update dest: closeSafe_moves)

lemma fold_quiet:
  assumes "\<And>k c. quiet (fst c) (fst (f k c))"
  shows "quiet (fst c) (fst (fold f ks c))"
proof (induction ks arbitrary: c)
  case (Cons k ks)
  from quiet_trans [OF assms Cons.IH] show ?case by simp
qed simp

lemma close_idle_quiet:
  fixes D :: "'w Driver"
  shows "quiet (fst c) (fst (close_idle D now ks c))"
  unfolding close_idle_def
proof (rule fold_quiet)
  fix k and c :: "'w closing"
  obtain s w n b where "c = (s, w, n, b)" by (metis prod_cases4)
  then show "quiet (fst c) (fst (case c of (s, _) \<Rightarrow>
     if \<not> live (heap s ! k) \<and> lastQuerySec now (heap s ! k) > CloseIdleSec (sconfig s) then close_one D now k c else c))"
    by (simp add: close_one_quiet)
qed

lemma close_over_quiet:
  fixes D :: "'w Driver"
  shows "quiet (fst c) (fst (close_over D now ks c))"
  unfolding close_over_def
proof (rule fold_quiet)
  fix k and c :: "'w closing"
  obtain s w n b where "c = (s, w, n, b)" by (metis prod_cases4)
  then show "quiet (fst c) (fst (case c of (s, w, totalOpen, closedAny) \<Rightarrow>
     if totalOpen > MaxOpenedDB (sconfig s) \<and> \<not> live (heap s ! k) then close_one D now k c else c))"
    by (simp add: close_one_quiet)
qed

lemma open_first_quiet: "quiet s (fst (open_first D now ks s w))"
proof (induction ks arbitrary: s w)
  case (Cons k ks)
  obtain r d w1 where c: "connect D (SQLiteOptions (sconfig s)) now (heap s ! k) w = (r, d, w1)" by (metis prod_cases3)
  then have "quiet s (update_db k d s)" by (auto intro: quiet_update connect_moves)
  with Cons.IH [of "update_db k d s" w1] c show ?case by (auto split: option.splits intro: quiet_trans)
qed simp

lemma open_all_quiet: "quiet s (fst (open_all D now n ks s w))"
proof (induction ks arbitrary: n s w)
  case (Cons k ks)
  obtain r d w1 where c: "connect D (SQLiteOptions (sconfig s)) now (heap s ! k) w = (r, d, w1)" by (metis prod_cases3)
  then have "quiet s (update_db k d s)" by (auto intro: quiet_update connect_moves)
  with Cons.IH [of "update_db k d s" _ w1] c show ?case by (auto split: option.splits intro: quiet_trans)
qed simp

lemma length_SliceStable [simp]: "length (SliceStable lt xs) = length xs"
  using mset_SliceStable [of lt xs] by (metis size_mset)

lemma sort_lists_quiet: "quiet s (sort_lists s)"
  by (simp add: quiet_def sort_lists_def Let_def)

lemma update_sizes_quiet: "quiet s (fst (update_sizes D now ks s w))"
proof (induction ks arbitrary: s w)
  case (Cons k ks)
  obtain r d w1 where c: "updateSize D now (heap s ! k) w = (r, d, w1)" by (metis prod_cases3)
  then have "quiet s (update_db k d s)" by (auto intro: quiet_update size_moves)
  with Cons.IH [of "update_db k d s" w1] c show ?case by (auto intro: quiet_trans)
qed simp

lemma archive_quiet: "quiet s (fst (archive_live D now s w))"
proof -
  have "quiet s (s\<lparr>heap := heap s @ [d], liveDbs := liveDbs s @ [length (heap s)]\<rparr>)"
    if "connect D os n (newDb dir p start age) w = (None, d, w1)" for os n dir p start age d w1
  proof -
    have "db_move (newDb dir p start age) d" using connect_moves [OF that] .
    then have "dbTasks d = [] \<and> taskCount d = 0 \<and> (isOpen d \<longrightarrow> handle d)"
      by (auto simp: db_move_def newDb_def isOpen_def)
    then show ?thesis by (auto simp: quiet_def heap_moves_def idle_db_def nth_append)
  qed
  then show ?thesis by (auto simp: archive_live_def Let_def split: prod.splits option.splits)
qed

lemma size_check_quiet:
  assumes "size_check D now s w = Inr (s', w')"
  shows "quiet s s'"
proof -
  obtain s1 w1 where a: "archive_live D now s w = (s1, w1)" by fastforce
  obtain s2 w2 where u: "update_sizes D (unixSec now) (liveDbs s1) s1 w1 = (s2, w2)" by fastforce
  have q: "quiet s s2" using archive_quiet [of s D now w] update_sizes_quiet [of s1 D "unixSec now" "liveDbs s1" w1] a u
    by (auto intro: quiet_trans)
  have "quiet s2 s'"
  proof (cases "s' = s2")
    case False
    with assms a u obtain k ks d where k: "dbs s2 = k # ks" "\<not> live (heap s2 ! k)" "s' = (update_db k d s2)\<lparr>dbs := ks\<rparr>"
      "fst (db_remove D (heap s2 ! k) w2) = d"
      by (auto simp: size_check_def split: if_splits list.splits prod.splits)
    then have "db_move (heap s2 ! k) d" using remove_moves [of D "heap s2 ! k" w2 d] by (metis prod.collapse)
    with k show ?thesis by (auto simp: quiet_def heap_moves_def nth_update_db)
  qed simp
  with q show ?thesis by (rule quiet_trans)
qed

subsection \<open>Where tasks are\<close>

text \<open>The ids that wait in the queues, and those of goroutines.\<close>

definition waiting :: "storageDb list \<Rightarrow> int multiset" where
  "waiting hs = sum_list (map mset (map dbTasks hs))"

definition started :: "(nat \<times> int \<times> nat) list \<Rightarrow> int multiset" where
  "started gs = mset (map (\<lambda>(k, tid, n). tid) gs)"

definition places :: "'w sched \<Rightarrow> int multiset" where
  "places x = waiting (heap (stor x)) + started (goroutines x)"

definition tstate :: "storage \<Rightarrow> int \<Rightarrow> task_state option" where
  "tstate s tid = map_option state (tasks s tid)"

text \<open>A task that waits or is about to start has not run, one that is retried is in the middle.\<close>

definition fresh_task :: "storage \<Rightarrow> int \<Rightarrow> bool" where
  "fresh_task s tid = (tstate s tid = Some task_created \<or> tstate s tid = Some task_canceled)"

definition goroutine_ok :: "storage \<Rightarrow> nat \<times> int \<times> nat \<Rightarrow> bool" where
  "goroutine_ok s g =
     (case g of (k, tid, n) \<Rightarrow>
        k < length (heap s) \<and>
        (if n = 0 then fresh_task s tid
         else tstate s tid = Some task_process \<or> tstate s tid = Some task_canceled))"

definition counted :: "storageDb list \<Rightarrow> bool" where
  "counted hs = list_all (\<lambda>d. taskCount d = int (length (dbTasks d))) hs"

definition task_inv :: "'w sched \<Rightarrow> bool" where
  "task_inv x =
     (0 \<le> taskIdSeq (stor x) \<and> (\<forall>tid. count (places x) tid \<le> 1) \<and>
      set_mset (places x) \<subseteq> {1 .. taskIdSeq (stor x)} \<and>
      (\<forall>tid \<in># waiting (heap (stor x)). fresh_task (stor x) tid) \<and>
      list_all (goroutine_ok (stor x)) (goroutines x) \<and>
      (\<forall>tid t. tasks (stor x) tid = Some t \<longrightarrow> taskDb t = None \<and> 1 \<le> tid \<and> tid \<le> taskIdSeq (stor x)) \<and>
      set (taskMap (stor x)) \<subseteq> dom (tasks (stor x)))"

text \<open>\<open>n\<close> is the number of tasks that are held by a goroutine in the middle of a step.\<close>

definition inv_holding :: "nat \<Rightarrow> 'w sched \<Rightarrow> bool" where
  "inv_holding n x =
     (storage_inv (stor x) \<and> counted (heap (stor x)) \<and>
      numActiveTasks (stor x) = int (length (goroutines x) + n) \<and> task_inv x)"

definition sched_inv :: "'w sched \<Rightarrow> bool" where
  "sched_inv = inv_holding 0"

lemma waiting_Cons [simp]: "waiting (d # hs) = mset (dbTasks d) + waiting hs" "waiting [] = {#}"
  by (simp_all add: waiting_def)

lemma waiting_append: "waiting (hs @ hs') = waiting hs + waiting hs'"
  by (induction hs) simp_all

lemma waiting_update:
  assumes "k < length hs"
  shows "waiting (hs[k := d]) + mset (dbTasks (hs ! k)) = waiting hs + mset (dbTasks d)"
proof -
  have "waiting (hs[k := d]) = waiting (take k hs) + (mset (dbTasks d) + waiting (drop (Suc k) hs))"
    using assms by (simp add: upd_conv_take_nth_drop waiting_append)
  moreover have "waiting hs = waiting (take k hs) + (mset (dbTasks (hs ! k)) + waiting (drop (Suc k) hs))"
    using id_take_nth_drop [OF assms] waiting_append waiting_Cons(1) by metis
  ultimately show ?thesis by (simp add: algebra_simps)
qed

lemma waiting_none: "\<forall>d \<in> set hs. dbTasks d = [] \<Longrightarrow> waiting hs = {#}"
  by (induction hs) simp_all

lemma waiting_same:
  assumes "heap_moves hs hs'"
  shows "waiting hs' = waiting hs"
proof -
  let ?n = "length hs"
  have "map dbTasks (take ?n hs') = map dbTasks hs"
    using assms by (intro nth_equalityI) (auto simp: heap_moves_def db_move_def)
  then have "waiting (take ?n hs') = waiting hs" by (simp only: waiting_def)
  moreover have "\<forall>d \<in> set (drop ?n hs'). dbTasks d = []"
    using assms by (auto simp: heap_moves_def idle_db_def in_set_conv_nth)
  then have "waiting (drop ?n hs') = {#}" by (rule waiting_none)
  ultimately show ?thesis using waiting_append [of "take ?n hs'" "drop ?n hs'"] by simp
qed

lemma counted_same:
  assumes "heap_moves hs hs'" "counted hs"
  shows "counted hs'"
  unfolding counted_def list_all_length
proof (intro allI impI)
  fix k assume k: "k < length hs'"
  show "taskCount (hs' ! k) = int (length (dbTasks (hs' ! k)))"
  proof (cases "k < length hs")
    case True
    with assms show ?thesis by (simp add: heap_moves_def db_move_def counted_def list_all_length)
  next
    case False
    with assms(1) k show ?thesis by (simp add: heap_moves_def idle_db_def)
  qed
qed

lemma quiet_storage_inv:
  assumes "quiet s s'" "storage_inv s"
  shows "storage_inv s'"
proof -
  have h: "heap_moves (heap s) (heap s')" using assms(1) by (simp add: quiet_def)
  have "isOpen (heap s' ! k) \<longrightarrow> handle (heap s' ! k)" if "k < length (heap s')" for k
  proof (cases "k < length (heap s)")
    case True
    with h assms(2) show ?thesis by (auto simp: heap_moves_def db_move_def storage_inv_def list_all_length)
  next
    case False
    with h that show ?thesis by (simp add: heap_moves_def idle_db_def)
  qed
  then have "list_all (\<lambda>d. isOpen d \<longrightarrow> handle d) (heap s')" by (simp add: list_all_length)
  moreover have "k < length (heap s')" if "k \<in> set (liveDbs s') \<union> set (dbs s')" for k
  proof -
    have "k \<in> set (liveDbs s) \<union> set (dbs s) \<union> {length (heap s) ..< length (heap s')}"
      using that assms(1) unfolding quiet_def by blast
    then have "k < length (heap s) \<or> k < length (heap s')"
      using assms(2) by (auto simp: storage_inv_def list_all_iff)
    moreover have "length (heap s) \<le> length (heap s')" using h by (simp add: heap_moves_def)
    ultimately show ?thesis by linarith
  qed
  moreover have "liveDbs s' \<noteq> []" using assms unfolding quiet_def storage_inv_def by (metis set_empty subset_empty)
  ultimately show ?thesis unfolding storage_inv_def by (simp add: list_all_iff)
qed

lemma quiet_tstate: "quiet s s' \<Longrightarrow> tstate s' = tstate s \<and> fresh_task s' = fresh_task s"
  by (auto simp: quiet_def tstate_def fresh_task_def fun_eq_iff)

text \<open>So the invariant survives a quiet change of the storage.\<close>

lemma quiet_keeps:
  assumes "quiet (stor x) s'" "inv_holding n x"
  shows "inv_holding n (x\<lparr>stor := s', world := w'\<rparr>)"
proof -
  have h: "heap_moves (heap (stor x)) (heap s')" using assms(1) by (simp add: quiet_def)
  have p: "places (x\<lparr>stor := s', world := w'\<rparr>) = places x" by (simp add: places_def waiting_same [OF h])
  have "goroutine_ok s' g" if "goroutine_ok (stor x) g" for g
    using that quiet_tstate [OF assms(1)] h
    by (auto simp: goroutine_ok_def heap_moves_def split: prod.splits)
  then have "list_all (goroutine_ok (stor x)) gs \<Longrightarrow> list_all (goroutine_ok s') gs" for gs by (simp add: list_all_iff)
  then have "task_inv (x\<lparr>stor := s', world := w'\<rparr>)"
    using assms p waiting_same [OF h] quiet_tstate [OF assms(1)] unfolding task_inv_def inv_holding_def quiet_def by simp
  moreover have "storage_inv s'" "counted (heap s')"
    using quiet_storage_inv [OF assms(1)] counted_same [OF h] assms(2) by (simp_all add: inv_holding_def)
  ultimately show ?thesis using assms by (simp add: inv_holding_def quiet_def)
qed

subsection \<open>Moving a task\<close>

lemma size_places:
  assumes "task_inv x"
  shows "int (size (places x)) \<le> taskIdSeq (stor x)"
proof -
  have "size (places x) \<le> (\<Sum>tid \<in> set_mset (places x). 1)"
    unfolding size_multiset_overloaded_eq using assms by (intro sum_mono) (simp add: task_inv_def)
  also have "\<dots> \<le> card {1 .. taskIdSeq (stor x)}" using assms card_mono [of "{1 .. taskIdSeq (stor x)}"] by (simp add: task_inv_def)
  finally have "size (places x) \<le> nat (taskIdSeq (stor x))" by simp
  moreover have "0 \<le> taskIdSeq (stor x)" using assms by (simp add: task_inv_def)
  ultimately show ?thesis by linarith
qed

lemma queue_in_waiting:
  assumes "k < length hs"
  shows "mset (dbTasks (hs ! k)) \<subseteq># waiting hs"
proof -
  have "waiting hs = waiting (hs[k := hs ! k])" by simp
  also have "\<dots> = waiting (take k hs) + (mset (dbTasks (hs ! k)) + waiting (drop (Suc k) hs))"
    using upd_conv_take_nth_drop [OF assms] by (simp add: waiting_append del: list_update_id)
  finally show ?thesis by simp
qed

lemma queue_bound:
  assumes "task_inv x" "k < length (heap (stor x))"
  shows "int (length (dbTasks (heap (stor x) ! k))) \<le> taskIdSeq (stor x)"
proof -
  have "length (dbTasks (heap (stor x) ! k)) \<le> size (places x)"
    using size_mset_mono [OF queue_in_waiting [OF assms(2)]] by (simp add: places_def)
  with size_places [OF assms(1)] show ?thesis by simp
qed

lemma storage_inv_other:
  "storage_inv s \<Longrightarrow> heap s' = heap s \<Longrightarrow> dbs s' = dbs s \<Longrightarrow> liveDbs s' = liveDbs s \<Longrightarrow> storage_inv s'"
  by (simp add: storage_inv_def)

lemma goroutines_other:
  assumes "list_all (goroutine_ok s) gs" "length (heap s') = length (heap s)"
    and "\<And>k tid n. (k, tid, n) \<in> set gs \<Longrightarrow> tstate s' tid = tstate s tid"
  shows "list_all (goroutine_ok s') gs"
  using assms by (force simp: list_all_iff goroutine_ok_def fresh_task_def)

lemma started_iff: "tid \<in># started gs \<longleftrightarrow> (\<exists>k n. (k, tid, n) \<in> set gs)"
  by (force simp: started_def)

lemma tstate_upd: "tstate (upd_task tid f s) i = (if i = tid then map_option (\<lambda>t. state (f t)) (tasks s tid) else tstate s i)"
  by (simp add: tstate_def upd_task_def option.map_comp comp_def)

lemma inv_parts:
  assumes "inv_holding n x"
  shows "storage_inv (stor x)" "counted (heap (stor x))" "numActiveTasks (stor x) = int (length (goroutines x) + n)"
    "0 \<le> taskIdSeq (stor x)" "count (places x) tid \<le> 1" "set_mset (places x) \<subseteq> {1 .. taskIdSeq (stor x)}"
    "tid \<in># waiting (heap (stor x)) \<Longrightarrow> fresh_task (stor x) tid" "list_all (goroutine_ok (stor x)) (goroutines x)"
    "tasks (stor x) tid = Some t \<Longrightarrow> taskDb t = None \<and> 1 \<le> tid \<and> tid \<le> taskIdSeq (stor x)"
    "set (taskMap (stor x)) \<subseteq> dom (tasks (stor x))"
  using assms unfolding inv_holding_def task_inv_def by blast+

lemma inv_holdingI:
  assumes "storage_inv (stor x)" "counted (heap (stor x))" "numActiveTasks (stor x) = int (length (goroutines x) + n)"
    "0 \<le> taskIdSeq (stor x)" "\<And>tid. count (places x) tid \<le> 1" "set_mset (places x) \<subseteq> {1 .. taskIdSeq (stor x)}"
    "\<And>tid. tid \<in># waiting (heap (stor x)) \<Longrightarrow> fresh_task (stor x) tid" "list_all (goroutine_ok (stor x)) (goroutines x)"
    "\<And>tid t. tasks (stor x) tid = Some t \<Longrightarrow> taskDb t = None \<and> 1 \<le> tid \<and> tid \<le> taskIdSeq (stor x)"
    "set (taskMap (stor x)) \<subseteq> dom (tasks (stor x))"
  shows "inv_holding n x"
  unfolding inv_holding_def task_inv_def using assms by blast

text \<open>A task that is nowhere can change; it can join a queue or become a goroutine.\<close>

lemma upd_held:
  assumes I: "inv_holding n x" and tid: "tid \<notin># places x" and f: "\<And>t. taskDb (f t) = taskDb t"
  shows "inv_holding n (x\<lparr>stor := upd_task tid f (stor x)\<rparr>)"
proof (rule inv_holdingI)
  let ?s = "upd_task tid f (stor x)" and ?x = "x\<lparr>stor := upd_task tid f (stor x)\<rparr>"
  have s: "heap ?s = heap (stor x)" "dbs ?s = dbs (stor x)" "liveDbs ?s = liveDbs (stor x)" "taskIdSeq ?s = taskIdSeq (stor x)"
    "numActiveTasks ?s = numActiveTasks (stor x)" "taskMap ?s = taskMap (stor x)"
    by (simp_all add: upd_task_def)
  have p: "places ?x = places x" by (simp add: places_def s)
  show "storage_inv (stor ?x)" using storage_inv_other [OF inv_parts(1) [OF I] s(1-3)] by simp
  show "counted (heap (stor ?x))" "numActiveTasks (stor ?x) = int (length (goroutines ?x) + n)" "0 \<le> taskIdSeq (stor ?x)"
    "set_mset (places ?x) \<subseteq> {1 .. taskIdSeq (stor ?x)}" "count (places ?x) i \<le> 1" for i
    using inv_parts(2-6) [OF I] by (simp_all add: s p)
  have "tstate ?s i = tstate (stor x) i" if "(k, i, m) \<in> set (goroutines x)" for k i m
    using that tid by (auto simp: tstate_upd places_def started_iff)
  then show "list_all (goroutine_ok (stor ?x)) (goroutines ?x)"
    using goroutines_other [OF inv_parts(8) [OF I], of ?s] by (simp add: s)
  show "fresh_task (stor ?x) i" if "i \<in># waiting (heap (stor ?x))" for i
  proof -
    have "i \<noteq> tid" using that tid by (auto simp: s places_def)
    with inv_parts(7) [OF I, of i] that show ?thesis by (simp add: s fresh_task_def tstate_upd)
  qed
  show "taskDb t = None \<and> 1 \<le> i \<and> i \<le> taskIdSeq (stor ?x)" if "tasks (stor ?x) i = Some t" for i t
    using that inv_parts(9) [OF I, of i] f by (auto simp: s upd_task_def split: if_splits)
  show "set (taskMap (stor ?x)) \<subseteq> dom (tasks (stor ?x))"
    using inv_parts(10) [OF I] by (auto simp: upd_task_def)
qed

lemma set_active:
  assumes I: "inv_holding n x" and m: "m = int (length (goroutines x) + n')"
  shows "inv_holding n' (x\<lparr>stor := (stor x)\<lparr>numActiveTasks := m\<rparr>\<rparr>)"
proof (rule inv_holdingI)
  let ?x = "x\<lparr>stor := (stor x)\<lparr>numActiveTasks := m\<rparr>\<rparr>"
  show "list_all (goroutine_ok (stor ?x)) (goroutines ?x)"
    using goroutines_other [OF inv_parts(8) [OF I]] by (simp add: tstate_def)
  show "fresh_task (stor ?x) i" if "i \<in># waiting (heap (stor ?x))" for i
    using inv_parts(7) [OF I, of i] that by (simp add: fresh_task_def tstate_def)
  show "storage_inv (stor ?x)" by (rule storage_inv_other [OF inv_parts(1) [OF I]]) simp_all
qed (use m inv_parts [OF I] in \<open>simp_all add: places_def\<close>)

lemma release:
  assumes I: "inv_holding (Suc n) x" and "int (length (goroutines x) + Suc n) < 2 ^ 31"
  shows "inv_holding n (x\<lparr>stor := onDbTask True (stor x)\<rparr>)"
proof -
  have "i32 (numActiveTasks (stor x) - 1) = int (length (goroutines x) + n)"
    using inv_parts(3) [OF I] assms(2) by (simp add: i32_id)
  then show ?thesis unfolding onDbTask_def using set_active [OF I, of _ n] by simp
qed

lemma hold:
  assumes I: "inv_holding n x" and "int (length (goroutines x) + Suc n) < 2 ^ 31"
  shows "inv_holding (Suc n) (x\<lparr>stor := onDbTask False (stor x)\<rparr>)"
proof -
  have "i32 (numActiveTasks (stor x) + 1) = int (length (goroutines x) + Suc n)"
    using inv_parts(3) [OF I] assms(2) by (simp add: i32_id)
  then show ?thesis unfolding onDbTask_def using set_active [OF I, of _ "Suc n"] by simp
qed

text \<open>Changing one queue of the heap, as far as the storage is concerned.\<close>

lemma queue_update:
  assumes I: "inv_holding n x" and k: "k < length (heap (stor x))"
    and d: "isOpen d = isOpen (heap (stor x) ! k)" "handle d = handle (heap (stor x) ! k)" "taskCount d = int (length (dbTasks d))"
    and p: "\<And>tid. count (waiting ((heap (stor x))[k := d]) + started (goroutines x)) tid \<le> 1"
      "set_mset (waiting ((heap (stor x))[k := d])) \<subseteq> {tid. 1 \<le> tid \<and> tid \<le> taskIdSeq (stor x) \<and> fresh_task (stor x) tid}"
  shows "inv_holding n (x\<lparr>stor := update_db k d (stor x)\<rparr>)"
proof (rule inv_holdingI)
  let ?s = "update_db k d (stor x)" and ?x = "x\<lparr>stor := update_db k d (stor x)\<rparr>"
  have h: "heap ?s = (heap (stor x))[k := d]" by (simp add: update_db_def)
  have t: "tstate ?s = tstate (stor x)" "fresh_task ?s = fresh_task (stor x)" by (simp_all add: tstate_def fresh_task_def fun_eq_iff)
  show "storage_inv (stor ?x)"
    using storage_inv_update [OF inv_parts(1) [OF I], of d k] storage_inv_nth [OF inv_parts(1) [OF I] k] d by simp
  show "counted (heap (stor ?x))" using inv_parts(2) [OF I] d(3) by (auto simp: h counted_def intro: list_all_update)
  show "list_all (goroutine_ok (stor ?x)) (goroutines ?x)"
    using goroutines_other [OF inv_parts(8) [OF I], of ?s] t by simp
  show "count (places ?x) tid \<le> 1" for tid using p(1) [of tid] by (simp add: places_def h)
  have "set_mset (started (goroutines x)) \<subseteq> {1 .. taskIdSeq (stor x)}"
    using inv_parts(6) [OF I] by (simp add: places_def)
  then show "set_mset (places ?x) \<subseteq> {1 .. taskIdSeq (stor ?x)}" using p(2) by (auto simp: places_def h)
  show "fresh_task (stor ?x) tid" if "tid \<in># waiting (heap (stor ?x))" for tid
    using that p(2) by (auto simp: h t)
qed (use inv_parts [OF I] in simp_all)

lemma enqueue:
  assumes I: "inv_holding n x" and tid: "tid \<notin># places x" "1 \<le> tid" "tid \<le> taskIdSeq (stor x)" "fresh_task (stor x) tid"
    and k: "k < length (heap (stor x))" and bound: "taskIdSeq (stor x) < 2 ^ 31 - 1"
  shows "inv_holding n (x\<lparr>stor := update_db k (db_schedule tid (heap (stor x) ! k)) (stor x)\<rparr>)"
proof (rule queue_update [OF I k])
  let ?d = "heap (stor x) ! k"
  have w: "tid \<notin># waiting (heap (stor x))" using tid(1) by (simp add: places_def)
  then have new: "tid \<notin> set (dbTasks ?d)" using queue_in_waiting [OF k] by (metis mset_subset_eqD set_mset_mset)
  have c: "taskCount ?d = int (length (dbTasks ?d))" using inv_parts(2) [OF I] k by (simp add: counted_def list_all_length)
  have "int (length (dbTasks ?d)) \<le> taskIdSeq (stor x)" using queue_bound [OF _ k] I by (simp add: inv_holding_def)
  then show "taskCount (db_schedule tid ?d) = int (length (dbTasks (db_schedule tid ?d)))"
    using new bound by (simp add: db_schedule_def c i32_id)
  show "isOpen (db_schedule tid ?d) = isOpen ?d" "handle (db_schedule tid ?d) = handle ?d"
    by (simp_all add: db_schedule_def isOpen_def)
  have u: "waiting ((heap (stor x))[k := db_schedule tid ?d]) = waiting (heap (stor x)) + {#tid#}"
    using waiting_update [OF k, of "db_schedule tid ?d"] new by (simp add: db_schedule_def)
  show "count (waiting ((heap (stor x))[k := db_schedule tid ?d]) + started (goroutines x)) i \<le> 1" for i
    using inv_parts(5) [OF I, of i] tid(1) by (auto simp: u places_def count_eq_zero_iff)
  have "set_mset (waiting (heap (stor x))) \<subseteq> {1 .. taskIdSeq (stor x)}" using inv_parts(6) [OF I] by (simp add: places_def)
  then show "set_mset (waiting ((heap (stor x))[k := db_schedule tid ?d]))
      \<subseteq> {tid. 1 \<le> tid \<and> tid \<le> taskIdSeq (stor x) \<and> fresh_task (stor x) tid}"
    using tid inv_parts(7) [OF I] by (auto simp: u)
qed

lemma distinct_mset_le:
  assumes "\<And>i. count (mset ts) i \<le> 1"
  shows "distinct ts"
  unfolding distinct_count_atmost_1
proof
  fix i
  show "count (mset ts) i = (if i \<in> set ts then 1 else 0)"
  proof (cases "i \<in> set ts")
    case True
    then have "0 < count (mset ts) i" by simp
    with assms [of i] have "count (mset ts) i = 1" by linarith
    with True show ?thesis by simp
  next
    case False
    then show ?thesis by (simp add: not_in_iff [symmetric])
  qed
qed

lemma dequeue_keeps:
  assumes I: "inv_holding n x" and k: "k < length (heap (stor x))" and tid: "tid \<in> set (dbTasks (heap (stor x) ! k))"
    and bound: "taskIdSeq (stor x) < 2 ^ 31 - 1"
    and x': "x' = x\<lparr>stor := update_db k (dequeue tid (heap (stor x) ! k)) (stor x)\<rparr>"
  shows "inv_holding n x'" "tid \<notin># places x'" "tid \<in># waiting (heap (stor x))"
proof -
  let ?d = "heap (stor x) ! k" and ?hs = "heap (stor x)"
  have sub: "mset (dbTasks ?d) \<subseteq># waiting ?hs" by (rule queue_in_waiting [OF k])
  have one: "count (waiting ?hs) i + count (started (goroutines x)) i \<le> 1" for i
    using inv_parts(5) [OF I, of i] by (simp add: places_def)
  have "count (mset (dbTasks ?d)) i \<le> 1" for i
    using mset_subset_eq_count [OF sub, of i] one [of i] by linarith
  then have "distinct (dbTasks ?d)" by (rule distinct_mset_le)
  then have r: "removeAll tid (dbTasks ?d) = remove1 tid (dbTasks ?d)" by (simp add: distinct_remove1_removeAll)
  have m: "mset (dbTasks (dequeue tid ?d)) + {#tid#} = mset (dbTasks ?d)" using tid by (simp add: dequeue_def r)
  have u: "waiting ?hs = waiting (?hs[k := dequeue tid ?d]) + {#tid#}"
  proof -
    have "waiting (?hs[k := dequeue tid ?d]) + (mset (dbTasks (dequeue tid ?d)) + {#tid#}) = waiting ?hs + mset (dbTasks (dequeue tid ?d))"
      using waiting_update [OF k, of "dequeue tid ?d"] by (simp only: m)
    then have "(waiting (?hs[k := dequeue tid ?d]) + {#tid#}) + mset (dbTasks (dequeue tid ?d)) = waiting ?hs + mset (dbTasks (dequeue tid ?d))"
      by (simp only: ac_simps)
    then show ?thesis by (rule add_right_imp_eq [THEN sym])
  qed
  show t: "tid \<in># waiting ?hs" by (simp add: u)
  have none: "tid \<notin># waiting (?hs[k := dequeue tid ?d])" "tid \<notin># started (goroutines x)"
    using one [of tid] by (auto simp: u count_eq_zero_iff [symmetric])
  then show "tid \<notin># places x'" by (simp add: x' places_def update_db_def)
  have c: "taskCount ?d = int (length (dbTasks ?d))" using inv_parts(2) [OF I] k by (simp add: counted_def list_all_length)
  have b: "int (length (dbTasks ?d)) \<le> taskIdSeq (stor x)" using queue_bound [OF _ k] I by (simp add: inv_holding_def)
  show "inv_holding n x'"
    unfolding x'
  proof (rule queue_update [OF I k])
    obtain m where "length (dbTasks ?d) = Suc m" using tid by (cases "dbTasks ?d") auto
    then show "taskCount (dequeue tid ?d) = int (length (dbTasks (dequeue tid ?d)))"
      using bound b tid by (simp add: dequeue_def c i32_id r length_remove1)
    show "isOpen (dequeue tid ?d) = isOpen ?d" "handle (dequeue tid ?d) = handle ?d" by (simp_all add: dequeue_def isOpen_def)
    show "count (waiting (?hs[k := dequeue tid ?d]) + started (goroutines x)) i \<le> 1" for i
      using one [of i] by (simp add: u split: if_splits)
    have "set_mset (waiting ?hs) \<subseteq> {1 .. taskIdSeq (stor x)}" using inv_parts(6) [OF I] by (simp add: places_def)
    moreover have "set_mset (waiting (?hs[k := dequeue tid ?d])) \<subseteq> set_mset (waiting ?hs)" by (simp add: u subset_insertI)
    ultimately show "set_mset (waiting (?hs[k := dequeue tid ?d]))
        \<subseteq> {tid. 1 \<le> tid \<and> tid \<le> taskIdSeq (stor x) \<and> fresh_task (stor x) tid}"
      using inv_parts(7) [OF I] by auto
  qed
qed

lemma started_append: "started (gs @ hs) = started gs + started hs"
  by (simp add: started_def)

lemma started_single [simp]: "started [(k, tid, n)] = {#tid#}"
  by (simp add: started_def)

lemma add_goroutine:
  assumes I: "inv_holding (Suc n) x" and tid: "tid \<notin># places x" "1 \<le> tid" "tid \<le> taskIdSeq (stor x)"
    and g: "goroutine_ok (stor x) (k, tid, m)"
  shows "inv_holding n (x\<lparr>goroutines := goroutines x @ [(k, tid, m)]\<rparr>)"
proof (rule inv_holdingI)
  let ?x = "x\<lparr>goroutines := goroutines x @ [(k, tid, m)]\<rparr>"
  have p: "places ?x = places x + {#tid#}" by (simp add: places_def started_append)
  show "count (places ?x) i \<le> 1" for i
    using inv_parts(5) [OF I, of i] tid(1) by (cases "i = tid") (auto simp: p not_in_iff)
  show "set_mset (places ?x) \<subseteq> {1 .. taskIdSeq (stor ?x)}" using inv_parts(6) [OF I] tid by (simp add: p)
  show "list_all (goroutine_ok (stor ?x)) (goroutines ?x)" using inv_parts(8) [OF I] g by simp
qed (use inv_parts [OF I] in simp_all)

lemma take_goroutine:
  assumes I: "inv_holding n x" and g: "g < length (goroutines x)" "goroutines x ! g = (k, tid, m)"
    and x': "x' = x\<lparr>goroutines := take g (goroutines x) @ drop (Suc g) (goroutines x)\<rparr>"
  shows "inv_holding (Suc n) x'" "tid \<notin># places x'" "1 \<le> tid \<and> tid \<le> taskIdSeq (stor x)"
    "goroutine_ok (stor x) (k, tid, m)"
proof -
  have split: "goroutines x = take g (goroutines x) @ (k, tid, m) # drop (Suc g) (goroutines x)"
    using id_take_nth_drop [OF g(1)] g(2) by simp
  have s: "started (goroutines x) = started (goroutines x') + {#tid#}"
    by (subst split) (simp add: x' started_def)
  have p: "places x = places x' + {#tid#}" by (simp add: places_def s x')
  have one: "count (places x') i + (if i = tid then 1 else 0) \<le> 1" for i
    using inv_parts(5) [OF I, of i] by (cases "i = tid") (auto simp: p)
  show "tid \<notin># places x'" using one [of tid] by (simp add: not_in_iff)
  have "tid \<in># places x" by (simp add: p)
  then show "1 \<le> tid \<and> tid \<le> taskIdSeq (stor x)" using inv_parts(6) [OF I] by auto
  show "goroutine_ok (stor x) (k, tid, m)" using inv_parts(8) [OF I] g by (metis list_all_length)
  show "inv_holding (Suc n) x'"
  proof (rule inv_holdingI)
    show "count (places x') i \<le> 1" for i using one [of i] by (simp split: if_splits)
    show "set_mset (places x') \<subseteq> {1 .. taskIdSeq (stor x')}" using inv_parts(6) [OF I] by (simp add: p x')
    show "list_all (goroutine_ok (stor x')) (goroutines x')"
      using inv_parts(8) [OF I] by (subst (asm) split) (simp add: x')
    show "numActiveTasks (stor x') = int (length (goroutines x') + Suc n)"
      using inv_parts(3) [OF I] g(1) by (simp add: x' of_nat_diff)
  qed (use inv_parts [OF I] in \<open>simp_all add: x'\<close>)
qed

lemma new_id:
  assumes I: "inv_holding n x" and bound: "taskIdSeq (stor x) < 2 ^ 31 - 1"
    and t: "tid = i32 (taskIdSeq (stor x) + 1)"
    and s': "s' = (stor x)\<lparr>taskIdSeq := tid, tasks := (tasks (stor x))(tid \<mapsto> new_task cb), taskMap := List.insert tid (taskMap (stor x))\<rparr>"
  shows "inv_holding n (x\<lparr>stor := s'\<rparr>)" "tid \<notin># places x" "1 \<le> tid" "taskIdSeq s' = tid" "tid = taskIdSeq (stor x) + 1"
    "fresh_task s' tid"
proof -
  have seq: "0 \<le> taskIdSeq (stor x)" by (rule inv_parts(4) [OF I])
  then show tid: "tid = taskIdSeq (stor x) + 1" using bound by (simp add: t i32_id)
  then show "1 \<le> tid" "taskIdSeq s' = tid" using seq by (simp_all add: s')
  show "fresh_task s' tid" by (simp add: s' fresh_task_def tstate_def new_task_def)
  have old: "i \<noteq> tid" if "i \<in># places x" for i using that inv_parts(6) [OF I] tid by auto
  then show "tid \<notin># places x" by blast
  have ts: "tstate s' i = tstate (stor x) i" if "i \<noteq> tid" for i using that by (simp add: s' tstate_def)
  show "inv_holding n (x\<lparr>stor := s'\<rparr>)"
  proof (rule inv_holdingI)
    let ?x = "x\<lparr>stor := s'\<rparr>"
    have p: "places ?x = places x" "heap s' = heap (stor x)" by (simp_all add: places_def s')
    show "storage_inv (stor ?x)" by (rule storage_inv_other [OF inv_parts(1) [OF I]]) (simp_all add: s')
    have "{1 .. taskIdSeq (stor x)} \<subseteq> {1 .. taskIdSeq s'}" by (simp add: s' tid)
    from subset_trans [OF inv_parts(6) [OF I] this] show "set_mset (places ?x) \<subseteq> {1 .. taskIdSeq (stor ?x)}"
      by (simp add: p)
    show "fresh_task (stor ?x) i" if "i \<in># waiting (heap (stor ?x))" for i
      using that inv_parts(7) [OF I, of i] ts [OF old, of i] by (simp add: p fresh_task_def places_def)
    have "tstate s' i = tstate (stor x) i" if "(k, i, m) \<in> set (goroutines x)" for k i m
      using that by (intro ts old) (auto simp: places_def started_iff)
    then show "list_all (goroutine_ok (stor ?x)) (goroutines ?x)"
      using goroutines_other [OF inv_parts(8) [OF I], of s'] by (simp add: p)
    show "taskDb u = None \<and> 1 \<le> i \<and> i \<le> taskIdSeq (stor ?x)" if "tasks (stor ?x) i = Some u" for i u
      using that inv_parts(9) [OF I, of i u] seq tid by (auto simp: s' new_task_def split: if_splits)
    show "set (taskMap (stor ?x)) \<subseteq> dom (tasks (stor ?x))" using inv_parts(10) [OF I] by (auto simp: s')
    show "count (places ?x) i \<le> 1" for i using inv_parts(5) [OF I, of i] by (simp add: p)
  qed (use inv_parts [OF I] tid in \<open>simp_all add: s'\<close>)
qed

subsection \<open>Scheduling, starting and running tasks keep the invariant\<close>

lemma schedule_keeps:
  assumes "inv_holding n x" "\<And>k. k \<in> set ks \<Longrightarrow> k < length (heap (stor x))"
    and "taskIdSeq (stor x) + int (length ks) < 2 ^ 31 - 1"
  shows "inv_holding n (x\<lparr>stor := snd (storage_schedule ks cb (stor x))\<rparr>) \<and>
    taskIdSeq (snd (storage_schedule ks cb (stor x))) = taskIdSeq (stor x) + int (length ks)"
  using assms
proof (induction ks arbitrary: x)
  case (Cons k ks)
  define tid where "tid = i32 (taskIdSeq (stor x) + 1)"
  define s1 where "s1 = (stor x)\<lparr>taskIdSeq := tid, tasks := (tasks (stor x))(tid \<mapsto> new_task cb), taskMap := List.insert tid (taskMap (stor x))\<rparr>"
  define s2 where "s2 = update_db k (db_schedule tid (heap s1 ! k)) s1"
  have b: "taskIdSeq (stor x) < 2 ^ 31 - 1" "taskIdSeq (stor x) + 1 < 2 ^ 31 - 1" using Cons.prems(3) by simp_all
  note new = new_id [OF Cons.prems(1) b(1) tid_def s1_def]
  have "inv_holding n ((x\<lparr>stor := s1\<rparr>)\<lparr>stor := update_db k (db_schedule tid (heap (stor (x\<lparr>stor := s1\<rparr>)) ! k)) (stor (x\<lparr>stor := s1\<rparr>))\<rparr>)"
  proof (rule enqueue [OF new(1)])
    show "tid \<notin># places (x\<lparr>stor := s1\<rparr>)" using new(2) by (simp add: places_def s1_def)
    show "k < length (heap (stor (x\<lparr>stor := s1\<rparr>)))" using Cons.prems(2) by (simp add: s1_def)
  qed (use new b in simp_all)
  then have I: "inv_holding n (x\<lparr>stor := s2\<rparr>)" by (simp add: s2_def)
  have q: "taskIdSeq s2 = taskIdSeq (stor x) + 1" "length (heap s2) = length (heap (stor x))"
    using new by (simp_all add: s2_def s1_def)
  have "snd (storage_schedule (k # ks) cb (stor x)) = snd (storage_schedule ks cb s2)"
    by (simp add: Let_def split_beta s2_def s1_def tid_def)
  with Cons.IH [of "x\<lparr>stor := s2\<rparr>"] I q Cons.prems show ?case by auto
qed simp

lemma goroutines_bound:
  assumes "inv_holding n x"
  shows "int (length (goroutines x)) \<le> taskIdSeq (stor x)"
proof -
  have "length (goroutines x) \<le> size (places x)" by (simp add: places_def started_def)
  moreover have "int (size (places x)) \<le> taskIdSeq (stor x)" using size_places [of x] assms by (simp add: inv_holding_def)
  ultimately show ?thesis by linarith
qed

lemma start_one_keeps:
  assumes I: "inv_holding n x" and k: "k < length (heap (stor x))" and tid: "tid \<in> set (dbTasks (heap (stor x) ! k))"
    and bound: "taskIdSeq (stor x) + int n < 2 ^ 31 - 1"
    and x': "x' = x\<lparr>stor := onDbTask False (update_db k (dequeue tid (heap (stor x) ! k)) (stor x)),
      goroutines := goroutines x @ [(k, tid, 0)]\<rparr>"
  shows "inv_holding n x'"
proof -
  define y where "y = x\<lparr>stor := update_db k (dequeue tid (heap (stor x) ! k)) (stor x)\<rparr>"
  have b: "taskIdSeq (stor x) < 2 ^ 31 - 1" using bound by simp
  note d = dequeue_keeps [OF I k tid b y_def]
  have ok: "1 \<le> tid" "tid \<le> taskIdSeq (stor x)" "fresh_task (stor x) tid"
    using d(3) inv_parts(6,7) [OF I] by (auto simp: places_def)
  define z where "z = y\<lparr>stor := onDbTask False (stor y)\<rparr>"
  have z: "inv_holding (Suc n) z"
    unfolding z_def using goroutines_bound [OF I] bound by (intro hold [OF d(1)]) (simp add: y_def)
  have s: "taskIdSeq (stor z) = taskIdSeq (stor x)" "length (heap (stor z)) = length (heap (stor x))"
    "tstate (stor z) = tstate (stor x)" "places z = places y"
    by (simp_all add: z_def y_def onDbTask_def tstate_def places_def fun_eq_iff)
  have "inv_holding n (z\<lparr>goroutines := goroutines z @ [(k, tid, 0)]\<rparr>)"
    using d(2) ok k by (intro add_goroutine [OF z]) (simp_all add: s goroutine_ok_def fresh_task_def)
  also have "z\<lparr>goroutines := goroutines z @ [(k, tid, 0)]\<rparr> = x'" by (simp add: z_def y_def x')
  finally show ?thesis .
qed

lemma executeDbTasks_keeps:
  assumes "inv_holding n x" "k < length (heap (stor x))" "distinct tids" "set tids \<subseteq> set (dbTasks (heap (stor x) ! k))"
    and "taskIdSeq (stor x) + int n < 2 ^ 31 - 1"
  shows "inv_holding n (executeDbTasks k i m tids x) \<and> taskIdSeq (stor (executeDbTasks k i m tids x)) = taskIdSeq (stor x) \<and>
    length (heap (stor (executeDbTasks k i m tids x))) = length (heap (stor x)) \<and>
    sconfig (stor (executeDbTasks k i m tids x)) = sconfig (stor x)"
  using assms
proof (induction tids arbitrary: i x)
  case (Cons tid tids)
  define x' where "x' = x\<lparr>stor := onDbTask False (update_db k (dequeue tid (heap (stor x) ! k)) (stor x)),
      goroutines := goroutines x @ [(k, tid, 0)]\<rparr>"
  have I: "inv_holding n x'" using start_one_keeps [OF Cons.prems(1,2) _ Cons.prems(5) x'_def] Cons.prems(4) by simp
  have s: "taskIdSeq (stor x') = taskIdSeq (stor x)" "length (heap (stor x')) = length (heap (stor x))"
    "sconfig (stor x') = sconfig (stor x)" by (simp_all add: x'_def onDbTask_def)
  have "set tids \<subseteq> set (dbTasks (heap (stor x') ! k))"
    using Cons.prems by (auto simp: x'_def onDbTask_def nth_update_db dequeue_def)
  with Cons.IH [of x' "i + 1"] I s Cons.prems show ?case by (simp add: Let_def x'_def [symmetric])
qed simp

lemma queue_distinct:
  assumes I: "inv_holding n x" and k: "k < length (heap (stor x))"
  shows "distinct (dbTasks (heap (stor x) ! k))"
proof -
  let ?ts = "dbTasks (heap (stor x) ! k)"
  have "count (mset ?ts) i \<le> 1" for i
    using mset_subset_eq_count [OF queue_in_waiting [OF k], of i] inv_parts(5) [OF I, of i] by (simp add: places_def)
  then show ?thesis by (rule distinct_mset_le)
qed

lemma execute_open_keeps:
  assumes "inv_holding n x" "\<And>k. k \<in> set ks \<Longrightarrow> k < length (heap (stor x))" "taskIdSeq (stor x) + int n < 2 ^ 31 - 1"
  shows "inv_holding n (execute_open D tot qt ks x) \<and> taskIdSeq (stor (execute_open D tot qt ks x)) = taskIdSeq (stor x) \<and>
    length (heap (stor (execute_open D tot qt ks x))) = length (heap (stor x)) \<and>
    sconfig (stor (execute_open D tot qt ks x)) = sconfig (stor x)"
  using assms
proof (induction ks arbitrary: x)
  case (Cons k ks)
  let ?m = "max 1 (i32 (ntasks (stor x) k sdiv tot * qt))"
  let ?q = "range_order D (world x) (dbTasks (heap (stor x) ! k))"
  let ?x = "executeDbTasks k 0 ?m ?q x"
  have k: "k < length (heap (stor x))" using Cons.prems(2) by simp
  have e: "inv_holding n ?x \<and> taskIdSeq (stor ?x) = taskIdSeq (stor x) \<and> length (heap (stor ?x)) = length (heap (stor x)) \<and>
      sconfig (stor ?x) = sconfig (stor x)"
    using queue_distinct [OF Cons.prems(1) k] by (intro executeDbTasks_keeps [OF Cons.prems(1) k _ _ Cons.prems(3)]) simp_all
  with Cons.IH [of ?x] Cons.IH [of x] Cons.prems show ?case by (auto simp: Let_def)
qed simp

text \<open>A goroutine in the middle of \<open>exec\<close> holds its task, next to \<open>n\<close> others.\<close>

definition holds :: "nat \<Rightarrow> int \<Rightarrow> 'w sched \<Rightarrow> bool" where
  "holds n tid x =
     (inv_holding (Suc n) x \<and> tid \<notin># places x \<and> 1 \<le> tid \<and> tid \<le> taskIdSeq (stor x) \<and> taskIdSeq (stor x) + int n < 2 ^ 31 - 1)"

lemma inv_world: "inv_holding n (x\<lparr>world := w\<rparr>) = inv_holding n x"
  by (simp add: inv_holding_def task_inv_def places_def)

lemma holds_upd:
  assumes "holds n tid x" "\<And>t. taskDb (f t) = taskDb t"
  shows "holds n tid (x\<lparr>stor := upd_task tid f (stor x)\<rparr>)"
  using assms upd_held [of "Suc n" x tid f] by (auto simp: holds_def places_def upd_task_def)

lemma cas_cases:
  "cas_state tid old new s = (True, upd_task tid (\<lambda>t. t\<lparr>state := new\<rparr>) s) \<and> tstate s tid = Some old \<or>
   cas_state tid old new s = (False, s) \<and> tstate s tid \<noteq> Some old"
  by (simp add: cas_state_def tstate_def)

lemma holds_cas: "holds n tid x \<Longrightarrow> holds n tid (x\<lparr>stor := snd (cas_state tid old new (stor x))\<rparr>)"
  using cas_cases [of tid old new "stor x"] holds_upd [of n tid x "\<lambda>t. t\<lparr>state := new\<rparr>"] by auto

lemma holds_update:
  assumes "holds n tid x" "db_move (heap (stor x) ! k) d"
  shows "holds n tid (x\<lparr>stor := update_db k d (stor x)\<rparr>)"
proof -
  have q: "quiet (stor x) (update_db k d (stor x))" using assms(2) by (rule quiet_update)
  from quiet_keeps [OF q, of "Suc n" "world x"] assms(1)
  have "inv_holding (Suc n) (x\<lparr>stor := update_db k d (stor x)\<rparr>)" by (simp add: holds_def)
  moreover have "waiting (heap (update_db k d (stor x))) = waiting (heap (stor x))"
    using q by (simp add: quiet_def waiting_same)
  ultimately show ?thesis using assms(1) by (simp add: holds_def places_def)
qed

lemma callback_form:
  assumes "run_callback D now k tid cb s w = (r, s', w')"
  shows "\<exists>d g. db_move (heap s ! k) d \<and>
    (s' = update_db k d s \<or> s' = upd_task tid (\<lambda>t. t\<lparr>taskOutput := g t\<rparr>) (update_db k d s))"
proof -
  have "\<exists>d. db_move (heap s ! k) d \<and> (s' = update_db k d s \<or>
      (\<exists>g. s' = upd_task tid (\<lambda>t. t\<lparr>taskOutput := g t\<rparr>) (update_db k d s)))"
    using assms list_moves
    by (fastforce simp: run_callback_def split: callback.splits prod.splits sum.splits)
  then show ?thesis by blast
qed

lemma holds_callback:
  assumes "holds n tid x" "run_callback D now k tid cb (stor x) w = (r, s', w')"
  shows "holds n tid (x\<lparr>stor := s'\<rparr>)" "length (heap s') = length (heap (stor x))" "tstate s' tid = tstate (stor x) tid"
proof -
  from callback_form [OF assms(2)] obtain d g where d: "db_move (heap (stor x) ! k) d"
    and s': "s' = update_db k d (stor x) \<or> s' = upd_task tid (\<lambda>t. t\<lparr>taskOutput := g t\<rparr>) (update_db k d (stor x))" by blast
  have u: "holds n tid (x\<lparr>stor := update_db k d (stor x)\<rparr>)" by (rule holds_update [OF assms(1) d])
  from s' show "holds n tid (x\<lparr>stor := s'\<rparr>)"
    using u holds_upd [OF u, of "\<lambda>t. t\<lparr>taskOutput := g t\<rparr>"] by auto
  from s' show "length (heap s') = length (heap (stor x))" by (auto simp: upd_task_def)
  from s' show "tstate s' tid = tstate (stor x) tid"
    by (auto simp: tstate_def upd_task_def option.map_comp comp_def)
qed

lemma holds_release: "holds n tid x \<Longrightarrow> inv_holding n (x\<lparr>stor := onDbTask True (stor x)\<rparr>)"
  using goroutines_bound [of "Suc n" x] by (intro release) (auto simp: holds_def)

lemma holds_reschedule:
  assumes "holds n tid x" "k < length (heap (stor x))"
  shows "inv_holding n (x\<lparr>stor := onDbTask True (reschedule k tid (stor x))\<rparr>)"
proof -
  let ?s = "upd_task tid (\<lambda>t. t\<lparr>state := task_created\<rparr>) (stor x)"
  show ?thesis
  proof (cases "tstate (stor x) tid = Some task_process")
    case False
    then show ?thesis
      using holds_release [OF assms(1)] cas_cases [of tid task_process task_created "stor x"] by (auto simp: reschedule_def)
  next
    case True
    then have r: "reschedule k tid (stor x) = update_db k (db_schedule tid (heap ?s ! k)) ?s"
      using cas_cases [of tid task_process task_created "stor x"] by (auto simp: reschedule_def)
    have h: "holds n tid (x\<lparr>stor := ?s\<rparr>)" by (rule holds_upd [OF assms(1)]) simp
    obtain t where "tasks (stor x) tid = Some t" using True by (auto simp: tstate_def)
    then have f: "fresh_task ?s tid" by (simp add: fresh_task_def tstate_upd)
    have "inv_holding (Suc n) (x\<lparr>stor := update_db k (db_schedule tid (heap ?s ! k)) ?s\<rparr>)"
      using enqueue [of "Suc n" "x\<lparr>stor := ?s\<rparr>" tid k] h f assms(2) by (simp add: holds_def upd_task_def)
    moreover from this have "int (length (goroutines x) + Suc n) < 2 ^ 31"
      using goroutines_bound [of "Suc n" x] assms(1) by (simp add: holds_def)
    ultimately show ?thesis using release [of n "x\<lparr>stor := reschedule k tid (stor x)\<rparr>"] by (simp add: r)
  qed
qed

lemma exec_keeps:
  assumes H: "holds 0 tid x" and g: "goroutine_ok (stor x) (k, tid, m)"
    and e: "exec_task D now k tid m (stor x) (world x) = (r, s', w')"
  shows "case r of None \<Rightarrow> inv_holding 0 (x\<lparr>stor := s', world := w'\<rparr>)
    | Some n \<Rightarrow> inv_holding 0 (x\<lparr>stor := s', world := w', goroutines := goroutines x @ [(k, tid, n)]\<rparr>)"
proof -
  have k: "k < length (heap (stor x))" using g by (simp add: goroutine_ok_def)
  have drop: "inv_holding 0 (y\<lparr>stor := onDbTask True (stor y), world := w\<rparr>)" if "holds 0 tid y" for y :: "'a sched" and w
    using holds_release [OF that] inv_world [of 0 w "y\<lparr>stor := onDbTask True (stor y)\<rparr>"] by simp
  have again: "inv_holding 0 (y\<lparr>stor := onDbTask True (reschedule k tid (stor y)), world := w\<rparr>)"
    if "holds 0 tid y" "length (heap (stor y)) = length (heap (stor x))" for y :: "'a sched" and w
    using holds_reschedule [OF that(1)] that(2) k inv_world [of 0 w "y\<lparr>stor := onDbTask True (reschedule k tid (stor y))\<rparr>"] by simp
  show ?thesis
  proof (cases "tstate (stor x) tid = Some task_created")
    case False
    then have "r = None" "s' = onDbTask True (stor x)" "w' = world x"
      using e cas_cases [of tid task_created task_process "stor x"] by (auto simp: exec_task_def)
    with drop [OF H, of "world x"] show ?thesis by simp
  next
    case True
    let ?s = "upd_task tid (\<lambda>t. t\<lparr>state := task_process\<rparr>) (stor x)"
    obtain task where t: "tasks (stor x) tid = Some task" using True by (auto simp: tstate_def)
    have h1: "holds 0 tid (x\<lparr>stor := ?s\<rparr>)" by (rule holds_upd [OF H]) simp
    have l1: "length (heap ?s) = length (heap (stor x))" by (simp add: upd_task_def)
    have t1: "tstate ?s tid = Some task_process" using t by (simp add: tstate_upd)
    have c: "cas_state tid task_created task_process (stor x) = (True, ?s)"
      using cas_cases [of tid task_created task_process "stor x"] True by auto
    show ?thesis
    proof (cases "isOpen (heap ?s ! k)")
      case False
      then have "r = None" "s' = onDbTask True (reschedule k tid ?s)" "w' = world x"
        using e by (simp_all add: exec_task_def c t)
      with again [OF h1, of "world x"] l1 show ?thesis by simp
    next
      case True
      obtain r2 s2 w2 where cb: "run_callback D now k tid (taskCallback task) ?s (world x) = (r2, s2, w2)"
        by (metis prod_cases3)
      have cb': "run_callback D now k tid (taskCallback task) (stor (x\<lparr>stor := ?s\<rparr>)) (world x) = (r2, s2, w2)"
        using cb by simp
      note h2 = holds_callback [OF h1 cb']
      then have h2': "holds 0 tid (x\<lparr>stor := s2\<rparr>)" "length (heap s2) = length (heap (stor x))" "tstate s2 tid = Some task_process"
        using l1 t1 by simp_all
      show ?thesis
      proof (cases r2)
        case None
        then have "r = None" "s' = onDbTask True (snd (cas_state tid task_process task_finished s2))" "w' = w2"
          using e True by (simp_all add: exec_task_def c t cb)
        with drop [OF holds_cas [OF h2'(1), of task_process task_finished], of w2] show ?thesis by simp
      next
        case (Some err)
        consider "\<not> isOpen (heap s2 ! k)" | "isOpen (heap s2 ! k)" "m < 3" | "isOpen (heap s2 ! k)" "\<not> m < 3" by blast
        then show ?thesis
        proof cases
          case 1
          with Some True e have "r = None" "s' = onDbTask True (reschedule k tid s2)" "w' = w2"
            by (simp_all add: exec_task_def c t cb)
          with again [OF h2'(1), of w2] h2'(2) show ?thesis by simp
        next
          case 2
          with Some True e have r: "r = Some (m + 1)" "s' = s2" "w' = w2"
            by (simp_all add: exec_task_def c t cb)
          have "inv_holding 0 ((x\<lparr>stor := s2\<rparr>)\<lparr>goroutines := goroutines (x\<lparr>stor := s2\<rparr>) @ [(k, tid, m + 1)]\<rparr>)"
            using h2' k by (intro add_goroutine) (auto simp: holds_def goroutine_ok_def)
          with r inv_world [of 0 w2 "x\<lparr>stor := s2, goroutines := goroutines x @ [(k, tid, m + 1)]\<rparr>"]
          show ?thesis by (cases x) simp
        next
          case 3
          let ?s3 = "upd_task tid (\<lambda>t. t\<lparr>taskOutput := (taskOutput t)\<lparr>OutError := Some err\<rparr>\<rparr>) s2"
          have h3: "holds 0 tid (x\<lparr>stor := ?s3\<rparr>)"
            using holds_upd [OF h2'(1), of "\<lambda>t. t\<lparr>taskOutput := (taskOutput t)\<lparr>OutError := Some err\<rparr>\<rparr>"] by simp
          from 3 Some True e have "r = None" "s' = onDbTask True (snd (cas_state tid task_process task_finished ?s3))" "w' = w2"
            by (simp_all add: exec_task_def c t cb Let_def)
          with drop [OF holds_cas [OF h3, of task_process task_finished], of w2] show ?thesis by simp
        qed
      qed
    qed
  qed
qed

lemma run_goroutine_keeps:
  assumes "inv_holding 0 x" "taskIdSeq (stor x) < 2 ^ 31 - 1"
  shows "inv_holding 0 (run_goroutine D now g x)"
proof (cases "g < length (goroutines x)")
  case True
  obtain k tid m where g: "goroutines x ! g = (k, tid, m)" by (metis prod_cases3)
  define y where "y = x\<lparr>goroutines := take g (goroutines x) @ drop (Suc g) (goroutines x)\<rparr>"
  note t = take_goroutine [OF assms(1) True g y_def]
  have H: "holds 0 tid y" using t assms(2) by (simp add: holds_def y_def)
  obtain r s' w' where e: "exec_task D now k tid m (stor x) (world x) = (r, s', w')" by (metis prod_cases3)
  have "exec_task D now k tid m (stor y) (world y) = (r, s', w')" "goroutine_ok (stor y) (k, tid, m)"
    using e t(4) by (simp_all add: y_def)
  note k = exec_keeps [OF H this(2,1)]
  show ?thesis
  proof (cases r)
    case None
    then have "run_goroutine D now g x = y\<lparr>stor := s', world := w'\<rparr>"
      using True g e by (cases x) (simp add: run_goroutine_def y_def Let_def)
    with k None show ?thesis by simp
  next
    case (Some n)
    then have "run_goroutine D now g x = y\<lparr>stor := s', world := w', goroutines := goroutines y @ [(k, tid, n)]\<rparr>"
      using True g e by (cases x) (simp add: run_goroutine_def y_def Let_def)
    with k Some show ?thesis by simp
  qed
qed (use assms in \<open>simp add: run_goroutine_def\<close>)

subsection \<open>Every step keeps the invariant\<close>

lemma inv_index: "inv_holding n x \<Longrightarrow> k \<in> set (dbs (stor x)) \<Longrightarrow> k < length (heap (stor x))"
  using inv_parts(1) [of n x] by (auto simp: storage_inv_def list_all_iff)

lemma start_tasks_keeps:
  assumes "inv_holding n x" "taskIdSeq (stor x) + int n < 2 ^ 31 - 1"
  shows "inv_holding n (start_tasks D x) \<and> taskIdSeq (stor (start_tasks D x)) = taskIdSeq (stor x)"
proof -
  have "inv_holding n (execute_open D a b (filter P (dbs (stor x))) x) \<and>
      taskIdSeq (stor (execute_open D a b (filter P (dbs (stor x))) x)) = taskIdSeq (stor x)" for a b P
    using execute_open_keeps [OF assms(1) _ assms(2), of "filter P (dbs (stor x))" D a b] inv_index [OF assms(1)] by simp
  then show ?thesis using assms by (simp add: start_tasks_def Let_def)
qed

lemma routine_quiet:
  "\<exists>s w. doRoutineScheduledTasks D now x = (start_tasks D x)\<lparr>stor := s, world := w\<rparr> \<and> quiet (stor (start_tasks D x)) s"
proof -
  define x1 where "x1 = start_tasks D x"
  define n where "n = int (length (filter (\<lambda>k. isOpen (heap (stor x) ! k)) (dbs (stor x))))"
  define o1 where "o1 = filter (\<lambda>k. isOpen (heap (stor x) ! k) \<and> ntasks (stor x) k > 0) (dbs (stor x))"
  define o2 where "o2 = filter (\<lambda>k. isOpen (heap (stor x) ! k) \<and> \<not> ntasks (stor x) k > 0) (dbs (stor x))"
  define o3 where "o3 = filter (\<lambda>k. \<not> isOpen (heap (stor x) ! k) \<and> ntasks (stor x) k > 0) (dbs (stor x))"
  define m where "m = MaxOpenedDB (sconfig (stor x))"
  define c1 where "c1 = close_idle D now (dbs (stor x)) (stor x1, world x1, n, False)"
  define c2 where "c2 = (if fst (snd (snd c1)) > m then close_over D now o2 c1 else c1)"
  define c3 where "c3 = (if fst (snd (snd c2)) > m then close_over D now (fewest_tasks (fst c2) o1) c2 else c2)"
  obtain s w t b where c: "c3 = (s, w, t, b)" by (metis prod_cases4)
  define e where "e = (if t > MaxOpenedDB (sconfig s) then open_first D now (fewest_tasks s o3) s w
      else open_all D now t (fewest_tasks s o3) s w)"
  have "quiet (stor x1) (fst c1)" using close_idle_quiet [of "(stor x1, world x1, n, False)"] by (simp add: c1_def)
  also have "quiet (fst c1) (fst c2)" by (simp add: c2_def close_over_quiet)
  also (quiet_trans) have "quiet (fst c2) (fst c3)" by (simp add: c3_def close_over_quiet)
  also (quiet_trans) have "quiet (fst c3) (fst e)" by (simp add: c e_def open_first_quiet open_all_quiet)
  also (quiet_trans) have "quiet (fst e) (if b then sort_lists (fst e) else fst e)" by (simp add: sort_lists_quiet)
  finally (quiet_trans) have q: "quiet (stor x1) (if b then sort_lists (fst e) else fst e)" .
  have "doRoutineScheduledTasks D now x = x1\<lparr>stor := (if b then sort_lists (fst e) else fst e), world := snd e\<rparr>"
    unfolding doRoutineScheduledTasks_def Let_def x1_def [symmetric] n_def [symmetric] o1_def [symmetric] o2_def [symmetric]
      o3_def [symmetric] m_def [symmetric] c1_def [symmetric] c2_def [symmetric] c3_def [symmetric] c
    by (simp add: e_def split_beta)
  with q show ?thesis by (auto simp: x1_def)
qed

lemma routine_keeps:
  assumes "inv_holding n x" "taskIdSeq (stor x) + int n < 2 ^ 31 - 1"
  shows "inv_holding n (doRoutineScheduledTasks D now x)"
proof -
  obtain s w where r: "doRoutineScheduledTasks D now x = (start_tasks D x)\<lparr>stor := s, world := w\<rparr>" "quiet (stor (start_tasks D x)) s"
    using routine_quiet [of D now x] by (elim exE conjE)
  with start_tasks_keeps [OF assms] quiet_keeps [OF r(2)] show ?thesis by simp
qed

text \<open>What both queries do to the storage: a quiet change, then tasks for some of the databases.\<close>

definition asks :: "storage \<Rightarrow> storage \<Rightarrow> bool" where
  "asks s s' = (\<exists>s1 cs cb. quiet s s1 \<and> set cs \<subseteq> set (dbs s) \<and> length cs \<le> length (dbs s) \<and>
     s' = snd (storage_schedule cs cb s1))"

lemma asksI: "quiet s s1 \<Longrightarrow> set cs \<subseteq> set (dbs s) \<Longrightarrow> length cs \<le> length (dbs s) \<Longrightarrow> asks s (snd (storage_schedule cs cb s1))"
  unfolding asks_def by blast

lemma quiet_asks: "quiet s s' \<Longrightarrow> asks s s'"
  using asksI [of s s' "[]"] by simp

lemma entries_asks:
  assumes e: "storage_Entries D input now s w = (r, s', w')"
  shows "asks s s'"
proof (cases "s' = s")
  case False
  let ?e = "if EpochStart input = 0 then now else EpochStart input"
  obtain q as r' where l: "entries_loop D now (entriesMaxResult input) q as (entries_dbs (Direction input) ?e s) [] s w = (r', s', w')"
    using e False by (auto simp: storage_Entries_def Let_def split: sum.splits prod.splits)
  obtain s1 where s1: "quiet s s1"
    "s' = s1 \<or> (\<exists>k cb. k \<in> set (entries_dbs (Direction input) ?e s) \<and> s' = snd (storage_schedule [k] cb s1))"
    using entries_loop_quiet [OF l] by blast
  show ?thesis
  proof (cases "s' = s1")
    case False
    then obtain k cb where k: "k \<in> set (entries_dbs (Direction input) ?e s)" "s' = snd (storage_schedule [k] cb s1)"
      using s1(2) by blast
    then have "k \<in> set (dbs s)" by (auto simp: entries_dbs_def Let_def split: if_splits)
    moreover from this have "1 \<le> length (dbs s)" by (cases "dbs s") auto
    ultimately show ?thesis unfolding k(2) by (intro asksI [OF s1(1)]) simp_all
  qed (use s1(1) in \<open>simp add: quiet_asks\<close>)
qed (simp add: quiet_asks)

lemma ticks_asks:
  assumes t: "storage_Ticks D input now s w = (r, s', w')"
  shows "asks s s'"
proof -
  let ?e = "if EpochEnd input = 0 then now else EpochEnd input"
  let ?ks = "ticks_dbs (i64 (?e - i64 (IntervalSec input * ticksMaxResult input))) ?e s"
  show ?thesis
  proof (cases "ticks_query (ExprBuilder (sconfig s)) input ?e")
    case (Inl err)
    then show ?thesis using t by (auto simp: storage_Ticks_def Let_def quiet_asks)
  next
    case (Inr x)
    obtain q as where x: "x = (q, as)" by fastforce
    obtain r1 s1 w1 where l: "ticks_loop D now q as ?ks [] [] s w = (r1, s1, w1)" by (metis prod_cases3)
    note q1 = ticks_loop_quiet [OF l]
    have "s' = s1 \<or> (\<exists>ts cs. r1 = Inr (ts, cs) \<and> s' = snd (storage_schedule cs (ListTicks q as) s1))"
      using t Inr l x by (cases r1)
        (auto simp: storage_Ticks_def Let_def simp del: storage_schedule.simps split: list.splits prod.splits)
    then consider "s' = s1" | ts cs where "r1 = Inr (ts, cs)" "s' = snd (storage_schedule cs (ListTicks q as) s1)" by blast
    then show ?thesis
    proof cases
      case 2
      have "length ?ks \<le> length (dbs s)" by (simp add: ticks_dbs_def)
      then have "length cs \<le> length (dbs s)" using ticks_loop_length [OF l [unfolded 2(1)]] by simp
      moreover have "set cs \<subseteq> set (dbs s)" using q1 2(1) by (auto simp: ticks_dbs_def)
      ultimately show ?thesis unfolding 2(2) using q1 by (intro asksI) auto
    qed (use q1 in \<open>simp add: quiet_asks\<close>)
  qed
qed

lemma asks_keeps:
  assumes I: "inv_holding n x" and b: "taskIdSeq (stor x) + int (length (dbs (stor x))) < 2 ^ 31 - 1" and a: "asks (stor x) s'"
  shows "inv_holding n (x\<lparr>stor := s', world := w\<rparr>)"
proof -
  obtain s1 cs cb where s1: "quiet (stor x) s1" "set cs \<subseteq> set (dbs (stor x))" "length cs \<le> length (dbs (stor x))"
    "s' = snd (storage_schedule cs cb s1)" using a unfolding asks_def by blast
  have I1: "inv_holding n (x\<lparr>stor := s1, world := w\<rparr>)" by (rule quiet_keeps [OF s1(1) I])
  have seq: "taskIdSeq s1 = taskIdSeq (stor x)" "length (heap (stor x)) \<le> length (heap s1)"
    using s1(1) by (simp_all add: quiet_def heap_moves_def)
  have "k \<in> set cs \<Longrightarrow> k < length (heap s1)" for k using s1(2) inv_index [OF I] seq(2) by fastforce
  then have "inv_holding n ((x\<lparr>stor := s1, world := w\<rparr>)\<lparr>stor := snd (storage_schedule cs cb (stor (x\<lparr>stor := s1, world := w\<rparr>)))\<rparr>)"
    using schedule_keeps [OF I1, of cs cb] b seq(1) s1(3) by simp
  then show ?thesis unfolding s1(4) by (cases x) simp
qed

lemma result_keeps:
  assumes I: "inv_holding n x"
  shows "inv_holding n (x\<lparr>stor := snd (storage_Result tid (stor x))\<rparr>)"
proof -
  have "inv_holding n (x\<lparr>stor := (stor x)\<lparr>taskMap := removeAll tid (taskMap (stor x))\<rparr>\<rparr>)" (is "inv_holding n ?x")
  proof (rule inv_holdingI)
    show "storage_inv (stor ?x)" by (rule storage_inv_other [OF inv_parts(1) [OF I]]) simp_all
    have p: "places ?x = places x" by (simp add: places_def)
    show "count (places ?x) i \<le> 1" "set_mset (places ?x) \<subseteq> {1 .. taskIdSeq (stor ?x)}" for i
      using inv_parts(5,6) [OF I] by (simp_all add: p)
    show "fresh_task (stor ?x) i" if "i \<in># waiting (heap (stor ?x))" for i
      using inv_parts(7) [OF I, of i] that by (simp add: fresh_task_def tstate_def)
    show "list_all (goroutine_ok (stor ?x)) (goroutines ?x)"
      using goroutines_other [OF inv_parts(8) [OF I], of "stor ?x"] by (simp add: tstate_def)
    show "set (taskMap (stor ?x)) \<subseteq> dom (tasks (stor ?x))" using inv_parts(10) [OF I] by auto
  qed (use inv_parts [OF I] in simp_all)
  with I show ?thesis by (cases "loaded tid (stor x)") (auto simp: storage_Result_def)
qed

lemma cancel_keeps:
  assumes I: "inv_holding n x"
  shows "inv_holding n (x\<lparr>stor := snd (storage_Cancel tid (stor x))\<rparr>)"
proof (cases "loaded tid (stor x)")
  case (Some task)
  let ?s = "upd_task tid (\<lambda>t. t\<lparr>state := task_canceled\<rparr>) (stor x)" and ?x = "x\<lparr>stor := upd_task tid (\<lambda>t. t\<lparr>state := task_canceled\<rparr>) (stor x)\<rparr>"
  have t: "tasks (stor x) tid = Some task" using Some by (simp add: loaded_def split: if_splits)
  then have "taskDb task = None" using inv_parts(9) [OF I] by blast
  then have c: "snd (storage_Cancel tid (stor x)) = ?s" using Some by (simp add: storage_Cancel_def Let_def)
  have s: "heap ?s = heap (stor x)" "dbs ?s = dbs (stor x)" "liveDbs ?s = liveDbs (stor x)" "taskIdSeq ?s = taskIdSeq (stor x)"
    "numActiveTasks ?s = numActiveTasks (stor x)" "taskMap ?s = taskMap (stor x)"
    by (simp_all add: upd_task_def)
  have ts: "tstate ?s i = (if i = tid then Some task_canceled else tstate (stor x) i)" for i by (simp add: tstate_upd t)
  have p: "places ?x = places x" by (simp add: places_def s)
  have "inv_holding n ?x"
  proof (rule inv_holdingI)
    show "storage_inv (stor ?x)" using storage_inv_other [OF inv_parts(1) [OF I] s(1-3)] by simp
    show "count (places ?x) i \<le> 1" "set_mset (places ?x) \<subseteq> {1 .. taskIdSeq (stor ?x)}" for i
      using inv_parts(5,6) [OF I] by (simp_all add: p s)
    show "fresh_task (stor ?x) i" if "i \<in># waiting (heap (stor ?x))" for i
      using inv_parts(7) [OF I, of i] that by (simp add: s fresh_task_def ts)
    have "goroutine_ok ?s g" if "goroutine_ok (stor x) g" for g
      using that by (auto simp: goroutine_ok_def fresh_task_def ts s split: prod.splits)
    then show "list_all (goroutine_ok (stor ?x)) (goroutines ?x)"
      using inv_parts(8) [OF I] by (simp add: list_all_iff)
    show "taskDb u = None \<and> 1 \<le> i \<and> i \<le> taskIdSeq (stor ?x)" if "tasks (stor ?x) i = Some u" for i u
      using that inv_parts(9) [OF I, of i] t by (auto simp: upd_task_def split: if_splits)
    show "set (taskMap (stor ?x)) \<subseteq> dom (tasks (stor ?x))" using inv_parts(10) [OF I] by (auto simp: upd_task_def)
  qed (use inv_parts [OF I] in \<open>simp_all add: s\<close>)
  with c show ?thesis by simp
qed (use I in \<open>simp add: storage_Cancel_def\<close>)

text \<open>
  One step, as long as the task ids do not run out; the steps that are not of a task goroutine also with
  tasks that are held by goroutines in the middle of theirs.
\<close>

lemma event_keeps:
  assumes I: "inv_holding n x" and b: "taskIdSeq (stor x) + int (length (dbs (stor x))) + int n + 1 < 2 ^ 31 - 1"
    and ev: "\<And>g now. ev \<noteq> Exec g now"
  shows "inv_holding n (sched_step D ev x)"
proof (cases ev)
  case (Routine now)
  then show ?thesis using routine_keeps [OF I] b by simp
next
  case (AskEntries input now)
  obtain r s w where e: "storage_Entries D input now (stor x) (world x) = (r, s, w)" by (metis prod_cases3)
  with asks_keeps [OF I _ entries_asks [OF e]] b AskEntries show ?thesis by simp
next
  case (AskTicks input now)
  obtain r s w where t: "storage_Ticks D input now (stor x) (world x) = (r, s, w)" by (metis prod_cases3)
  with asks_keeps [OF I _ ticks_asks [OF t]] b AskTicks show ?thesis by simp
next
  case (AskResult tid)
  then show ?thesis using result_keeps [OF I] by simp
next
  case (AskCancel tid)
  then show ?thesis using cancel_keeps [OF I] by simp
next
  case (FlushChunk c)
  then show ?thesis using quiet_keeps [OF Flush_quiet I] I by (auto split: sum.splits)
next
  case (SizeCheck now)
  then show ?thesis using quiet_keeps [OF size_check_quiet I] I by (auto split: sum.splits)
next
  case WalCheckpoint
  then show ?thesis using I by (simp add: inv_world)
qed (use ev in simp)

lemma step_keeps:
  assumes "sched_inv x" "taskIdSeq (stor x) + int (length (dbs (stor x))) + 1 < 2 ^ 31 - 1"
  shows "sched_inv (sched_step D ev x)"
proof (cases "\<exists>g now. ev = Exec g now")
  case True
  then show ?thesis using run_goroutine_keeps [of x] assms by (auto simp: sched_inv_def)
next
  case False
  then show ?thesis using event_keeps [of 0 x ev D] assms by (simp add: sched_inv_def)
qed

end
