(* ===== verification/SystemMoves.thy ===== *)
theory SystemMoves imports SystemInvariant begin

text \<open>
  Relations along which the storage moves. A property of the storage that quiet changes, changes of
  tasks and changes of queues respect is respected by everything the routines and the task goroutines
  do, and, when it allows new tasks, by every step. The laws are the locales here;
  \<open>SystemProperties\<close> and \<open>TaskSteps\<close> interpret them.
\<close>

lemma heap_simps [simp]:
  "heap (upd_task tid f s) = heap s" "heap (onDbTask complete s) = heap s" "heap (snd (cas_state tid old new s)) = heap s"
  by (simp_all add: upd_task_def onDbTask_def cas_state_def)

lemma queue_flags [simp]:
  "live (db_schedule tid d) = live d" "isOpen (db_schedule tid d) = isOpen d"
  "live (dequeue tid d) = live d" "isOpen (dequeue tid d) = isOpen d"
  by (simp_all add: db_schedule_def dequeue_def isOpen_def)

locale storage_moves =
  fixes R :: "storage \<Rightarrow> storage \<Rightarrow> bool"
  assumes same: "R s s"
    and further: "R a b \<Longrightarrow> R b c \<Longrightarrow> R a c"
    and calm: "quiet s s' \<Longrightarrow> R s s'"
    and task: "R s (upd_task tid f s)"
    and queue: "live d = live (heap s ! k) \<Longrightarrow> isOpen d = isOpen (heap s ! k) \<Longrightarrow> R s (update_db k d s)"
    and active: "R s (onDbTask complete s)"
    and known: "R s (s\<lparr>taskMap := m\<rparr>)"
begin

lemma cas: "R s (snd (cas_state tid old new s))"
  by (simp add: cas_state_def same task)

lemma cas_eq: "cas_state tid old new s = (b, s') \<Longrightarrow> R s s'"
  using cas [of s tid old new] by simp

lemma enqueue_moves: "R s (update_db k (db_schedule tid (heap s ! k)) s)"
  by (rule queue) simp_all

lemma dequeue_moves: "R s (update_db k (dequeue tid (heap s ! k)) s)"
  by (rule queue) simp_all

lemma reschedule_moves: "R s (reschedule k tid s)"
proof -
  obtain b s1 where c: "cas_state tid task_process task_created s = (b, s1)" by fastforce
  from further [OF cas_eq [OF c] enqueue_moves] cas_eq [OF c] c show ?thesis by (simp add: reschedule_def)
qed

lemma callback_moves:
  assumes "run_callback D now k tid cb s w = (r, s', w')"
  shows "R s s'"
proof -
  from callback_form [OF assms] obtain d g where "db_move (heap s ! k) d"
    "s' = update_db k d s \<or> s' = upd_task tid (\<lambda>t. t\<lparr>taskOutput := g t\<rparr>) (update_db k d s)" by blast
  then show ?thesis using calm [OF quiet_update, of k s d] further [OF _ task] by blast
qed

lemma exec_moves:
  assumes "exec_task D now k tid m s w = (r, s', w')"
  shows "R s s'"
proof -
  obtain b s1 where c: "cas_state tid task_created task_process s = (b, s1)" by fastforce
  note s1 = cas_eq [OF c]
  note requeued = further [OF reschedule_moves active]
  show ?thesis
  proof (cases "b \<and> tasks s tid \<noteq> None \<and> isOpen (heap s1 ! k)")
    case False
    with assms c active [of s] further [OF s1 active] further [OF s1 requeued] show ?thesis
      by (cases b; cases "tasks s tid") (auto simp: exec_task_def)
  next
    case True
    then obtain t where t: "tasks s tid = Some t" by blast
    obtain r2 s2 w2 where cb: "run_callback D now k tid (taskCallback t) s1 w = (r2, s2, w2)" by (metis prod_cases3)
    note s2 = further [OF s1 callback_moves [OF cb]]
    show ?thesis
      using assms c t cb True s2 further [OF s2 requeued] further [OF s2 further [OF cas active]]
        further [OF s2 further [OF task further [OF cas active]]]
      by (cases r2) (auto simp: exec_task_def Let_def split: if_splits)
  qed
qed

lemma execute_moves: "R (stor x) (stor (executeDbTasks k i m tids x))"
proof (induction tids arbitrary: i x)
  case (Cons tid tids)
  define x' where "x' = x\<lparr>stor := onDbTask False (update_db k (dequeue tid (heap (stor x) ! k)) (stor x)),
      goroutines := goroutines x @ [(k, tid, 0)]\<rparr>"
  have "R (stor x) (stor x')" using further [OF dequeue_moves active] by (simp add: x'_def)
  with further [OF this Cons.IH] show ?case by (simp add: Let_def x'_def [symmetric])
qed (simp add: same)

lemma execute_open_moves: "R (stor x) (stor (execute_open D tot qt ks x))"
proof (induction ks arbitrary: x)
  case (Cons k ks)
  from Cons.IH [of x] further [OF execute_moves Cons.IH] show ?case by (simp add: Let_def)
qed (simp add: same)

lemma start_moves: "R (stor x) (stor (start_tasks D x))"
  by (simp add: start_tasks_def Let_def execute_open_moves same)

lemma routine_moves: "R (stor x) (stor (doRoutineScheduledTasks D now x))"
proof -
  obtain s w where r: "doRoutineScheduledTasks D now x = (start_tasks D x)\<lparr>stor := s, world := w\<rparr>" "quiet (stor (start_tasks D x)) s"
    using routine_quiet [of D now x] by (elim exE conjE)
  from r(1) further [OF start_moves calm [OF r(2)]] show ?thesis by simp
qed

lemma goroutine_moves: "R (stor x) (stor (run_goroutine D now g x))"
  by (auto simp: run_goroutine_def Let_def same dest: exec_moves split: prod.splits option.splits)

lemma result_moves: "R s (snd (storage_Result tid s))"
  by (simp add: storage_Result_def same known split: option.splits)

lemma cancel_moves: "R s (snd (storage_Cancel tid s))"
proof (cases "loaded tid s")
  case (Some t)
  let ?s = "upd_task tid (\<lambda>t. t\<lparr>state := task_canceled\<rparr>) s"
  have "live (snd (db_cancel tid d)) = live d \<and> isOpen (snd (db_cancel tid d)) = isOpen d" for d
    by (simp add: db_cancel_def isOpen_def)
  then have "R ?s (update_db k (snd (db_cancel tid (heap ?s ! k))) ?s)" for k by (intro queue) simp_all
  from Some task further [OF task further [OF this known]] show ?thesis
    by (simp add: storage_Cancel_def Let_def split_beta split: option.splits)
qed (simp add: storage_Cancel_def same)

text \<open>Every step but the queries, which create tasks.\<close>

lemma event_moves:
  assumes "\<And>input now. ev \<noteq> AskEntries input now" "\<And>input now. ev \<noteq> AskTicks input now"
  shows "R (stor x) (stor (sched_step D ev x))"
proof (cases ev)
  case (FlushChunk c)
  then show ?thesis by (auto simp: same split: sum.splits intro: calm Flush_quiet)
next
  case (SizeCheck now)
  then show ?thesis by (auto simp: same split: sum.splits intro: calm size_check_quiet)
qed (use assms in \<open>simp_all add: same routine_moves goroutine_moves result_moves cancel_moves\<close>)

end

locale storage_steps = storage_moves +
  assumes new_task: "R s (s\<lparr>taskIdSeq := tid, tasks := (tasks s)(tid \<mapsto> new_task cb), taskMap := List.insert tid (taskMap s)\<rparr>)"
begin

lemma schedule_moves: "R s (snd (storage_schedule ks cb s))"
proof (induction ks arbitrary: s)
  case (Cons k ks)
  have "R s (update_db k (db_schedule tid (heap s1 ! k)) s1)"
    if "s1 = s\<lparr>taskIdSeq := tid, tasks := (tasks s)(tid \<mapsto> new_task cb), taskMap := List.insert tid (taskMap s)\<rparr>" for tid s1
    using further [OF new_task enqueue_moves] unfolding that .
  from further [OF this [OF refl] Cons.IH] show ?case by (simp add: Let_def split_beta)
qed (simp add: same)

lemma asks_moves:
  assumes "asks s s'"
  shows "R s s'"
proof -
  obtain s1 cs cb where "quiet s s1" "s' = snd (storage_schedule cs cb s1)" using assms unfolding asks_def by blast
  with further [OF calm schedule_moves] show ?thesis by blast
qed

lemma step_moves: "R (stor x) (stor (sched_step D ev x))"
proof (cases ev)
  case (AskEntries input now)
  then show ?thesis by (auto split: prod.splits dest!: entries_asks [THEN asks_moves])
next
  case (AskTicks input now)
  then show ?thesis by (auto split: prod.splits dest!: ticks_asks [THEN asks_moves])
qed (rule event_moves; simp)+

end

end
