(* ===== verification/SystemProperties.thy ===== *)
theory SystemProperties imports SystemMoves begin

text \<open>
  What can be relied on in the storage as a whole, whatever its routines, task goroutines, queries
  and flushes do and in whatever order, and where it does not do what it means to.
\<close>

subsection \<open>Any run from \<^verbatim>\<open>New\<close>\<close>

definition run_events :: "'w Driver \<Rightarrow> sched_event list \<Rightarrow> 'w sched \<Rightarrow> 'w sched" where
  "run_events D evs x = fold (sched_step D) evs x"

lemma run_events_simps [simp]:
  "run_events D [] x = x" "run_events D (ev # evs) x = run_events D evs (sched_step D ev x)"
  by (simp_all add: run_events_def)

context storage_steps begin

lemma run_moves: "R (stor x) (stor (run_events D evs x))"
proof (induction evs arbitrary: x)
  case (Cons ev evs)
  from further [OF step_moves Cons.IH] show ?case by simp
qed (simp add: same)

end

text \<open>A step creates at most one task for each database, and no database joins the list.\<close>

definition grows :: "storage \<Rightarrow> storage \<Rightarrow> bool" where
  "grows s s' = (taskIdSeq s' \<le> taskIdSeq s + int (length (dbs s)) \<and> length (dbs s') \<le> length (dbs s))"

lemma grows_refl [simp]: "grows s s"
  by (simp add: grows_def)

lemma quiet_grows: "quiet s s' \<Longrightarrow> grows s s'"
  by (simp add: quiet_def grows_def)

text \<open>Nothing but a query gives out task ids.\<close>

definition same_ids :: "storage \<Rightarrow> storage \<Rightarrow> bool" where
  "same_ids s s' = (taskIdSeq s' = taskIdSeq s \<and> length (dbs s') \<le> length (dbs s))"

interpretation ids: storage_moves same_ids
  by unfold_locales (auto simp: same_ids_def quiet_def upd_task_def onDbTask_def)

lemma same_ids_grows: "same_ids s s' \<Longrightarrow> grows s s'"
  by (simp add: same_ids_def grows_def)

lemma schedule_lists:
  "0 \<le> taskIdSeq s \<Longrightarrow> taskIdSeq s + int (length ks) < 2 ^ 31 \<Longrightarrow>
     dbs (snd (storage_schedule ks cb s)) = dbs s \<and> taskIdSeq (snd (storage_schedule ks cb s)) = taskIdSeq s + int (length ks)"
proof (induction ks arbitrary: s)
  case (Cons k ks)
  define s1 where "s1 = s\<lparr>taskIdSeq := i32 (taskIdSeq s + 1), tasks := (tasks s)(i32 (taskIdSeq s + 1) \<mapsto> new_task cb),
    taskMap := List.insert (i32 (taskIdSeq s + 1)) (taskMap s)\<rparr>"
  define s2 where "s2 = update_db k (db_schedule (i32 (taskIdSeq s + 1)) (heap s1 ! k)) s1"
  have "taskIdSeq s2 = taskIdSeq s + 1" "dbs s2 = dbs s"
    using Cons.prems by (simp_all add: s2_def s1_def i32_id)
  with Cons.IH [of s2] Cons.prems show ?case by (simp add: Let_def split_beta s2_def s1_def)
qed simp

lemma asks_grows:
  assumes "asks s s'" "0 \<le> taskIdSeq s" "taskIdSeq s + int (length (dbs s)) < 2 ^ 31"
  shows "grows s s'"
proof -
  obtain s1 cs cb where s1: "quiet s s1" "length cs \<le> length (dbs s)" "s' = snd (storage_schedule cs cb s1)"
    using assms(1) unfolding asks_def by blast
  then show ?thesis using schedule_lists [of s1 cs cb] assms(2,3) by (simp add: grows_def quiet_def)
qed

lemma step_grows:
  assumes "inv_holding n x" "taskIdSeq (stor x) + int (length (dbs (stor x))) + 1 < 2 ^ 31 - 1"
  shows "grows (stor x) (stor (sched_step D ev x))"
proof -
  consider (entries) input now where "ev = AskEntries input now" | (ticks) input now where "ev = AskTicks input now"
    | (other) "\<And>input now. ev \<noteq> AskEntries input now" "\<And>input now. ev \<noteq> AskTicks input now" by blast
  then show ?thesis
  proof cases
    case entries
    obtain r s w where e: "storage_Entries D input now (stor x) (world x) = (r, s, w)" by (metis prod_cases3)
    have "grows (stor x) s"
      using asks_grows [OF entries_asks [OF e]] assms inv_parts(4) [OF assms(1)] by simp
    with e entries show ?thesis by simp
  next
    case ticks
    obtain r s w where t: "storage_Ticks D input now (stor x) (world x) = (r, s, w)" by (metis prod_cases3)
    have "grows (stor x) s"
      using asks_grows [OF ticks_asks [OF t]] assms inv_parts(4) [OF assms(1)] by simp
    with t ticks show ?thesis by simp
  next
    case other
    then show ?thesis by (rule ids.event_moves [THEN same_ids_grows])
  qed
qed

lemma New_sound:
  assumes "New D cfg files now w = (Inr s, w')"
  shows "sched_inv \<lparr>stor = s, world = w', goroutines = []\<rparr>" "taskIdSeq s = 0"
proof -
  from assms obtain ds d os c where d: "connect D os now (last ds) w = (None, d, w')" and ne: "ds \<noteq> []"
    and closed: "\<forall>d \<in> set ds. status d = db_closed \<and> dbTasks d = [] \<and> taskCount d = 0"
    and s: "s = \<lparr>heap = ds[length ds - 1 := d\<lparr>live := True\<rparr>], dbs = [0 ..< length ds], liveDbs = [length ds - 1], sconfig = c,
          taskIdSeq = 0, tasks = Map.empty, taskMap = [], numActiveTasks = 0\<rparr>"
    by (rule New_form)
  show "taskIdSeq s = 0" by (simp add: s)
  have od: "isOpen d \<and> handle d" using connect_opens [OF d] closed ne by simp
  have e: "dbTasks d = [] \<and> taskCount d = 0"
    using connect_moves [OF d] closed ne by (auto simp: db_move_def)
  have all: "\<forall>d \<in> set (heap s). dbTasks d = [] \<and> taskCount d = 0 \<and> (isOpen d \<longrightarrow> handle d)"
    using closed od e by (auto simp: s isOpen_def dest!: set_update_subset_insert [THEN subsetD])
  have "waiting (heap s) = {#}" using all by (intro waiting_none) auto
  then have "places \<lparr>stor = s, world = w', goroutines = []\<rparr> = {#}" by (simp add: places_def started_def)
  moreover have "storage_inv s"
    using all ne by (auto simp: storage_inv_def s list_all_iff)
  moreover have "counted (heap s)" using all by (simp add: counted_def list_all_iff)
  ultimately show "sched_inv \<lparr>stor = s, world = w', goroutines = []\<rparr>"
    unfolding sched_inv_def using \<open>waiting (heap s) = {#}\<close> by (intro inv_holdingI) (simp_all add: s)
qed

lemma next_bound:
  assumes "sched_inv x" "taskIdSeq (stor x) + int (Suc (length (ev # evs)) * length (dbs (stor x))) + 1 < 2 ^ 31 - 1"
  shows "taskIdSeq (stor x) + int (length (dbs (stor x))) + 1 < 2 ^ 31 - 1"
    "taskIdSeq (stor (sched_step D ev x)) + int (Suc (length evs) * length (dbs (stor (sched_step D ev x)))) + 1 < 2 ^ 31 - 1"
proof -
  let ?x = "sched_step D ev x"
  have split: "int (Suc (length (ev # evs)) * length (dbs (stor x))) =
      int (length (dbs (stor x))) + int (Suc (length evs) * length (dbs (stor x)))"
    by (simp add: algebra_simps)
  show b: "taskIdSeq (stor x) + int (length (dbs (stor x))) + 1 < 2 ^ 31 - 1"
    using assms(2) of_nat_0_le_iff [of "Suc (length evs) * length (dbs (stor x))"] unfolding split by linarith
  note g = step_grows [OF assms(1) [unfolded sched_inv_def] b, of D ev]
  have "Suc (length evs) * length (dbs (stor ?x)) \<le> Suc (length evs) * length (dbs (stor x))"
    using g by (intro mult_left_mono) (simp_all add: grows_def)
  then have "taskIdSeq (stor ?x) + int (Suc (length evs) * length (dbs (stor ?x)))
      \<le> taskIdSeq (stor x) + int (length (dbs (stor x))) + int (Suc (length evs) * length (dbs (stor x)))"
    using g unfolding grows_def by linarith
  with assms(2) show "taskIdSeq (stor ?x) + int (Suc (length evs) * length (dbs (stor ?x))) + 1 < 2 ^ 31 - 1"
    unfolding split by linarith
qed

lemma run_sound:
  "sched_inv x \<Longrightarrow> taskIdSeq (stor x) + int (Suc (length evs) * length (dbs (stor x))) + 1 < 2 ^ 31 - 1 \<Longrightarrow>
     sched_inv (run_events D evs x)"
proof (induction evs arbitrary: x)
  case (Cons ev evs)
  note n = next_bound [OF Cons.prems]
  from Cons.IH [OF step_keeps [OF Cons.prems(1) n(1)] n(2)] show ?case by simp
qed simp

text \<open>
  C10 (invariant). From \<^verbatim>\<open>New\<close>, after any routines, task goroutines, queries, results, cancellations, flushes
  and maintenance in any order: an open database has its handle and there is a live one; the count of
  running tasks is the number of goroutines, and the count of a database the length of its queue;
  every task is in at most one queue or goroutine, in the state that fits the place.
\<close>

theorem storage_stays_sound:
  assumes "New D cfg files now w = (Inr s, w')" "Suc (length evs) * length (dbs s) < 2 ^ 31 - 2"
  shows "sched_inv (run_events D evs \<lparr>stor = s, world = w', goroutines = []\<rparr>)"
proof (rule run_sound)
  show "sched_inv \<lparr>stor = s, world = w', goroutines = []\<rparr>" by (rule New_sound(1) [OF assms(1)])
  have "int (Suc (length evs) * length (dbs s)) < int (2 ^ 31 - 2)" using assms(2) by (simp only: of_nat_less_iff)
  then show "taskIdSeq (stor \<lparr>stor = s, world = w', goroutines = []\<rparr>) +
      int (Suc (length evs) * length (dbs (stor \<lparr>stor = s, world = w', goroutines = []\<rparr>))) + 1 < 2 ^ 31 - 1"
    using New_sound(2) [OF assms(1)] by simp
qed

lemma New_quiet_dbs: "New quietDriver zeroConfig [] 7 () = (Inr s, w') \<Longrightarrow> length (dbs s) = 1"
  by (auto simp: New_def initDbs_def Let_def quiet_connect newDb_def map_filter_simps)

theorem storage_stays_sound_witness:
  "\<exists>s. New quietDriver zeroConfig [] 7 () = (Inr s, ()) \<and>
     sched_inv (run_events quietDriver [AskTicks ticksIn 8, Routine 9, Exec 0 9, AskCancel 1] \<lparr>stor = s, world = (), goroutines = []\<rparr>)"
proof -
  obtain s where s: "New quietDriver zeroConfig [] 7 () = (Inr s, ())" using New_quiet by blast
  with storage_stays_sound [OF s, of "[AskTicks ticksIn 8, Routine 9, Exec 0 9, AskCancel 1]"] New_quiet_dbs [OF s]
  show ?thesis by auto
qed

subsection \<open>The live database\<close>

definition stays :: "storageDb list \<Rightarrow> storageDb list \<Rightarrow> bool" where
  "stays hs hs' = (length hs \<le> length hs' \<and>
     (\<forall>k < length hs. live (hs ! k) \<and> isOpen (hs ! k) \<longrightarrow> live (hs' ! k) \<and> isOpen (hs' ! k)))"

lemma stays_refl [simp]: "stays hs hs"
  by (simp add: stays_def)

lemma stays_trans: "stays a b \<Longrightarrow> stays b c \<Longrightarrow> stays a c"
  by (auto simp: stays_def)

lemma quiet_stays: "quiet s s' \<Longrightarrow> stays (heap s) (heap s')"
  by (auto simp: quiet_def heap_moves_def db_move_def stays_def)

lemma stays_update: "live d = live (heap s ! k) \<Longrightarrow> isOpen d = isOpen (heap s ! k) \<Longrightarrow> stays (heap s) (heap (update_db k d s))"
  by (auto simp: stays_def nth_update_db)

interpretation opened: storage_steps "\<lambda>s s'. stays (heap s) (heap s')"
  by unfold_locales (auto simp: upd_task_def onDbTask_def quiet_stays stays_update elim: stays_trans)

text \<open>
  The live database is never closed while the storage runs: not by the routine that
  closes idle databases, not by the limit on open ones, not by the size check.
\<close>

theorem live_db_stays_open:
  assumes "k < length (heap (stor x))" "live (heap (stor x) ! k)" "isOpen (heap (stor x) ! k)"
  shows "live (heap (stor (run_events D evs x)) ! k) \<and> isOpen (heap (stor (run_events D evs x)) ! k)"
  using opened.run_moves [of x D evs] assms by (simp add: stays_def)

definition liveAndIdle :: "unit sched" where
  "liveAndIdle = \<lparr>stor = storageOf [openDb 1, (openDb 5)\<lparr>live := True\<rparr>], world = (), goroutines = []\<rparr>"

theorem live_db_stays_open_witness:
  "isOpen (heap (stor (run_events quietDriver [Routine 1000, SizeCheck (at_sec 2000)] liveAndIdle)) ! 1)"
  using live_db_stays_open [of 1 liveAndIdle quietDriver "[Routine 1000, SizeCheck (at_sec 2000)]"]
  by (simp add: liveAndIdle_def storageOf_def openDb_def isOpen_def)

subsection \<open>The life of a task\<close>

definition may_become :: "task_state \<Rightarrow> task_state \<Rightarrow> bool" where
  "may_become old new = (old = new \<or> old = task_created \<or> new = task_canceled)"

text \<open>What a step that is not a cancellation may do to the task \<open>i\<close>.\<close>

definition advances :: "int \<Rightarrow> storage \<Rightarrow> storage \<Rightarrow> bool" where
  "advances i s s' =
     (\<forall>t. tasks s i = Some t \<longrightarrow>
        (\<exists>t'. tasks s' i = Some t' \<and> (state t \<noteq> task_created \<longrightarrow> t' = t) \<and> (state t = task_created \<longrightarrow> state t' \<noteq> task_canceled)) \<and>
        (state t = task_created \<or> state t = task_process \<longrightarrow> i \<in> set (taskMap s) \<longrightarrow> i \<in> set (taskMap s')))"

lemma advances_same: "tasks s' i = tasks s i \<Longrightarrow> set (taskMap s) \<subseteq> set (taskMap s') \<Longrightarrow> advances i s s'"
  by (auto simp: advances_def)

lemma quiet_tasks: "quiet s s' \<Longrightarrow> tasks s' = tasks s \<and> taskMap s' = taskMap s"
  by (simp add: quiet_def)

lemma quiet_advances: "quiet s s' \<Longrightarrow> advances i s s'"
  by (simp add: advances_same quiet_tasks)

lemma advances_refl [simp]: "advances i s s"
  by (simp add: advances_same)

lemma execute_tasks:
  "tasks (stor (executeDbTasks k i m tids x)) = tasks (stor x) \<and> taskMap (stor (executeDbTasks k i m tids x)) = taskMap (stor x)"
  by (induction k i m tids x rule: executeDbTasks.induct) (simp_all add: Let_def onDbTask_def)

lemma execute_open_tasks:
  "tasks (stor (execute_open D tot qt ks x)) = tasks (stor x) \<and> taskMap (stor (execute_open D tot qt ks x)) = taskMap (stor x)"
  by (induction tot qt ks x rule: execute_open.induct) (simp_all add: Let_def execute_tasks)

lemma schedule_tasks:
  "0 \<le> taskIdSeq s \<Longrightarrow> taskIdSeq s + int (length ks) < 2 ^ 31 \<Longrightarrow> i \<le> taskIdSeq s \<Longrightarrow>
     tasks (snd (storage_schedule ks cb s)) i = tasks s i \<and> set (taskMap s) \<subseteq> set (taskMap (snd (storage_schedule ks cb s)))"
proof (induction ks arbitrary: s)
  case (Cons k ks)
  define s1 where "s1 = s\<lparr>taskIdSeq := taskIdSeq s + 1, tasks := (tasks s)(taskIdSeq s + 1 \<mapsto> new_task cb),
    taskMap := List.insert (taskIdSeq s + 1) (taskMap s)\<rparr>"
  define s2 where "s2 = update_db k (db_schedule (taskIdSeq s + 1) (heap s1 ! k)) s1"
  have "i32 (taskIdSeq s + 1) = taskIdSeq s + 1" using Cons.prems by (intro i32_id) simp_all
  then have r: "snd (storage_schedule (k # ks) cb s) = snd (storage_schedule ks cb s2)"
    by (simp add: Let_def split_beta s2_def s1_def)
  have f: "taskIdSeq s2 = taskIdSeq s + 1" "tasks s2 i = tasks s i" "set (taskMap s) \<subseteq> set (taskMap s2)"
    using Cons.prems by (auto simp: s2_def s1_def)
  from Cons.IH [of s2] Cons.prems f show ?case unfolding r by auto
qed simp

lemma asks_advances:
  assumes "asks s s'" "0 \<le> taskIdSeq s" "taskIdSeq s + int (length (dbs s)) < 2 ^ 31" "i \<le> taskIdSeq s"
  shows "advances i s s'"
proof -
  obtain s1 cs cb where s1: "quiet s s1" "length cs \<le> length (dbs s)" "s' = snd (storage_schedule cs cb s1)"
    using assms(1) unfolding asks_def by blast
  then show ?thesis using schedule_tasks [of s1 cs i cb] assms(2-4) by (intro advances_same) (simp_all add: quiet_def)
qed

lemma tasks_simps [simp]:
  "tasks (onDbTask b s) = tasks s" "taskMap (onDbTask b s) = taskMap s" "taskMap (upd_task tid f s) = taskMap s"
  "tasks (upd_task tid f s) i = (if i = tid then map_option f (tasks s tid) else tasks s i)"
  "taskMap (snd (cas_state tid old new s)) = taskMap s" "taskMap (reschedule k tid s) = taskMap s"
  by (simp_all add: onDbTask_def upd_task_def cas_state_def reschedule_def)

text \<open>\<open>exec\<close> changes its own task only, and only one that is created.\<close>

lemma cas_other: "i \<noteq> tid \<Longrightarrow> tasks (snd (cas_state tid old new s)) i = tasks s i"
  by (simp add: cas_state_def)

lemma cas_own: "tasks s tid = Some t \<Longrightarrow> \<exists>t'. tasks (snd (cas_state tid old new s)) tid = Some t' \<and> (state t' = state t \<or> state t' = new)"
  by (simp add: cas_state_def)

lemma reschedule_task: "tasks (reschedule k tid s) = tasks (snd (cas_state tid task_process task_created s))"
  by (simp add: reschedule_def split_beta cas_state_def)

lemma exec_advances:
  assumes "exec_task D now k tid m s w = (r, s', w')"
  shows "advances i s s'"
proof (cases "\<exists>t. tasks s tid = Some t \<and> state t = task_created")
  case False
  then have "s' = onDbTask True s"
    using assms by (cases "tasks s tid") (auto simp: exec_task_def cas_state_def)
  then show ?thesis by (simp add: advances_same)
next
  case True
  then obtain t where t: "tasks s tid = Some t" "state t = task_created" by blast
  let ?s1 = "upd_task tid (\<lambda>t. t\<lparr>state := task_process\<rparr>) s"
  have c: "cas_state tid task_created task_process s = (True, ?s1)" by (simp add: cas_state_def t)
  have t1: "tasks ?s1 tid = Some (t\<lparr>state := task_process\<rparr>)" by (simp add: t)
  obtain r2 s2 w2 where cb: "run_callback D now k tid (taskCallback t) ?s1 w = (r2, s2, w2)" by (metis prod_cases3)
  obtain d g where f: "s2 = update_db k d ?s1 \<or> s2 = upd_task tid (\<lambda>t. t\<lparr>taskOutput := g t\<rparr>) (update_db k d ?s1)"
    using callback_form [OF cb] by blast
  have t2: "\<exists>t2. tasks s2 tid = Some t2 \<and> state t2 = task_process" using f t1 by auto
  have o2: "j \<noteq> tid \<Longrightarrow> tasks s2 j = tasks s j" for j using f by auto
  have m2: "taskMap s2 = taskMap s" using f by auto
  have good: "tasks s' j = tasks s j" if "j \<noteq> tid" for j
    using assms o2 that by (auto simp: exec_task_def c t cb Let_def reschedule_task cas_other split: if_splits option.splits)
  have own: "\<exists>t'. tasks s' tid = Some t' \<and> state t' \<noteq> task_canceled"
  proof -
    have "\<exists>t'. tasks (snd (cas_state tid old new s3)) tid = Some t' \<and> state t' \<noteq> task_canceled"
      if "\<exists>t3. tasks s3 tid = Some t3 \<and> state t3 = task_process" "new \<noteq> task_canceled" for old new s3
      using that cas_own [of s3 tid _ old new] by fastforce
    with assms t1 t2 show ?thesis
      by (auto simp: exec_task_def c t cb Let_def reschedule_task split: if_splits option.splits)
  qed
  have map: "taskMap s' = taskMap s"
    using assms m2 by (auto simp: exec_task_def c t cb Let_def split: if_splits option.splits)
  show ?thesis
  proof (cases "i = tid")
    case True
    with own t map show ?thesis by (auto simp: advances_def)
  next
    case False
    with good map show ?thesis by (simp add: advances_same)
  qed
qed

lemma step_advances:
  assumes I: "inv_holding n x" and b: "taskIdSeq (stor x) + int (length (dbs (stor x))) + 1 < 2 ^ 31 - 1" and ev: "ev \<noteq> AskCancel i"
  shows "advances i (stor x) (stor (sched_step D ev x))"
proof (cases "tasks (stor x) i")
  case (Some t)
  have seq: "0 \<le> taskIdSeq (stor x)" "i \<le> taskIdSeq (stor x)"
    using inv_parts(4) [OF I] inv_parts(9) [OF I, of i t] Some by simp_all
  show ?thesis
  proof (cases ev)
    case (Routine now)
    obtain s w where r: "doRoutineScheduledTasks D now x = (start_tasks D x)\<lparr>stor := s, world := w\<rparr>" "quiet (stor (start_tasks D x)) s"
      using routine_quiet [of D now x] by (elim exE conjE)
    have "tasks (stor (start_tasks D x)) = tasks (stor x) \<and> taskMap (stor (start_tasks D x)) = taskMap (stor x)"
      by (simp add: start_tasks_def Let_def execute_open_tasks)
    with r(1) quiet_tasks [OF r(2)] Routine show ?thesis by (intro advances_same) simp_all
  next
    case (Exec g now)
    then show ?thesis
      by (auto simp: run_goroutine_def Let_def intro: advances_same dest: exec_advances split: prod.splits option.splits)
  next
    case (AskEntries input now)
    obtain r s w where e: "storage_Entries D input now (stor x) (world x) = (r, s, w)" by (metis prod_cases3)
    with asks_advances [OF entries_asks [OF e]] seq b AskEntries show ?thesis by simp
  next
    case (AskTicks input now)
    obtain r s w where e: "storage_Ticks D input now (stor x) (world x) = (r, s, w)" by (metis prod_cases3)
    with asks_advances [OF ticks_asks [OF e]] seq b AskTicks show ?thesis by simp
  next
    case (AskResult tid)
    then show ?thesis by (auto simp: storage_Result_def advances_def loaded_def split: option.splits if_splits)
  next
    case (AskCancel tid)
    then have "tasks (stor (sched_step D ev x)) i = tasks (stor x) i"
      using ev by (auto simp: storage_Cancel_def Let_def split: option.splits prod.splits)
    moreover have "taskDb t = None" if "loaded tid (stor x) = Some t" for t
      using that inv_parts(9) [OF I, of tid t] by (auto simp: loaded_def split: if_splits)
    then have "set (taskMap (stor x)) \<subseteq> set (taskMap (stor (sched_step D ev x)))"
      using AskCancel by (cases "loaded tid (stor x)") (auto simp: storage_Cancel_def Let_def)
    ultimately show ?thesis by (rule advances_same)
  next
    case (FlushChunk c)
    then show ?thesis by (auto intro: quiet_advances Flush_quiet split: sum.splits)
  next
    case (SizeCheck now)
    then show ?thesis by (auto intro: quiet_advances size_check_quiet split: sum.splits)
  next
    case WalCheckpoint
    then show ?thesis by (simp add: advances_same)
  qed
qed (simp add: advances_def)

text \<open>
  The states of a task only move forward: from created to in process, finished or back
  in a queue; a task in process or finished changes only by a cancellation, and a canceled one never.
\<close>

theorem task_states_move_forward:
  assumes "sched_inv x" "taskIdSeq (stor x) + int (length (dbs (stor x))) + 1 < 2 ^ 31 - 1" "tasks (stor x) tid = Some t"
  shows "\<exists>t'. tasks (stor (sched_step D ev x)) tid = Some t' \<and> may_become (state t) (state t') \<and>
    (state t \<noteq> task_canceled \<and> state t' = task_canceled \<longrightarrow> ev = AskCancel tid)"
proof (cases "ev = AskCancel tid")
  case False
  from step_advances [OF assms(1) [unfolded sched_inv_def] assms(2) this, of D] assms(3) show ?thesis
    by (cases "state t = task_created") (auto simp: advances_def may_become_def)
next
  case True
  have "taskDb t = None" using inv_parts(9) [of 0 x tid t] assms(1,3) by (simp add: sched_inv_def)
  then show ?thesis using True assms(3)
    by (auto simp: storage_Cancel_def loaded_def may_become_def Let_def split: option.splits)
qed

definition queuedTask :: dbTask where
  "queuedTask = new_task (ListEntries ''q'' [])"

text \<open>One open database, and a goroutine that is about to run the task 1.\<close>

definition aboutToRun :: "'w \<Rightarrow> 'w sched" where
  "aboutToRun w =
     \<lparr>stor = (storageOf [openDb 1])\<lparr>taskIdSeq := 1, tasks := [1 \<mapsto> queuedTask], taskMap := [1], numActiveTasks := 1\<rparr>,
      world = w, goroutines = [(0, 1, 0)]\<rparr>"

lemma aboutToRun_sound: "sched_inv (aboutToRun w)"
  unfolding sched_inv_def
proof (rule inv_holdingI)
  have p: "places (aboutToRun w) = {#1#}" "waiting (heap (stor (aboutToRun w))) = {#}"
    by (simp_all add: places_def aboutToRun_def storageOf_def openDb_def newDb_def)
  show "count (places (aboutToRun w)) i \<le> 1" "set_mset (places (aboutToRun w)) \<subseteq> {1 .. taskIdSeq (stor (aboutToRun w))}" for i
    unfolding p by (simp_all add: aboutToRun_def)
  show "fresh_task (stor (aboutToRun w)) i" if "i \<in># waiting (heap (stor (aboutToRun w)))" for i using that by (simp add: p)
qed (auto simp: aboutToRun_def storageOf_def storage_inv_def openDb_def newDb_def isOpen_def counted_def queuedTask_def new_task_def
    goroutine_ok_def fresh_task_def tstate_def split: if_splits)

theorem task_states_move_forward_witness:
  "\<exists>t'. tasks (stor (sched_step quietDriver (Exec 0 9) (aboutToRun ()))) 1 = Some t' \<and> may_become task_created (state t') \<and>
    state t' \<noteq> task_canceled"
  using task_states_move_forward [where x = "aboutToRun ()" and tid = 1 and t = queuedTask and D = quietDriver and ev = "Exec 0 9"] aboutToRun_sound [of "()"]
  by (auto simp: aboutToRun_def storageOf_def queuedTask_def new_task_def)

lemma exec_answers:
  assumes "goroutines x = (k, tid, 0) # gs" "tasks (stor x) tid = Some t" "state t = task_created" "tid \<in> set (taskMap (stor x))"
    and "taskCallback t = ListEntries q as" "askable (stor x) k" "answers D q as R"
  shows "\<exists>out s'. storage_Result tid (stor (sched_step D (Exec 0 now) x)) = (Some out, s') \<and>
    Entries out = R (filePath (heap (stor x) ! k)) \<and> OutError out = OutError (taskOutput t) \<and> storage_Result tid s' = (None, s')"
proof -
  let ?s1 = "upd_task tid (\<lambda>t. t\<lparr>state := task_process\<rparr>) (stor x)"
  have h: "isOpen (heap ?s1 ! k)" "handle (heap ?s1 ! k)" using assms(6) by (simp_all add: askable_def)
  obtain w' where l: "listEntries D now q as (heap (stor x) ! k) (world x)
      = (Inr (R (filePath (heap (stor x) ! k))), (heap (stor x) ! k)\<lparr>lastQueryEpoch := now\<rparr>, w')"
    using listEntries_answer [OF assms(7)] h(2) by fastforce
  have c: "cas_state tid task_created task_process (stor x) = (True, ?s1)" using assms(2,3) by (simp add: cas_state_def)
  let ?s2 = "upd_task tid (\<lambda>t. t\<lparr>taskOutput := (taskOutput t)\<lparr>Entries := R (filePath (heap (stor x) ! k))\<rparr>\<rparr>)
      (update_db k ((heap (stor x) ! k)\<lparr>lastQueryEpoch := now\<rparr>) ?s1)"
  have f: "cas_state tid task_process task_finished ?s2 = (True, upd_task tid (\<lambda>t. t\<lparr>state := task_finished\<rparr>) ?s2)"
    using assms(2) by (simp add: cas_state_def)
  have "stor (sched_step D (Exec 0 now) x) = onDbTask True (upd_task tid (\<lambda>t. t\<lparr>state := task_finished\<rparr>) ?s2)"
    using assms(1,2,5) h l by (simp add: run_goroutine_def exec_task_def c run_callback_def f Let_def)
  then show ?thesis using assms(2,4) by (auto simp: storage_Result_def loaded_def)
qed

text \<open>
  C18 (functional). A task whose query succeeds on its open database is finished in one go; its result is
  handed out once, with the rows, and is then forgotten.
\<close>

theorem finished_task_answers:
  assumes "goroutines x = (k, tid, 0) # gs" "tasks (stor x) tid = Some t" "state t = task_created" "tid \<in> set (taskMap (stor x))"
    and "taskCallback t = ListEntries q as" "askable (stor x) k" "answers D q as R"
  shows "\<exists>out s'. storage_Result tid (stor (sched_step D (Exec 0 now) x)) = (Some out, s') \<and>
    Entries out = R (filePath (heap (stor x) ! k)) \<and> OutError out = OutError (taskOutput t) \<and> storage_Result tid s' = (None, s')"
  using assms by (rule exec_answers)

theorem finished_task_answers_witness:
  "\<exists>out s'. storage_Result 1 (stor (sched_step (rowDriver (\<lambda>p. [(8, 0, 4, p)])) (Exec 0 9) (aboutToRun ()))) = (Some out, s') \<and>
    Entries out = [(8, 0, 4, filePath (openDb 1))] \<and> storage_Result 1 s' = (None, s')"
  using finished_task_answers [of "aboutToRun ()" 0 1 "[]" queuedTask "''q''" "[]", OF _ _ _ _ _ _ rowDriver_answers, of "\<lambda>p. [(8, 0, 4, p)]" 9]
  by (auto simp: aboutToRun_def storageOf_def queuedTask_def new_task_def askable_def openDb_def isOpen_def zeroOutput_def)

text \<open>
  A task whose query fails on its open database never ends: the retry that is started finds
  it in process and gives up, so whatever happens later, short of a cancellation, the result is
  reported as still scheduled, and the error is not.
\<close>

theorem failed_task_never_ends:
  assumes "sched_inv x" "taskIdSeq (stor x) + int (Suc (Suc (length evs)) * length (dbs (stor x))) + 1 < 2 ^ 31 - 1"
    and "goroutines x = (k, tid, 0) # gs" "tasks (stor x) tid = Some t" "state t = task_created" "tid \<in> set (taskMap (stor x))"
    and "taskCallback t = ListEntries q as" "isOpen (heap (stor x) ! k)"
    and "fst (QuerySql D (filePath (heap (stor x) ! k)) q as (world x)) = Inl err" "AskCancel tid \<notin> set evs"
  shows "fst (storage_Result tid (stor (run_events D (Exec 0 now # evs) x))) = Some (zeroOutput\<lparr>Scheduled := True, TaskIds := [tid]\<rparr>)"
proof -
  let ?s1 = "upd_task tid (\<lambda>t. t\<lparr>state := task_process\<rparr>) (stor x)"
  let ?x = "sched_step D (Exec 0 now) x"
  have k: "k < length (heap (stor x))" using inv_parts(8) [of 0 x] assms(1,3) by (simp add: sched_inv_def goroutine_ok_def)
  have h: "handle (heap (stor x) ! k)"
    using storage_inv_nth [OF _ k assms(8)] inv_parts(1) [of 0 x] assms(1) by (simp add: sched_inv_def)
  have c: "cas_state tid task_created task_process (stor x) = (True, ?s1)" using assms(4,5) by (simp add: cas_state_def)
  obtain w' where l: "listEntries D now q as (heap (stor x) ! k) (world x) = (Inl err, heap (stor x) ! k, w')"
    using assms(9) h by (cases "QuerySql D (filePath (heap (stor x) ! k)) q as (world x)") (simp add: listEntries_def list_rows_def db_query_def)
  have "stor ?x = update_db k (heap (stor x) ! k) ?s1"
    using assms(3,4,7,8) l k by (simp add: run_goroutine_def exec_task_def c run_callback_def Let_def nth_update_db)
  then have start: "map_option state (tasks (stor ?x) tid) = Some task_process \<and> tid \<in> set (taskMap (stor ?x))"
    using assms(4,6) by simp
  have b: "taskIdSeq (stor x) + int (length (dbs (stor x))) + 1 < 2 ^ 31 - 1"
    using next_bound(1) [OF assms(1), of "Exec 0 now" evs] assms(2) by simp
  have inv: "sched_inv ?x" by (rule step_keeps [OF assms(1) b])
  have stuck: "map_option state (tasks (stor (run_events D evs y)) tid) = Some task_process \<and> tid \<in> set (taskMap (stor (run_events D evs y)))"
    if "sched_inv y" "taskIdSeq (stor y) + int (Suc (length evs) * length (dbs (stor y))) + 1 < 2 ^ 31 - 1" "AskCancel tid \<notin> set evs"
      "map_option state (tasks (stor y) tid) = Some task_process \<and> tid \<in> set (taskMap (stor y))" for evs y
    using that
  proof (induction evs arbitrary: y)
    case (Cons ev evs)
    note n = next_bound [OF Cons.prems(1,2)]
    have "advances tid (stor y) (stor (sched_step D ev y))" using Cons.prems(3) by (intro step_advances [OF Cons.prems(1) [unfolded sched_inv_def] n(1)]) auto
    then have "map_option state (tasks (stor (sched_step D ev y)) tid) = Some task_process \<and> tid \<in> set (taskMap (stor (sched_step D ev y)))"
      using Cons.prems(4) by (auto simp: advances_def)
    with Cons.IH [OF step_keeps [OF Cons.prems(1) n(1)] n(2)] Cons.prems(3) show ?case by simp
  qed simp
  have "taskIdSeq (stor ?x) + int (Suc (length evs) * length (dbs (stor ?x))) + 1 < 2 ^ 31 - 1"
    using next_bound(2) [OF assms(1), of "Exec 0 now" evs D] assms(2) by simp
  from stuck [OF inv this assms(10) start] show ?thesis by (auto simp: storage_Result_def loaded_def)
qed

definition lockedDriver :: "unit Driver" where
  "lockedDriver = quietDriver\<lparr>QuerySql := (\<lambda>p q vs w. (Inl ''database is locked'', w))\<rparr>"

theorem failed_task_never_ends_witness:
  "fst (storage_Result 1 (stor (run_events lockedDriver (Exec 0 9 # [Exec 0 10, Routine 11]) (aboutToRun ()))))
     = Some (zeroOutput\<lparr>Scheduled := True, TaskIds := [1]\<rparr>)"
  by (rule failed_task_never_ends [OF aboutToRun_sound, where k = 0 and gs = "[]" and t = queuedTask and q = "''q''" and as = "[]"
        and err = "''database is locked''"])
    (simp_all add: aboutToRun_def storageOf_def queuedTask_def new_task_def openDb_def newDb_def isOpen_def lockedDriver_def)

text \<open>
  \<^verbatim>\<open>Cancel\<close> of any known task panics, since no task ever has its database set; the task is
  marked as canceled before that, so its result is an empty output without an error.
\<close>

theorem cancel_panics:
  assumes "sched_inv x" "tid \<in> set (taskMap (stor x))"
  shows "\<exists>t. tasks (stor x) tid = Some t \<and> fst (storage_Cancel tid (stor x)) = Inl NilDereference \<and>
    fst (storage_Result tid (snd (storage_Cancel tid (stor x)))) = Some (taskOutput t)"
proof -
  obtain t where t: "tasks (stor x) tid = Some t"
    using assms inv_parts(10) [of 0 x] by (auto simp: sched_inv_def)
  then have "taskDb t = None" using inv_parts(9) [of 0 x tid t] assms(1) by (simp add: sched_inv_def)
  with t assms(2) show ?thesis by (simp add: storage_Cancel_def storage_Result_def loaded_def Let_def)
qed

theorem cancel_panics_witness:
  "fst (storage_Cancel 1 (stor (aboutToRun ()))) = Inl NilDereference"
  using cancel_panics [OF aboutToRun_sound, of 1] by (simp add: aboutToRun_def)

subsection \<open>Limits\<close>

text \<open>Three closed databases with a task each, and room for one open database.\<close>

definition threeClosed :: "unit sched" where
  "threeClosed =
     (let d = \<lambda>i. (newDb ''logs'' ''demo'' i 3600)\<lparr>taskCount := 1, dbTasks := [i]\<rparr>
      in \<lparr>stor = (storageOf [d 1, d 2, d 3])\<lparr>sconfig := zeroConfig\<lparr>MaxOpenedDB := 1, MaxRunningTasks := 5, CloseIdleSec := 10\<rparr>,
            taskIdSeq := 3, tasks := (\<lambda>i. if i \<in> {1, 2, 3} then Some queuedTask else None), taskMap := [1, 2, 3]\<rparr>,
          world = (), goroutines = []\<rparr>)"

lemma closed_again: "status d = db_closed \<Longrightarrow> 2 \<le> lastQuerySec now d \<Longrightarrow> closeSafe D now d w = (True, d, w)"
  by (simp add: closeSafe_def db_close_def)

text \<open>
  The limit on open databases does not hold: \<^verbatim>\<open>close\<close> reports success for a database that was
  closed already, so the routine counts every closed idle database down and then opens all it likes.
\<close>

theorem open_limit_exceeded:
  "MaxOpenedDB (sconfig (stor threeClosed)) = 1 \<and>
   length (filter isOpen (heap (stor (sched_step quietDriver (Routine 1000) threeClosed)))) = 3"
proof -
  have i: "i64 1000 = 1000" "i32 (- 1) = - 1" "i32 (- 2) = - 2" "i32 (- 3) = - 3" "i32 1 = 1" "i32 2 = 2" "i32 3 = 3" "i32 5 = 5" "i32 0 = 0"
    by (simp_all add: i64_id i32_id)
  show ?thesis
    by (simp add: threeClosed_def Let_def storageOf_def doRoutineScheduledTasks_def start_tasks_def ntasks_def isOpen_def newDb_def
        close_idle_def close_one_def closed_again lastQuerySec_def i zeroConfig_def fewest_tasks_def SliceStable_def
        quiet_connect sort_lists_def update_db_def upt_rec)
qed

lemma sizes_dbs: "dbs (fst (update_sizes D now ks s w)) = dbs s"
  by (induction D now ks s w rule: update_sizes.induct) (simp_all split: prod.splits)

lemma archive_dbs: "dbs (fst (archive_live D now s w)) = dbs s"
  by (simp add: archive_live_def Let_def split: prod.splits option.splits)

lemma sorted_first:
  assumes "k \<in> set (dbs s)" "dbEnd (heap s ! k) > 0"
    and "\<And>j. j \<in> set (dbs s) \<Longrightarrow> j \<noteq> k \<Longrightarrow> dbEnd (heap s ! j) < dbEnd (heap s ! k)"
  shows "hd (dbs (sort_lists s)) = k" "dbs (sort_lists s) \<noteq> []"
proof -
  let ?lt = "\<lambda>i j. before_db (heap s ! i) (heap s ! j)"
  have s: "sorted_wrt (\<lambda>a b. \<not> ?lt b a) (SliceStable ?lt (dbs s))"
    by (rule sorted_SliceStable; use before_db_asym before_db_trans in blast)
  have d: "dbs (sort_lists s) = SliceStable ?lt (dbs s)" by (simp add: sort_lists_def Let_def)
  have k: "k \<in> set (SliceStable ?lt (dbs s))" using assms(1) by simp
  show ne: "dbs (sort_lists s) \<noteq> []"
  proof
    assume "dbs (sort_lists s) = []"
    then have "length (dbs s) = 0" unfolding d by (metis length_SliceStable list.size(3))
    with assms(1) show False by simp
  qed
  then obtain j js where j: "SliceStable ?lt (dbs s) = j # js" unfolding d by (cases "SliceStable ?lt (dbs s)") auto
  have "j = k"
  proof (rule ccontr)
    assume "j \<noteq> k"
    have "j \<in> set (SliceStable ?lt (dbs s))" unfolding j by simp
    then have "dbEnd (heap s ! j) < dbEnd (heap s ! k)" using assms(3) \<open>j \<noteq> k\<close> by simp
    then have "?lt k j" using assms(2) by (auto simp: before_db_def)
    moreover have "\<not> ?lt k j" using s k \<open>j \<noteq> k\<close> unfolding j by auto
    ultimately show False by blast
  qed
  then show "hd (dbs (sort_lists s)) = k" unfolding d j by simp
qed

text \<open>
  The cap on the total size is not kept: sorting puts the database with the newest entries
  first, where the size check looks for the oldest. When that is the live one, no database is
  removed, however large they are together.
\<close>

theorem retention_blocked:
  assumes "k \<in> set (dbs s)" "k < length (heap s)" "live (heap s ! k)" "dbEnd (heap s ! k) > 0"
    and "\<And>j. j \<in> set (dbs s) \<Longrightarrow> j \<noteq> k \<Longrightarrow> dbEnd (heap s ! j) < dbEnd (heap s ! k)"
    and "size_check D now (sort_lists s) w = Inr (s', w')"
  shows "dbs s' = dbs (sort_lists s)"
proof -
  obtain s1 w1 where a: "archive_live D now (sort_lists s) w = (s1, w1)" by fastforce
  obtain s2 w2 where u: "update_sizes D (unixSec now) (liveDbs s1) s1 w1 = (s2, w2)" by fastforce
  have d: "dbs s2 = dbs (sort_lists s)" using sizes_dbs [of D "unixSec now" "liveDbs s1" s1 w1] archive_dbs [of D now "sort_lists s" w] a u by simp
  obtain ks where ks: "dbs s2 = k # ks"
    using sorted_first [OF assms(1,4,5)] unfolding d by (cases "dbs (sort_lists s)") auto
  have "quiet (sort_lists s) s2"
    using archive_quiet [of "sort_lists s" D now w] update_sizes_quiet [of s1 D "unixSec now" "liveDbs s1" w1] a u by (auto intro: quiet_trans)
  then have "live (heap s2 ! k)" using assms(2,3) by (auto simp: quiet_def heap_moves_def db_move_def sort_lists_def Let_def)
  with assms(6) a u ks d show ?thesis by (auto simp: size_check_def split: if_splits)
qed

definition oversized :: storage where
  "oversized = storageOf [(openDb 1)\<lparr>dbSize := 5000000000\<rparr>, (openDb 5)\<lparr>live := True, dbEnd := 9\<rparr>]"

theorem retention_blocked_witness:
  "case size_check quietDriver (at_sec 100) (sort_lists oversized) () of Inl p \<Rightarrow> True | Inr (s', w') \<Rightarrow> dbs s' = [1, 0]"
proof -
  have s: "dbs (sort_lists oversized) = [1, 0]"
    by (simp add: oversized_def storageOf_def sort_lists_def Let_def SliceStable_def before_db_def openDb_def newDb_def upt_rec)
  have "dbs s' = dbs (sort_lists oversized)" if "size_check quietDriver (at_sec 100) (sort_lists oversized) () = Inr (s', w')" for s' w'
    using that by (intro retention_blocked [where k = 1])
      (auto simp: oversized_def storageOf_def openDb_def newDb_def upt_rec)
  with s show ?thesis by (auto split: sum.splits)
qed

end
