(* ===== verification/SystemLiveness.thy ===== *)
theory SystemLiveness imports SystemProperties begin

text \<open>
  A query that meets a closed database is answered later: the routine of \<^verbatim>\<open>sqlite/storage_scheduler.go\<close> opens the
  database, its next turn starts the task, and the goroutine leaves the rows for \<^verbatim>\<open>Result\<close>.
\<close>

subsection \<open>What the routine does to one database\<close>

text \<open>A database that the routine cannot close: it is closed already, or has been used within two seconds.\<close>

definition unclosable :: "int \<Rightarrow> storageDb \<Rightarrow> bool" where
  "unclosable now d = (status d = db_closed \<or> lastQuerySec now d < 2)"

lemma closeSafe_unclosable: "unclosable now d \<Longrightarrow> fst (snd (closeSafe D now d w)) = d"
  by (auto simp: unclosable_def closeSafe_def db_close_def)

text \<open>The databases \<open>K\<close> are those of \<open>s0\<close>, and so is the list of all.\<close>

definition at_dbs :: "nat set \<Rightarrow> storage \<Rightarrow> 'w closing \<Rightarrow> bool" where
  "at_dbs K s0 c = ((\<forall>k \<in> K. heap (fst c) ! k = heap s0 ! k) \<and> dbs (fst c) = dbs s0)"

lemma close_one_at:
  assumes "\<forall>k \<in> K. unclosable now (heap s0 ! k)" "at_dbs K s0 c"
  shows "at_dbs K s0 (close_one D now j c)"
proof -
  obtain s w t b where c: "c = (s, w, t, b)" by (metis prod_cases4)
  obtain closed d' w' where cl: "closeSafe D now (heap s ! j) w = (closed, d', w')" by (metis prod_cases3)
  have "d' = heap s0 ! j" if "j \<in> K"
    using closeSafe_unclosable [of now "heap s0 ! j" D w] assms cl that c by (simp add: at_dbs_def)
  with assms(2) cl show ?thesis by (auto simp: c at_dbs_def close_one_def nth_update_db)
qed

lemma close_idle_at:
  assumes "\<forall>k \<in> K. unclosable now (heap s0 ! k)" "at_dbs K s0 c"
  shows "at_dbs K s0 (close_idle D now js c)"
  unfolding close_idle_def
  by (rule fold_invariant [where Q = "\<lambda>_. True" and P = "at_dbs K s0"])
    (use assms close_one_at in \<open>auto split: prod.splits\<close>)

lemma close_over_at:
  assumes "\<forall>k \<in> K. unclosable now (heap s0 ! k)" "at_dbs K s0 c"
  shows "at_dbs K s0 (close_over D now js c)"
  unfolding close_over_def
  by (rule fold_invariant [where Q = "\<lambda>_. True" and P = "at_dbs K s0"])
    (use assms close_one_at in \<open>auto split: prod.splits\<close>)

text \<open>One turn of the routine around the opening of databases, with those that it cannot close.\<close>

lemma routine_turn:
  fixes D :: "'w Driver" and x :: "'w sched"
  defines "o3 \<equiv> filter (\<lambda>k. \<not> isOpen (heap (stor x) ! k) \<and> ntasks (stor x) k > 0) (dbs (stor x))"
  assumes "\<forall>k \<in> K. unclosable now (heap (stor (start_tasks D x)) ! k)"
  obtains s w t b where
    "quiet (stor (start_tasks D x)) s" "\<forall>k \<in> K. heap s ! k = heap (stor (start_tasks D x)) ! k" "dbs s = dbs (stor (start_tasks D x))"
    "doRoutineScheduledTasks D now x =
      (let (s, w) = (if t > MaxOpenedDB (sconfig s) then open_first D now (fewest_tasks s o3) s w
                     else open_all D now t (fewest_tasks s o3) s w)
       in (start_tasks D x)\<lparr>stor := (if b then sort_lists s else s), world := w\<rparr>)"
proof -
  define x1 where "x1 = start_tasks D x"
  define n where "n = int (length (filter (\<lambda>k. isOpen (heap (stor x) ! k)) (dbs (stor x))))"
  define o1 where "o1 = filter (\<lambda>k. isOpen (heap (stor x) ! k) \<and> ntasks (stor x) k > 0) (dbs (stor x))"
  define o2 where "o2 = filter (\<lambda>k. isOpen (heap (stor x) ! k) \<and> \<not> ntasks (stor x) k > 0) (dbs (stor x))"
  define m where "m = MaxOpenedDB (sconfig (stor x))"
  define c1 where "c1 = close_idle D now (dbs (stor x)) (stor x1, world x1, n, False)"
  define c2 where "c2 = (if fst (snd (snd c1)) > m then close_over D now o2 c1 else c1)"
  define c3 where "c3 = (if fst (snd (snd c2)) > m then close_over D now (fewest_tasks (fst c2) o1) c2 else c2)"
  obtain s w t b where c: "c3 = (s, w, t, b)" by (metis prod_cases4)
  let ?at = "at_dbs K (stor x1) :: 'w closing \<Rightarrow> bool"
  have "?at (stor x1, world x1, n, False)" by (simp add: at_dbs_def)
  then have "?at c1" using close_idle_at [OF assms(2)] by (simp add: c1_def x1_def)
  then have "?at c2" by (simp add: c2_def x1_def close_over_at [OF assms(2)])
  then have "?at c3" by (simp add: c3_def x1_def close_over_at [OF assms(2)])
  then have at: "\<forall>k \<in> K. heap s ! k = heap (stor x1) ! k" "dbs s = dbs (stor x1)" by (simp_all add: c at_dbs_def)
  have "quiet (stor x1) (fst c1)" using close_idle_quiet [of "(stor x1, world x1, n, False)"] by (simp add: c1_def)
  also have "quiet (fst c1) (fst c2)" by (simp add: c2_def close_over_quiet)
  also (quiet_trans) have "quiet (fst c2) (fst c3)" by (simp add: c3_def close_over_quiet)
  finally (quiet_trans) have q: "quiet (stor x1) s" by (simp add: c)
  have "doRoutineScheduledTasks D now x =
      (let (s, w) = (if t > MaxOpenedDB (sconfig s) then open_first D now (fewest_tasks s o3) s w
                     else open_all D now t (fewest_tasks s o3) s w)
       in x1\<lparr>stor := (if b then sort_lists s else s), world := w\<rparr>)"
    unfolding doRoutineScheduledTasks_def Let_def x1_def [symmetric] n_def [symmetric] o1_def [symmetric] o2_def [symmetric]
      o3_def [symmetric] m_def [symmetric] c1_def [symmetric] c2_def [symmetric] c3_def [symmetric] c
    by (simp add: split_beta)
  then show ?thesis using that [OF q [unfolded x1_def] at [unfolded x1_def]] by (simp add: x1_def)
qed

text \<open>A driver that opens every database.\<close>

definition opens :: "'w Driver \<Rightarrow> bool" where
  "opens D = (\<forall>opts now d w. status d = db_closed \<longrightarrow> fst (connect D opts now d w) = None)"

definition opened :: "int \<Rightarrow> storageDb \<Rightarrow> storageDb" where
  "opened now d = d\<lparr>handle := True, lastQueryEpoch := now, status := db_open\<rparr>"

lemma opens_connect:
  assumes "opens D" "status d = db_closed"
  shows "\<exists>w'. connect D opts now d w = (None, opened now d, w')"
proof -
  obtain r d' w' where c: "connect D opts now d w = (r, d', w')" by (metis prod_cases3)
  have "r = None" using assms c unfolding opens_def by (metis fst_conv)
  with c assms(2) show ?thesis by (auto simp: connect_def opened_def split: option.splits prod.splits)
qed

lemma ball_single: "(\<forall>x \<in> {k}. P x) = P k"
  by simp

lemma fewest_single [simp]: "fewest_tasks s [k] = [k]" "fewest_tasks s [] = []"
  by (simp_all add: fewest_tasks_def SliceStable_def)

lemma sort_lists_kept: "heap (sort_lists s) = heap s" "mset (dbs (sort_lists s)) = mset (dbs s)"
  by (simp_all add: sort_lists_def Let_def mset_SliceStable)

text \<open>
  The databases of the storage when nothing is started: \<open>k\<close> has one task, the others have none.
\<close>

definition only_task :: "nat \<Rightarrow> int \<Rightarrow> storage \<Rightarrow> bool" where
  "only_task k tid s =
     (distinct (dbs s) \<and> k \<in> set (dbs s) \<and> k < length (heap s) \<and> set (dbs s) \<subseteq> {..< length (heap s)} \<and>
      (\<forall>j \<in> set (dbs s). dbTasks (heap s ! j) = (if j = k then [tid] else [])) \<and>
      (\<forall>j \<in> set (dbs s). taskCount (heap s ! j) = (if j = k then 1 else 0)))"

lemma filter_single: "distinct xs \<Longrightarrow> filter (\<lambda>j. j = k) xs = (if k \<in> set xs then [k] else [])"
  by (induction xs) auto

lemma only_task_filters:
  assumes "only_task k tid s"
  shows "filter (\<lambda>j. P j \<and> ntasks s j > 0) (dbs s) = (if P k then [k] else [])"
proof -
  have "filter (\<lambda>j. P j \<and> ntasks s j > 0) (dbs s) = filter (\<lambda>j. j = k \<and> P k) (dbs s)"
    using assms by (intro filter_cong) (auto simp: only_task_def ntasks_def)
  also have "\<dots> = (if P k then [k] else [])"
    using assms filter_single [of "dbs s" k] by (simp add: only_task_def)
  finally show ?thesis .
qed

lemma only_task_quiet:
  assumes "only_task k tid s" "quiet s s'" "mset (dbs s') = mset (dbs s)"
  shows "only_task k tid s'"
proof -
  have ds: "distinct (dbs s') = distinct (dbs s)" "set (dbs s') = set (dbs s)"
    using assms(3) by (metis mset_eq_imp_distinct_iff, metis set_mset_mset)
  have len: "length (heap s) \<le> length (heap s')" using assms(2) by (auto simp: quiet_def heap_moves_def)
  have I: "distinct (dbs s)" "k \<in> set (dbs s)" "set (dbs s) \<subseteq> {..< length (heap s)}"
    "\<forall>j \<in> set (dbs s). dbTasks (heap s ! j) = (if j = k then [tid] else [])"
    "\<forall>j \<in> set (dbs s). taskCount (heap s ! j) = (if j = k then 1 else 0)"
    using assms(1) by (simp_all add: only_task_def)
  have same: "dbTasks (heap s' ! j) = dbTasks (heap s ! j)" "taskCount (heap s' ! j) = taskCount (heap s ! j)"
    if "j \<in> set (dbs s)" for j
    using that I(3) assms(2) by (auto simp: quiet_def heap_moves_def db_move_def)
  have "set (dbs s) \<subseteq> {..< length (heap s')}" using I(3) len by fastforce
  then show ?thesis using I same by (auto simp: only_task_def ds)
qed

subsection \<open>Opening\<close>

lemma routine_opens:
  fixes D :: "'w Driver"
  assumes "only_task k tid (stor x)" "status (heap (stor x) ! k) = db_closed" "opens D"
  shows "\<exists>s w. doRoutineScheduledTasks D now x = x\<lparr>stor := s, world := w\<rparr> \<and>
    heap s ! k = opened now (heap (stor x) ! k) \<and> only_task k tid s \<and> quiet (stor x) s"
proof -
  have closed: "\<not> isOpen (heap (stor x) ! k)" using assms(2) by (simp add: isOpen_def)
  have st: "start_tasks D x = x"
    using only_task_filters [OF assms(1), of "\<lambda>j. isOpen (heap (stor x) ! j)"] closed
    by (simp add: start_tasks_def Let_def)
  have o3: "filter (\<lambda>j. \<not> isOpen (heap (stor x) ! j) \<and> ntasks (stor x) j > 0) (dbs (stor x)) = [k]"
    using only_task_filters [OF assms(1), of "\<lambda>j. \<not> isOpen (heap (stor x) ! j)"] closed by simp
  have un: "\<forall>j \<in> {k}. unclosable now (heap (stor (start_tasks D x)) ! j)" using assms(2) by (simp add: unclosable_def st)
  obtain s w t b where q: "quiet (stor x) s" "heap s ! k = heap (stor x) ! k" "dbs s = dbs (stor x)"
    and r: "doRoutineScheduledTasks D now x =
      (let (s, w) = (if t > MaxOpenedDB (sconfig s) then open_first D now [k] s w else open_all D now t [k] s w)
       in x\<lparr>stor := (if b then sort_lists s else s), world := w\<rparr>)"
    by (rule routine_turn [OF un, unfolded st o3 fewest_single ball_single])
  let ?d = "opened now (heap (stor x) ! k)" and ?s = "update_db k (opened now (heap (stor x) ! k)) s"
  obtain w' where c: "connect D (SQLiteOptions (sconfig s)) now (heap s ! k) w = (None, ?d, w')"
    using opens_connect [OF assms(3)] assms(2) q(2) by fastforce
  have op: "open_first D now [k] s w = (?s, w')" "t \<le> MaxOpenedDB (sconfig s) \<Longrightarrow> open_all D now t [k] s w = (?s, w')"
    using c by simp_all
  have res: "doRoutineScheduledTasks D now x = x\<lparr>stor := (if b then sort_lists ?s else ?s), world := w'\<rparr>"
    unfolding r using op by (cases "t > MaxOpenedDB (sconfig s)") simp_all
  have k: "k < length (heap s)" using assms(1) q(1) by (auto simp: only_task_def quiet_def heap_moves_def)
  have "quiet s ?s" using connect_moves [OF c] by (rule quiet_update)
  moreover have "quiet ?s (if b then sort_lists ?s else ?s)" by (simp add: sort_lists_quiet)
  ultimately have Q: "quiet (stor x) (if b then sort_lists ?s else ?s)" using q(1) by (meson quiet_trans)
  have h: "heap (if b then sort_lists ?s else ?s) ! k = ?d" using k by (simp add: sort_lists_kept nth_update_db)
  have "only_task k tid (if b then sort_lists ?s else ?s)"
    using only_task_quiet [OF assms(1) Q] q(3) by (simp add: sort_lists_kept)
  with res h Q show ?thesis by blast
qed

lemma open_all_keeps: "isOpen (heap s ! j) \<Longrightarrow> isOpen (heap (fst (open_all D now n ks s w)) ! j)"
proof (induction ks arbitrary: n s w)
  case (Cons k ks)
  obtain r d w' where c: "connect D (SQLiteOptions (sconfig s)) now (heap s ! k) w = (r, d, w')" by (metis prod_cases3)
  have "isOpen d" if "k = j" using c Cons.prems that by (auto simp: connect_def isOpen_def)
  then have "isOpen (heap (update_db k d s) ! j)" using Cons.prems by (simp add: nth_update_db)
  from Cons.IH [OF this] c Cons.prems show ?case by (cases r) simp_all
qed simp

text \<open>When no database is open, the first one with waiting tasks is opened.\<close>

lemma routine_opens_any:
  fixes D :: "'w Driver"
  assumes "opens D" "\<forall>j \<in> set (dbs (stor x)). status (heap (stor x) ! j) = db_closed \<and> j < length (heap (stor x))"
    and "k \<in> set (dbs (stor x))" "0 < taskCount (heap (stor x) ! k)"
  shows "\<exists>j \<in> set (dbs (stor x)). isOpen (heap (stor (doRoutineScheduledTasks D now x)) ! j)"
proof -
  have closed: "\<not> isOpen (heap (stor x) ! j)" if "j \<in> set (dbs (stor x))" for j using assms(2) that by (simp add: isOpen_def)
  have "filter (\<lambda>j. isOpen (heap (stor x) ! j) \<and> ntasks (stor x) j > 0) (dbs (stor x)) = []"
    using closed by (simp add: filter_empty_conv)
  then have st: "start_tasks D x = x" by (simp add: start_tasks_def Let_def)
  define o3 where "o3 = filter (\<lambda>j. \<not> isOpen (heap (stor x) ! j) \<and> ntasks (stor x) j > 0) (dbs (stor x))"
  have un: "\<forall>j \<in> set (dbs (stor x)). unclosable now (heap (stor (start_tasks D x)) ! j)" using assms(2) by (simp add: unclosable_def st)
  obtain s w t b where q: "quiet (stor x) s" "\<forall>j \<in> set (dbs (stor x)). heap s ! j = heap (stor x) ! j" "dbs s = dbs (stor x)"
    and r: "doRoutineScheduledTasks D now x =
      (let (s, w) = (if t > MaxOpenedDB (sconfig s) then open_first D now (fewest_tasks s o3) s w
                     else open_all D now t (fewest_tasks s o3) s w)
       in x\<lparr>stor := (if b then sort_lists s else s), world := w\<rparr>)"
    by (rule routine_turn [OF un, unfolded st o3_def [symmetric]])
  have "k \<in> set o3" using assms(3,4) closed by (simp add: o3_def ntasks_def)
  moreover have f: "set (fewest_tasks s o3) = set o3" by (simp add: fewest_tasks_def)
  ultimately obtain j js where js: "fewest_tasks s o3 = j # js" by (cases "fewest_tasks s o3") auto
  then have "j \<in> set o3" using f by auto
  then have j: "j \<in> set (dbs (stor x))" by (simp add: o3_def)
  let ?s = "update_db j (opened now (heap (stor x) ! j)) s"
  obtain w1 where c: "connect D (SQLiteOptions (sconfig s)) now (heap s ! j) w = (None, opened now (heap (stor x) ! j), w1)"
    using opens_connect [OF assms(1)] assms(2) q(2) j by fastforce
  have "length (heap (stor x)) \<le> length (heap s)" using q(1) by (simp add: quiet_def heap_moves_def)
  then have o: "isOpen (heap ?s ! j)" using assms(2) j by (fastforce simp: nth_update_db isOpen_def opened_def)
  have "\<exists>s' w'. doRoutineScheduledTasks D now x = x\<lparr>stor := (if b then sort_lists s' else s'), world := w'\<rparr> \<and> isOpen (heap s' ! j)"
  proof (cases "t > MaxOpenedDB (sconfig s)")
    case True
    with r js c have "doRoutineScheduledTasks D now x = x\<lparr>stor := (if b then sort_lists ?s else ?s), world := w1\<rparr>" by simp
    with o show ?thesis by blast
  next
    case False
    obtain s' w' where a: "open_all D now (i32 (t + 1)) js ?s w1 = (s', w')" by fastforce
    with False r js c have "doRoutineScheduledTasks D now x = x\<lparr>stor := (if b then sort_lists s' else s'), world := w'\<rparr>" by simp
    moreover have "isOpen (heap s' ! j)" using open_all_keeps [OF o, of D now "i32 (t + 1)" js w1] a by simp
    ultimately show ?thesis by blast
  qed
  with j show ?thesis by (auto simp: sort_lists_kept intro!: bexI [of _ j])
qed

subsection \<open>Starting\<close>

lemma sum_tasks_zero: "\<forall>j \<in> set js. f j = 0 \<Longrightarrow> i32 a = a \<Longrightarrow> foldl (\<lambda>n j. i32 (n + f j)) a js = a"
  by (induction js) auto

lemma sum_tasks_one:
  assumes "distinct js" "k \<in> set js" "\<forall>j \<in> set js. f j = (if j = k then 1 else 0)"
  shows "foldl (\<lambda>n j. i32 (n + f j)) 0 js = 1"
proof -
  obtain us vs where js: "js = us @ k # vs" "k \<notin> set us" "k \<notin> set vs"
    using assms(1,2) by (metis distinct.simps(2) distinct_append not_distinct_conv_prefix split_list)
  have "foldl (\<lambda>n j. i32 (n + f j)) 0 us = 0" using assms(3) js by (intro sum_tasks_zero) (auto simp: i32_id)
  moreover have "foldl (\<lambda>n j. i32 (n + f j)) 1 vs = 1" using assms(3) js by (intro sum_tasks_zero) (auto simp: i32_id)
  ultimately show ?thesis using assms(3) js by (simp add: i32_id)
qed

lemma start_only_task:
  assumes "only_task k tid (stor x)" "isOpen (heap (stor x) ! k)" "numActiveTasks (stor x) = 0"
    "0 < MaxRunningTasks (sconfig (stor x))" "MaxRunningTasks (sconfig (stor x)) < 2 ^ 31"
  shows "start_tasks D x = x\<lparr>stor := onDbTask False (update_db k (dequeue tid (heap (stor x) ! k)) (stor x)),
    goroutines := goroutines x @ [(k, tid, 0)]\<rparr>"
proof -
  let ?s = "stor x"
  have tot: "foldl (\<lambda>n j. i32 (n + ntasks ?s j)) 0 (dbs ?s) = 1"
    using assms(1) by (intro sum_tasks_one [of _ k]) (auto simp: only_task_def ntasks_def)
  have o1: "filter (\<lambda>j. isOpen (heap ?s ! j) \<and> ntasks ?s j > 0) (dbs ?s) = [k]"
    using only_task_filters [OF assms(1), of "\<lambda>j. isOpen (heap ?s ! j)"] assms(2) by simp
  have n: "ntasks ?s k = 1" "dbTasks (heap ?s ! k) = [tid]" using assms(1) by (auto simp: only_task_def ntasks_def)
  have "i32 (MaxRunningTasks (sconfig ?s) - numActiveTasks ?s) > 0" using assms(3-5) by (simp add: i32_id)
  then show ?thesis unfolding start_tasks_def Let_def tot o1 by (simp add: n Let_def)
qed

lemma routine_starts:
  fixes D :: "'w Driver"
  assumes "only_task k tid (stor x)" "isOpen (heap (stor x) ! k)" "lastQuerySec now (heap (stor x) ! k) < 2"
    "numActiveTasks (stor x) = 0" "0 < MaxRunningTasks (sconfig (stor x))" "MaxRunningTasks (sconfig (stor x)) < 2 ^ 31"
    "goroutines x = []"
  shows "\<exists>s w. doRoutineScheduledTasks D now x = x\<lparr>stor := s, world := w, goroutines := [(k, tid, 0)]\<rparr> \<and>
    heap s ! k = dequeue tid (heap (stor x) ! k) \<and> tasks s = tasks (stor x) \<and> taskMap s = taskMap (stor x)"
proof -
  let ?d = "dequeue tid (heap (stor x) ! k)"
  let ?s1 = "onDbTask False (update_db k ?d (stor x))"
  have st: "start_tasks D x = x\<lparr>stor := ?s1, goroutines := [(k, tid, 0)]\<rparr>"
    using start_only_task [OF assms(1,2,4-6)] assms(7) by simp
  have k: "k < length (heap (stor x))" using assms(1) by (simp add: only_task_def)
  have h1: "heap (stor (start_tasks D x)) ! k = ?d" using k by (simp add: st nth_update_db)
  have un: "\<forall>j \<in> {k}. unclosable now (heap (stor (start_tasks D x)) ! j)"
    using assms(3) h1 by (simp add: unclosable_def lastQuerySec_def dequeue_def)
  have o3: "filter (\<lambda>j. \<not> isOpen (heap (stor x) ! j) \<and> ntasks (stor x) j > 0) (dbs (stor x)) = []"
    using only_task_filters [OF assms(1), of "\<lambda>j. \<not> isOpen (heap (stor x) ! j)"] assms(2) by simp
  obtain s w t b where q: "quiet (stor (start_tasks D x)) s" "heap s ! k = heap (stor (start_tasks D x)) ! k"
    and r: "doRoutineScheduledTasks D now x =
      (let (s, w) = (if t > MaxOpenedDB (sconfig s) then open_first D now [] s w else open_all D now t [] s w)
       in (start_tasks D x)\<lparr>stor := (if b then sort_lists s else s), world := w\<rparr>)"
    by (rule routine_turn [OF un, unfolded o3 fewest_single ball_single])
  let ?s = "if b then sort_lists s else s"
  have "quiet s ?s" by (simp add: sort_lists_quiet)
  with q(1) have "quiet ?s1 ?s" unfolding st by (auto intro: quiet_trans)
  then have "tasks ?s = tasks (stor x) \<and> taskMap ?s = taskMap (stor x)" using quiet_tasks [of ?s1 ?s] by simp
  moreover have "heap ?s ! k = ?d" using q(2) h1 by (simp add: sort_lists_kept)
  moreover have "doRoutineScheduledTasks D now x = x\<lparr>stor := ?s, world := w, goroutines := [(k, tid, 0)]\<rparr>"
    unfolding r st by simp
  ultimately show ?thesis by blast
qed

subsection \<open>Asking\<close>

text \<open>A storage in which nothing is going on.\<close>

definition at_rest :: "'w sched \<Rightarrow> bool" where
  "at_rest x =
     (sched_inv x \<and> goroutines x = [] \<and> distinct (dbs (stor x)) \<and> (\<forall>j \<in> set (dbs (stor x)). dbTasks (heap (stor x) ! j) = []))"

lemma at_rest_index: "at_rest x \<Longrightarrow> set (dbs (stor x)) \<subseteq> {..< length (heap (stor x))}"
  by (auto simp: at_rest_def sched_inv_def dest!: inv_parts(1) simp: storage_inv_def list_all_iff)

lemma at_rest_counts: "at_rest x \<Longrightarrow> j \<in> set (dbs (stor x)) \<Longrightarrow> taskCount (heap (stor x) ! j) = 0"
  using at_rest_index [of x]
  by (auto simp: at_rest_def sched_inv_def dest!: inv_parts(2) simp: counted_def list_all_length subset_iff)

lemma ask_closed:
  assumes "at_rest x" "EpochStart input = e" "e \<noteq> 0" "entries_query (ExprBuilder (sconfig (stor x))) input e = Inr (q, as)"
    and "entries_dbs (Direction input) e (stor x) = k # ks" "\<not> isOpen (heap (stor x) ! k)"
    and "taskIdSeq (stor x) < 2 ^ 31 - 1"
  defines "tid \<equiv> taskIdSeq (stor x) + 1"
  shows "\<exists>s. storage_Entries D input now (stor x) w = (Inr (zeroOutput\<lparr>Scheduled := True, TaskIds := [tid]\<rparr>), s, w) \<and>
    only_task k tid s \<and> heap s ! k = db_schedule tid (heap (stor x) ! k) \<and> tasks s tid = Some (new_task (ListEntries q as)) \<and>
    tid \<in> set (taskMap s) \<and> numActiveTasks s = numActiveTasks (stor x) \<and> sconfig s = sconfig (stor x) \<and>
    dbs s = dbs (stor x) \<and> (\<forall>j. status (heap s ! j) = status (heap (stor x) ! j))"
proof -
  have "0 \<le> taskIdSeq (stor x)" using assms(1) inv_parts(4) [of 0 x] by (simp add: at_rest_def sched_inv_def)
  then have t: "i32 (taskIdSeq (stor x) + 1) = tid" using assms(7) by (simp add: tid_def i32_id)
  let ?s1 = "(stor x)\<lparr>taskIdSeq := tid, tasks := (tasks (stor x))(tid \<mapsto> new_task (ListEntries q as)),
    taskMap := List.insert tid (taskMap (stor x))\<rparr>"
  let ?s = "update_db k (db_schedule tid (heap (stor x) ! k)) ?s1"
  have "k \<in> set (entries_dbs (Direction input) e (stor x))" using assms(5) by simp
  then have k: "k \<in> set (dbs (stor x))" by (auto simp: entries_dbs_def Let_def split: if_splits)
  then have k': "k < length (heap (stor x))" using at_rest_index [OF assms(1)] by auto
  have e: "storage_Entries D input now (stor x) w = (Inr (zeroOutput\<lparr>Scheduled := True, TaskIds := [tid]\<rparr>), ?s, w)"
    using assms(2-6) by (simp add: storage_Entries_def t zeroOutput_def)
  have none: "dbTasks (heap (stor x) ! j) = []" "taskCount (heap (stor x) ! j) = 0" if "j \<in> set (dbs (stor x))" for j
    using assms(1) that at_rest_counts by (auto simp: at_rest_def)
  have "only_task k tid ?s"
    using k k' none at_rest_index [OF assms(1)] assms(1)
    by (auto simp: only_task_def nth_update_db db_schedule_def i32_id at_rest_def)
  moreover have "status (heap ?s ! j) = status (heap (stor x) ! j)" for j using k' by (simp add: nth_update_db db_schedule_def)
  ultimately show ?thesis using e k' by (auto simp: nth_update_db)
qed

subsection \<open>Properties\<close>

text \<open>
  C19 (liveness). Nothing is going on, and the first database that a page of entries needs is closed. The query answers
  at once with the id of a task; after two turns of the routine, less than two seconds apart, and the run of the goroutine
  that it starts, \<^verbatim>\<open>Result\<close> hands out what the database answers to the query, whatever limit there is on open databases.
\<close>

theorem closed_database_answers_later:
  fixes D :: "'w Driver"
  assumes "at_rest x" "EpochStart input = e" "e \<noteq> 0" "entries_query (ExprBuilder (sconfig (stor x))) input e = Inr (q, as)"
    and "entries_dbs (Direction input) e (stor x) = k # ks" "status (heap (stor x) ! k) = db_closed"
    and "opens D" "answers D q as R" "i64 (now2 - now1) < 2" "taskIdSeq (stor x) < 2 ^ 31 - 1"
    and "0 < MaxRunningTasks (sconfig (stor x))" "MaxRunningTasks (sconfig (stor x)) < 2 ^ 31"
  shows "\<exists>out tid s w. storage_Entries D input now (stor x) (world x) = (Inr out, s, w) \<and> Scheduled out \<and> TaskIds out = [tid] \<and>
    (\<exists>out' s'. storage_Result tid (stor (run_events D [AskEntries input now, Routine now1, Routine now2, Exec 0 now3] x)) = (Some out', s') \<and>
      Entries out' = R (filePath (heap (stor x) ! k)) \<and> OutError out' = None)"
proof -
  define tid where "tid = taskIdSeq (stor x) + 1"
  let ?d = "heap (stor x) ! k"
  have "\<not> isOpen ?d" using assms(6) by (simp add: isOpen_def)
  from ask_closed [OF assms(1-5) this assms(10), of D now "world x"] obtain s
    where e: "storage_Entries D input now (stor x) (world x) = (Inr (zeroOutput\<lparr>Scheduled := True, TaskIds := [tid]\<rparr>), s, world x)"
      and s: "only_task k tid s" "heap s ! k = db_schedule tid ?d" "tasks s tid = Some (new_task (ListEntries q as))"
        "tid \<in> set (taskMap s)" "numActiveTasks s = numActiveTasks (stor x)" "sconfig s = sconfig (stor x)"
    unfolding tid_def by blast
  define x1 where "x1 = sched_step D (AskEntries input now) x"
  have x1: "stor x1 = s" "goroutines x1 = []" using assms(1) by (simp_all add: x1_def e at_rest_def)
  have "numActiveTasks (stor x) = 0" using assms(1) inv_parts(3) [of 0 x] by (simp add: at_rest_def sched_inv_def)
  then have n0: "numActiveTasks s = 0" by (simp add: s)
  have "status (heap (stor x1) ! k) = db_closed" using assms(6) by (simp add: x1 s db_schedule_def)
  from routine_opens [OF s(1) [folded x1(1)] this assms(7), of now1] obtain s2 w2
    where r1: "doRoutineScheduledTasks D now1 x1 = x1\<lparr>stor := s2, world := w2\<rparr>"
      and s2: "heap s2 ! k = opened now1 (db_schedule tid ?d)" "only_task k tid s2" "quiet s s2"
    unfolding x1 s by blast
  define x2 where "x2 = x1\<lparr>stor := s2, world := w2\<rparr>"
  have q2: "tasks s2 = tasks s" "taskMap s2 = taskMap s" "numActiveTasks s2 = 0" "sconfig s2 = sconfig (stor x)"
    using s2(3) n0 s(6) by (simp_all add: quiet_def)
  have "isOpen (heap (stor x2) ! k)" "lastQuerySec now2 (heap (stor x2) ! k) < 2"
    using assms(9) by (simp_all add: x2_def s2 opened_def isOpen_def lastQuerySec_def)
  from routine_starts [OF _ this, of tid D] obtain s3 w3
    where r2: "doRoutineScheduledTasks D now2 x2 = x2\<lparr>stor := s3, world := w3, goroutines := [(k, tid, 0)]\<rparr>"
      and s3: "heap s3 ! k = dequeue tid (heap s2 ! k)" "tasks s3 = tasks s2" "taskMap s3 = taskMap s2"
    using s2(2) q2 assms(11,12) x1(2) by (auto simp: x2_def)
  define x3 where "x3 = x2\<lparr>stor := s3, world := w3, goroutines := [(k, tid, 0)]\<rparr>"
  have ask: "askable (stor x3) k" "filePath (heap (stor x3) ! k) = filePath ?d"
    by (simp_all add: x3_def askable_def s3 s2 dequeue_def opened_def db_schedule_def isOpen_def)
  have "\<exists>out' s'. storage_Result tid (stor (sched_step D (Exec 0 now3) x3)) = (Some out', s') \<and>
      Entries out' = R (filePath (heap (stor x3) ! k)) \<and> OutError out' = OutError (taskOutput (new_task (ListEntries q as)))
      \<and> storage_Result tid s' = (None, s')"
    by (rule exec_answers [OF _ _ _ _ _ ask(1) assms(8), where gs = "[]" and t = "new_task (ListEntries q as)"])
      (simp_all add: x3_def s3 q2 s new_task_def)
  moreover have "run_events D [AskEntries input now, Routine now1, Routine now2, Exec 0 now3] x = sched_step D (Exec 0 now3) x3"
    by (simp only: run_events_simps sched_step.simps(1) x1_def [symmetric] r1 x2_def [symmetric] r2 x3_def [symmetric])
  ultimately show ?thesis using e ask(2) by (auto simp: new_task_def zeroOutput_def)
qed

text \<open>A closed database and, after it, the live one; the limit on open databases is zero.\<close>

definition closedFirst :: "unit sched" where
  "closedFirst =
     \<lparr>stor = (storageOf [newDb ''logs'' ''demo'' 1 3600, (openDb 5)\<lparr>live := True\<rparr>])\<lparr>sconfig := zeroConfig\<lparr>MaxRunningTasks := 5\<rparr>\<rparr>,
      world = (), goroutines = []\<rparr>"

lemma closedFirst_at_rest: "at_rest closedFirst"
proof -
  have "inv_holding 0 closedFirst"
  proof (rule inv_holdingI)
    have p: "places closedFirst = {#}" "waiting (heap (stor closedFirst)) = {#}"
      by (simp_all add: places_def started_def closedFirst_def storageOf_def openDb_def newDb_def)
    show "count (places closedFirst) i \<le> 1" "set_mset (places closedFirst) \<subseteq> {1 .. taskIdSeq (stor closedFirst)}" for i
      unfolding p by simp_all
    show "fresh_task (stor closedFirst) i" if "i \<in># waiting (heap (stor closedFirst))" for i using that by (simp add: p)
  qed (simp_all add: closedFirst_def storageOf_def storage_inv_def openDb_def newDb_def isOpen_def counted_def)
  then show ?thesis
    by (simp add: at_rest_def sched_inv_def) (simp add: closedFirst_def storageOf_def openDb_def newDb_def upt_rec)
qed

lemma rowDriver_opens: "opens (rowDriver R)"
  by (simp add: opens_def connect_def rowDriver_def quietDriver_def)

theorem closed_database_answers_later_witness:
  "\<exists>tid out' s'. storage_Result tid (stor (run_events (rowDriver (\<lambda>p. [(8, 0, 4, p)]))
      [AskEntries entriesIn 9, Routine 10, Routine 11, Exec 0 11] closedFirst)) = (Some out', s') \<and>
    Entries out' = [(8, 0, 4, filePath (newDb ''logs'' ''demo'' 1 3600))] \<and> OutError out' = None"
proof -
  let ?s = "stor closedFirst"
  have "TrimSpace '' '' = ''''" by code_simp
  then obtain q as where q: "entries_query (ExprBuilder (sconfig ?s)) entriesIn 7 = Inr (q, as)"
    by (simp add: entries_query_def entriesIn_def Let_def)
  have ks: "entries_dbs (Direction entriesIn) 7 ?s = 0 # [1]"
    by (simp add: entries_dbs_def entriesIn_def closedFirst_def storageOf_def openDb_def newDb_def SliceStable_def upt_rec)
  have "status (heap ?s ! 0) = db_closed" by (simp add: closedFirst_def storageOf_def newDb_def)
  from closed_database_answers_later [OF closedFirst_at_rest _ _ q ks this rowDriver_opens rowDriver_answers,
      where now = 9 and ?now1.0 = 10 and ?now2.0 = 11 and ?now3.0 = 11 and R = "\<lambda>p. [(8, 0, 4, p)]"]
  show ?thesis by (fastforce simp: closedFirst_def storageOf_def entriesIn_def zeroConfig_def i64_def)
qed

end
