(* ===== verification/TaskSteps.thy ===== *)
theory TaskSteps imports SystemProperties begin

text \<open>
  \<^verbatim>\<open>exec\<close> of \<^verbatim>\<open>sqlite/storage_scheduler.go\<close> in its atomic steps, so that everything else can happen
  between them: the routine closes or opens the database, a result is fetched, a task is canceled. A
  goroutine is at a point of \<^verbatim>\<open>exec\<close>; the other steps are those of \<open>SqliteSystem\<close>. A query of the
  database is one step.
\<close>

subsection \<open>The points of \<^verbatim>\<open>exec\<close>\<close>

datatype exec_point =
    AtSwap
  | AtOpenCheck
  | AtCallback
  | AtFailed string
  | AtRequeue
  | AtSchedule
  | AtError string
  | AtFinish
  | AtDone

type_synonym runner = "nat \<times> int \<times> nat \<times> exec_point"

fun exec_step :: "'w Driver \<Rightarrow> int \<Rightarrow> runner \<Rightarrow> storage \<Rightarrow> 'w \<Rightarrow> runner option \<times> storage \<times> 'w" where
  "exec_step D now (k, tid, nretry, AtSwap) s w =
     (let (swapped, s) = cas_state tid task_created task_process s
      in (Some (k, tid, nretry, if swapped then AtOpenCheck else AtDone), s, w))"
| "exec_step D now (k, tid, nretry, AtOpenCheck) s w =
     (Some (k, tid, nretry, if isOpen (heap s ! k) then AtCallback else AtRequeue), s, w)"
| "exec_step D now (k, tid, nretry, AtCallback) s w =
     (case tasks s tid of
        None \<Rightarrow> (Some (k, tid, nretry, AtDone), s, w)
      | Some task \<Rightarrow>
          (case run_callback D now k tid (taskCallback task) s w of
             (Some err, s, w) \<Rightarrow> (Some (k, tid, nretry, AtFailed err), s, w)
           | (None, s, w) \<Rightarrow> (Some (k, tid, nretry, AtFinish), s, w)))"
| "exec_step D now (k, tid, nretry, AtFailed err) s w =
     (Some (if \<not> isOpen (heap s ! k) then (k, tid, nretry, AtRequeue)
            else if nretry < 3 then (k, tid, nretry + 1, AtSwap)
            else (k, tid, nretry, AtError err)), s, w)"
| "exec_step D now (k, tid, nretry, AtRequeue) s w =
     (let (swapped, s) = cas_state tid task_process task_created s
      in (Some (k, tid, nretry, if swapped then AtSchedule else AtDone), s, w))"
| "exec_step D now (k, tid, nretry, AtSchedule) s w =
     (Some (k, tid, nretry, AtDone), update_db k (db_schedule tid (heap s ! k)) s, w)"
| "exec_step D now (k, tid, nretry, AtError err) s w =
     (Some (k, tid, nretry, AtFinish), upd_task tid (\<lambda>t. t\<lparr>taskOutput := (taskOutput t)\<lparr>OutError := Some err\<rparr>\<rparr>) s, w)"
| "exec_step D now (k, tid, nretry, AtFinish) s w =
     (Some (k, tid, nretry, AtDone), snd (cas_state tid task_process task_finished s), w)"
| "exec_step D now (k, tid, nretry, AtDone) s w = (None, onDbTask True s, w)"

subsection \<open>Steps of the system\<close>

text \<open>
  The goroutines of \<open>sys\<close> have been started and have not run yet; \<open>Begin\<close> is the first time one of
  them gets the processor. An \<open>Exec\<close> of the coarser system is not a step here.
\<close>

record 'w interleaved =
  sys :: "'w sched"
  runners :: "runner list"

datatype task_event =
    Other sched_event
  | Begin nat
  | Go nat int

fun task_step :: "'w Driver \<Rightarrow> task_event \<Rightarrow> 'w interleaved \<Rightarrow> 'w interleaved" where
  "task_step D (Other ev) x =
     (case ev of Exec g now \<Rightarrow> x | _ \<Rightarrow> x\<lparr>sys := sched_step D ev (sys x)\<rparr>)"
| "task_step D (Begin g) x =
     (if g < length (goroutines (sys x))
      then case goroutines (sys x) ! g of (k, tid, nretry) \<Rightarrow>
             x\<lparr>sys := (sys x)\<lparr>goroutines := take g (goroutines (sys x)) @ drop (Suc g) (goroutines (sys x))\<rparr>,
               runners := runners x @ [(k, tid, nretry, AtSwap)]\<rparr>
      else x)"
| "task_step D (Go i now) x =
     (if i < length (runners x)
      then case exec_step D now (runners x ! i) (stor (sys x)) (world (sys x)) of
             (r, s, w) \<Rightarrow>
               x\<lparr>sys := (sys x)\<lparr>stor := s, world := w\<rparr>,
                 runners := take i (runners x) @ (case r of None \<Rightarrow> [] | Some g \<Rightarrow> [g]) @ drop (Suc i) (runners x)\<rparr>
      else x)"

definition run_tasks :: "'w Driver \<Rightarrow> task_event list \<Rightarrow> 'w interleaved \<Rightarrow> 'w interleaved" where
  "run_tasks D evs x = fold (task_step D) evs x"

lemma run_tasks_simps [simp]:
  "run_tasks D [] x = x" "run_tasks D (ev # evs) x = run_tasks D evs (task_step D ev x)"
  by (simp_all add: run_tasks_def)

text \<open>The system as it comes from \<^verbatim>\<open>New\<close>.\<close>

definition at_start :: "storage \<Rightarrow> 'w \<Rightarrow> 'w interleaved" where
  "at_start s w = \<lparr>sys = \<lparr>stor = s, world = w, goroutines = []\<rparr>, runners = []\<rparr>"

subsection \<open>Without interruption the steps are \<^verbatim>\<open>exec\<close>\<close>

text \<open>A goroutine alone, up to its end or to the start of its retry.\<close>

fun exec_alone :: "'w Driver \<Rightarrow> int \<Rightarrow> nat \<Rightarrow> runner option \<times> storage \<times> 'w \<Rightarrow> runner option \<times> storage \<times> 'w" where
  "exec_alone D now (Suc n) (Some (k, tid, nretry, p), s, w) = exec_alone D now n (exec_step D now (k, tid, nretry, p) s w)"
| "exec_alone D now n c = c"

lemma exec_alone_done: "exec_alone D now n (None, s, w) = (None, s, w)"
  by (cases n) simp_all

lemma exec_steps:
  "exec_alone D now (Suc n) (Some g, s, w) = exec_alone D now n (exec_step D now g s w)"
  by (cases g) simp

lemma exec_finishes:
  "exec_alone D now 2 (Some (k, tid, m, AtFinish), s, w) = (None, onDbTask True (snd (cas_state tid task_process task_finished s)), w)"
  by (simp add: numeral_2_eq_2)

lemma exec_requeues:
  "\<exists>n \<le> 3. exec_alone D now n (Some (k, tid, m, AtRequeue), s, w) = (None, onDbTask True (reschedule k tid s), w)"
proof -
  obtain b s1 where c: "cas_state tid task_process task_created s = (b, s1)" by fastforce
  show ?thesis
  proof (cases b)
    case True
    then show ?thesis by (intro exI [of _ 3]) (simp add: numeral_3_eq_3 c reschedule_def)
  next
    case False
    then show ?thesis by (intro exI [of _ 2]) (simp add: numeral_2_eq_2 c reschedule_def)
  qed
qed

lemma exec_fails:
  "\<exists>n \<le> 4. exec_alone D now n (Some (k, tid, m, AtFailed err), s, w) =
     (if \<not> isOpen (heap s ! k) then (None, onDbTask True (reschedule k tid s), w)
      else if m < 3 then (Some (k, tid, m + 1, AtSwap), s, w)
      else (None, onDbTask True (snd (cas_state tid task_process task_finished
             (upd_task tid (\<lambda>t. t\<lparr>taskOutput := (taskOutput t)\<lparr>OutError := Some err\<rparr>\<rparr>) s))), w))"
proof -
  consider "\<not> isOpen (heap s ! k)" | "isOpen (heap s ! k)" "m < 3" | "isOpen (heap s ! k)" "\<not> m < 3" by blast
  then show ?thesis
  proof cases
    case 1
    obtain n where "n \<le> 3" "exec_alone D now n (Some (k, tid, m, AtRequeue), s, w) = (None, onDbTask True (reschedule k tid s), w)"
      using exec_requeues [of D now k tid m s w] by blast
    with 1 show ?thesis by (intro exI [of _ "Suc n"]) simp
  next
    case 2
    then show ?thesis by (intro exI [of _ 1]) simp
  next
    case 3
    let ?s = "upd_task tid (\<lambda>t. t\<lparr>taskOutput := (taskOutput t)\<lparr>OutError := Some err\<rparr>\<rparr>) s"
    have "exec_alone D now (Suc (Suc 2)) (Some (k, tid, m, AtFailed err), s, w) = exec_alone D now 2 (Some (k, tid, m, AtFinish), ?s, w)"
      using 3 by (simp only: exec_steps exec_step.simps if_True if_False simp_thms)
    then show ?thesis using 3 by (intro exI [of _ "Suc (Suc 2)"]) (simp only: exec_finishes, simp)
  qed
qed

text \<open>
  The two models of \<^verbatim>\<open>exec\<close> fit together: the one step of \<open>exec_task\<close> is the same as its atomic steps with nothing in
  between. At most seven of them lead to the same storage and the same world, and to the same retry when there is one.
\<close>

lemma exec_is_its_steps:
  "\<exists>n \<le> 7. exec_alone D now n (Some (k, tid, m, AtSwap), s, w) =
     (case exec_task D now k tid m s w of (r, s', w') \<Rightarrow> (map_option (\<lambda>m'. (k, tid, m', AtSwap)) r, s', w'))"
proof -
  obtain b s1 where c: "cas_state tid task_created task_process s = (b, s1)" by fastforce
  have s1: "\<not> b \<longrightarrow> s1 = s" using cas_cases [of tid task_created task_process s] c by auto
  show ?thesis
  proof (cases "b \<and> tasks s tid \<noteq> None")
    case False
    have "b \<Longrightarrow> tasks s tid \<noteq> None" using c by (auto simp: cas_state_def split: if_splits)
    with False have "\<not> b" by blast
    with c s1 show ?thesis by (intro exI [of _ 2]) (simp add: numeral_2_eq_2 exec_task_def split: option.splits)
  next
    case True
    then obtain t where t: "tasks s tid = Some t" by blast
    then have t1: "tasks s1 tid = Some (t\<lparr>state := task_process\<rparr>)" using True c by (auto simp: cas_state_def split: if_splits)
    show ?thesis
    proof (cases "isOpen (heap s1 ! k)")
      case False
      obtain n where n: "n \<le> 3" "exec_alone D now n (Some (k, tid, m, AtRequeue), s1, w) = (None, onDbTask True (reschedule k tid s1), w)"
        using exec_requeues [of D now k tid m s1 w] by blast
      with True False c t show ?thesis by (intro exI [of _ "Suc (Suc n)"]) (simp add: exec_task_def)
    next
      case o: True
      obtain r2 s2 w2 where cb: "run_callback D now k tid (taskCallback t) s1 w = (r2, s2, w2)" by (metis prod_cases3)
      have to: "exec_alone D now (Suc (Suc (Suc n))) (Some (k, tid, m, AtSwap), s, w) =
          exec_alone D now n (Some (k, tid, m, case r2 of None \<Rightarrow> AtFinish | Some err \<Rightarrow> AtFailed err), s2, w2)" for n
        using True o c t1 cb by (simp split: option.splits)
      show ?thesis
      proof (cases r2)
        case None
        with True o c t cb to [of 2] show ?thesis
          by (intro exI [of _ "Suc (Suc (Suc 2))"]) (simp only: option.case exec_finishes, simp add: exec_task_def)
      next
        case (Some err)
        obtain n where n: "n \<le> 4" "exec_alone D now n (Some (k, tid, m, AtFailed err), s2, w2) =
            (if \<not> isOpen (heap s2 ! k) then (None, onDbTask True (reschedule k tid s2), w2)
             else if m < 3 then (Some (k, tid, m + 1, AtSwap), s2, w2)
             else (None, onDbTask True (snd (cas_state tid task_process task_finished
                    (upd_task tid (\<lambda>t. t\<lparr>taskOutput := (taskOutput t)\<lparr>OutError := Some err\<rparr>\<rparr>) s2))), w2))"
          using exec_fails [of D now k tid m err s2 w2] by blast
        with Some True o c t cb to [of n] show ?thesis
          by (intro exI [of _ "Suc (Suc (Suc n))"]) (simp only: option.case, simp add: exec_task_def Let_def)
      qed
    qed
  qed
qed

subsection \<open>Who holds a task\<close>

text \<open>
  The task of a goroutine, as the invariant of the coarser system counts it: one that has put its
  task back in a queue, or has finished it, holds nothing any more.
\<close>

fun holding :: "runner \<Rightarrow> (nat \<times> int \<times> nat) list" where
  "holding (k, tid, nretry, AtDone) = []"
| "holding (k, tid, nretry, AtSwap) = [(k, tid, nretry)]"
| "holding (k, tid, nretry, AtSchedule) = [(k, tid, 0)]"
| "holding (k, tid, nretry, p) = [(k, tid, 1)]"

definition held :: "runner list \<Rightarrow> (nat \<times> int \<times> nat) list" where
  "held gs = concat (map holding gs)"

definition finishing :: "runner list \<Rightarrow> nat" where
  "finishing gs = length (filter (\<lambda>g. snd (snd (snd g)) = AtDone) gs)"

definition flat :: "'w interleaved \<Rightarrow> 'w sched" where
  "flat x = (sys x)\<lparr>goroutines := held (runners x) @ goroutines (sys x)\<rparr>"

definition tasks_inv :: "'w interleaved \<Rightarrow> bool" where
  "tasks_inv x = inv_holding (finishing (runners x)) (flat x)"

lemma held_simps [simp]:
  "held [] = []" "held (g # gs) = holding g @ held gs" "held (gs @ hs) = held gs @ held hs"
  "finishing [] = 0" "finishing (gs @ hs) = finishing gs + finishing hs"
  "finishing ((k, tid, m, p) # gs) = (if p = AtDone then Suc (finishing gs) else finishing gs)"
  by (simp_all add: held_def finishing_def)

lemma flat_simps [simp]:
  "stor (flat x) = stor (sys x)" "world (flat x) = world (sys x)" "goroutines (flat x) = held (runners x) @ goroutines (sys x)"
  by (simp_all add: flat_def)

lemma length_held: "length (held gs) + finishing gs = length gs"
proof (induction gs)
  case (Cons g gs)
  obtain k tid m p where "g = (k, tid, m, p)" by (metis prod_cases4)
  with Cons show ?case by (cases p) simp_all
qed simp

lemma holding_single: "p \<noteq> AtDone \<Longrightarrow> \<exists>n. holding (k, tid, m, p) = [(k, tid, n)]"
  by (cases p) simp_all

text \<open>The order of the goroutines does not matter.\<close>

lemma inv_permuted:
  assumes "inv_holding n x" "mset gs = mset (goroutines x)"
  shows "inv_holding n (x\<lparr>goroutines := gs\<rparr>)"
proof (rule inv_holdingI)
  have l: "length gs = length (goroutines x)" by (metis assms(2) size_mset)
  have s: "set gs = set (goroutines x)" by (metis assms(2) set_mset_mset)
  have p: "places (x\<lparr>goroutines := gs\<rparr>) = places x" using assms(2) by (simp add: places_def started_def)
  show "list_all (goroutine_ok (stor (x\<lparr>goroutines := gs\<rparr>))) (goroutines (x\<lparr>goroutines := gs\<rparr>))"
    using inv_parts(8) [OF assms(1)] s by (simp add: list_all_iff)
  show "numActiveTasks (stor (x\<lparr>goroutines := gs\<rparr>)) = int (length (goroutines (x\<lparr>goroutines := gs\<rparr>)) + n)"
    using inv_parts(3) [OF assms(1)] l by simp
  show "set_mset (places (x\<lparr>goroutines := gs\<rparr>)) \<subseteq> {1 .. taskIdSeq (stor (x\<lparr>goroutines := gs\<rparr>))}"
    "count (places (x\<lparr>goroutines := gs\<rparr>)) tid \<le> 1" for tid
    using inv_parts(5,6) [OF assms(1)] by (simp_all only: p, simp_all)
qed (use inv_parts [OF assms(1)] in simp_all)

text \<open>The other steps do not look at the goroutines, and only add to them.\<close>

lemma execute_prefix:
  "executeDbTasks k i m tids (x\<lparr>goroutines := gs @ goroutines x\<rparr>) =
     (executeDbTasks k i m tids x)\<lparr>goroutines := gs @ goroutines (executeDbTasks k i m tids x)\<rparr>"
proof (induction tids arbitrary: i x)
  case (Cons tid tids)
  from Cons.IH [of "i + 1" "x\<lparr>stor := onDbTask False (update_db k (dequeue tid (heap (stor x) ! k)) (stor x)),
      goroutines := goroutines x @ [(k, tid, 0)]\<rparr>"] show ?case by (simp add: Let_def)
qed simp

lemma execute_open_prefix:
  "execute_open D tot qt ks (x\<lparr>goroutines := gs @ goroutines x\<rparr>) =
     (execute_open D tot qt ks x)\<lparr>goroutines := gs @ goroutines (execute_open D tot qt ks x)\<rparr>"
proof (induction ks arbitrary: x)
  case (Cons k ks)
  show ?case by (simp add: Let_def execute_prefix Cons.IH)
qed simp

lemma start_prefix:
  "start_tasks D (x\<lparr>goroutines := gs @ goroutines x\<rparr>) = (start_tasks D x)\<lparr>goroutines := gs @ goroutines (start_tasks D x)\<rparr>"
  by (simp add: start_tasks_def Let_def execute_open_prefix)

text \<open>What the routine does after it has started tasks, as a function of the storage before and after that.\<close>

lemma routine_form:
  fixes D :: "'w Driver"
  shows "\<exists>G. \<forall>x :: 'w sched. doRoutineScheduledTasks D now x =
    (start_tasks D x)\<lparr>stor := fst (G (stor x) (stor (start_tasks D x)) (world (start_tasks D x))),
      world := snd (G (stor x) (stor (start_tasks D x)) (world (start_tasks D x)))\<rparr>"
proof -
  define G where "G s s1 w1 =
     (let totalOpen = int (length (filter (\<lambda>k. isOpen (heap s ! k)) (dbs s)));
          openWithTasks = filter (\<lambda>k. isOpen (heap s ! k) \<and> ntasks s k > 0) (dbs s);
          openWithoutTask = filter (\<lambda>k. isOpen (heap s ! k) \<and> \<not> ntasks s k > 0) (dbs s);
          closedWithTasks = filter (\<lambda>k. \<not> isOpen (heap s ! k) \<and> ntasks s k > 0) (dbs s);
          c = close_idle D now (dbs s) (s1, w1, totalOpen, False);
          c = (if fst (snd (snd c)) > MaxOpenedDB (sconfig s) then close_over D now openWithoutTask c else c);
          c = (if fst (snd (snd c)) > MaxOpenedDB (sconfig s)
               then close_over D now (fewest_tasks (fst c) openWithTasks) c else c)
      in case c of (s, w, totalOpen, closedAny) \<Rightarrow>
           (let ks = fewest_tasks s closedWithTasks;
                (s, w) = (if totalOpen > MaxOpenedDB (sconfig s) then open_first D now ks s w
                          else open_all D now totalOpen ks s w)
            in (if closedAny then sort_lists s else s, w)))" for s s1 w1
  have "doRoutineScheduledTasks D now x =
    (start_tasks D x)\<lparr>stor := fst (G (stor x) (stor (start_tasks D x)) (world (start_tasks D x))),
      world := snd (G (stor x) (stor (start_tasks D x)) (world (start_tasks D x)))\<rparr>" for x :: "'w sched"
    unfolding doRoutineScheduledTasks_def G_def Let_def split_beta fst_conv snd_conv by (rule refl)
  then show ?thesis by blast
qed

lemma routine_prefix:
  "doRoutineScheduledTasks D now (x\<lparr>goroutines := gs @ goroutines x\<rparr>) =
     (doRoutineScheduledTasks D now x)\<lparr>goroutines := gs @ goroutines (doRoutineScheduledTasks D now x)\<rparr>"
proof -
  obtain G where G: "doRoutineScheduledTasks D now z =
      (start_tasks D z)\<lparr>stor := fst (G (stor z) (stor (start_tasks D z)) (world (start_tasks D z))),
        world := snd (G (stor z) (stor (start_tasks D z)) (world (start_tasks D z)))\<rparr>" for z :: "'a sched"
    using routine_form by blast
  show ?thesis by (simp add: G start_prefix)
qed

lemma event_prefix:
  assumes "\<And>g now. ev \<noteq> Exec g now"
  shows "sched_step D ev (x\<lparr>goroutines := gs @ goroutines x\<rparr>) =
     (sched_step D ev x)\<lparr>goroutines := gs @ goroutines (sched_step D ev x)\<rparr>"
  using assms by (cases ev) (auto simp: routine_prefix split: prod.splits sum.splits)

lemma other_flat:
  assumes "\<And>g now. ev \<noteq> Exec g now"
  shows "flat (task_step D (Other ev) x) = sched_step D ev (flat x)" "runners (task_step D (Other ev) x) = runners x"
proof -
  have t: "task_step D (Other ev) x = x\<lparr>sys := sched_step D ev (sys x)\<rparr>" using assms by (cases ev) auto
  show "runners (task_step D (Other ev) x) = runners x" unfolding t by simp
  show "flat (task_step D (Other ev) x) = sched_step D ev (flat x)"
    using event_prefix [OF assms, where x = "sys x" and gs = "held (runners x)" and D = D] by (simp only: t flat_def) simp
qed

subsection \<open>Every step keeps its place for each task\<close>

text \<open>What a step of a goroutine that holds its task leaves behind, next to \<open>n\<close> that hold none.\<close>

definition leaves :: "nat \<Rightarrow> runner option \<Rightarrow> 'w sched \<Rightarrow> bool" where
  "leaves n r y =
     (case r of None \<Rightarrow> False
      | Some (k, tid, m, p) \<Rightarrow>
          inv_holding (Suc n) y \<and> (p \<noteq> AtDone \<longrightarrow> holds n tid y \<and> list_all (goroutine_ok (stor y)) (holding (k, tid, m, p))))"

lemma holds_world: "holds n tid (x\<lparr>world := w\<rparr>) = holds n tid x"
  by (simp add: holds_def inv_world places_def)

lemma leaves_done: "holds n tid y \<Longrightarrow> leaves n (Some (k, tid, m, AtDone)) (y\<lparr>world := w\<rparr>)"
  by (simp add: leaves_def holds_def inv_world)

lemma leaves_held:
  "holds n tid y \<Longrightarrow> p \<noteq> AtDone \<Longrightarrow> list_all (goroutine_ok (stor y)) (holding (k, tid, m, p)) \<Longrightarrow>
     leaves n (Some (k, tid, m, p)) (y\<lparr>world := w\<rparr>)"
  by (simp add: leaves_def holds_world) (simp add: holds_def inv_world)

lemma exec_step_keeps:
  assumes H: "holds n tid y" and p: "p \<noteq> AtDone" and g: "list_all (goroutine_ok (stor y)) (holding (k, tid, m, p))"
    and e: "exec_step D now (k, tid, m, p) (stor y) (world y) = (r, s', w')"
  shows "leaves n r (y\<lparr>stor := s', world := w'\<rparr>)"
proof -
  have k: "k < length (heap (stor y))" using g p holding_single [OF p, of k tid m] by (auto simp: goroutine_ok_def)
  show ?thesis
  proof (cases p)
    case AtSwap
    let ?s = "upd_task tid (\<lambda>t. t\<lparr>state := task_process\<rparr>) (stor y)"
    show ?thesis
    proof (cases "tstate (stor y) tid = Some task_created")
      case True
      then have r: "r = Some (k, tid, m, AtOpenCheck)" "s' = ?s" "w' = world y"
        using e AtSwap cas_cases [of tid task_created task_process "stor y"] by auto
      have "tstate ?s tid = Some task_process" using True by (auto simp: tstate_def upd_task_def)
      with holds_upd [OF H, of "\<lambda>t. t\<lparr>state := task_process\<rparr>"] k show ?thesis
        unfolding r using leaves_held [of n tid "y\<lparr>stor := ?s\<rparr>" AtOpenCheck k m "world y"] by (simp add: goroutine_ok_def)
    next
      case False
      then have "r = Some (k, tid, m, AtDone)" "s' = stor y" "w' = world y"
        using e AtSwap cas_cases [of tid task_created task_process "stor y"] by auto
      with leaves_done [OF H, of k m "world y"] show ?thesis by simp
    qed
  next
    case AtOpenCheck
    with e g leaves_held [OF H, of _ k m w'] show ?thesis by auto
  next
    case AtCallback
    show ?thesis
    proof (cases "tasks (stor y) tid")
      case None
      with e AtCallback leaves_done [OF H, of k m "world y"] show ?thesis by auto
    next
      case (Some t)
      obtain r2 s2 w2 where cb: "run_callback D now k tid (taskCallback t) (stor y) (world y) = (r2, s2, w2)" by (metis prod_cases3)
      note h = holds_callback [OF H cb]
      have "r = Some (k, tid, m, case r2 of None \<Rightarrow> AtFinish | Some err \<Rightarrow> AtFailed err)" "s' = s2" "w' = w2"
        using e AtCallback Some cb by (auto split: option.splits)
      with leaves_held [OF h(1), of "case r2 of None \<Rightarrow> AtFinish | Some err \<Rightarrow> AtFailed err" k m w2] g AtCallback h(2,3)
      show ?thesis by (cases r2) (simp_all add: goroutine_ok_def)
    qed
  next
    case (AtFailed err)
    with e g leaves_held [OF H, of _ k _ w'] k show ?thesis by (auto simp: goroutine_ok_def)
  next
    case AtRequeue
    let ?s = "upd_task tid (\<lambda>t. t\<lparr>state := task_created\<rparr>) (stor y)"
    show ?thesis
    proof (cases "tstate (stor y) tid = Some task_process")
      case True
      then have r: "r = Some (k, tid, m, AtSchedule)" "s' = ?s" "w' = world y"
        using e AtRequeue cas_cases [of tid task_process task_created "stor y"] by auto
      have "tstate ?s tid = Some task_created" using True by (auto simp: tstate_def upd_task_def)
      with holds_upd [OF H, of "\<lambda>t. t\<lparr>state := task_created\<rparr>"] k show ?thesis
        unfolding r using leaves_held [of n tid "y\<lparr>stor := ?s\<rparr>" AtSchedule k m "world y"] by (simp add: goroutine_ok_def fresh_task_def)
    next
      case False
      then have "r = Some (k, tid, m, AtDone)" "s' = stor y" "w' = world y"
        using e AtRequeue cas_cases [of tid task_process task_created "stor y"] by auto
      with leaves_done [OF H, of k m "world y"] show ?thesis by simp
    qed
  next
    case AtSchedule
    then have r: "r = Some (k, tid, m, AtDone)" "s' = update_db k (db_schedule tid (heap (stor y) ! k)) (stor y)" "w' = world y"
      using e by simp_all
    have "inv_holding (Suc n) (y\<lparr>stor := s'\<rparr>)"
      unfolding r using H g AtSchedule k by (intro enqueue) (auto simp: holds_def goroutine_ok_def)
    then show ?thesis using inv_world [of "Suc n" w' "y\<lparr>stor := s'\<rparr>"] by (simp add: r(1) leaves_def)
  next
    case (AtError err)
    let ?f = "\<lambda>t. t\<lparr>taskOutput := (taskOutput t)\<lparr>OutError := Some err\<rparr>\<rparr>"
    have r: "r = Some (k, tid, m, AtFinish)" "s' = upd_task tid ?f (stor y)" "w' = world y" using e AtError by simp_all
    have "tstate s' tid = tstate (stor y) tid" by (simp add: r tstate_def upd_task_def option.map_comp comp_def)
    with holds_upd [OF H, of ?f] g k AtError show ?thesis
      using leaves_held [of n tid "y\<lparr>stor := s'\<rparr>" AtFinish k m "world y"] by (simp add: r goroutine_ok_def)
  next
    case AtFinish
    with e leaves_done [OF holds_cas [OF H, of task_process task_finished], of k m "world y"] show ?thesis by auto
  qed (use p in simp)
qed

lemma split_at: "i < length gs \<Longrightarrow> gs = take i gs @ gs ! i # drop (Suc i) gs"
  by (rule id_take_nth_drop)

text \<open>Taking a goroutine out of the system, and putting back what its step leaves.\<close>

lemma take_runner:
  assumes I: "tasks_inv x" and i: "i < length (runners x)" "runners x ! i = (k, tid, m, p)" "p \<noteq> AtDone"
    and b: "taskIdSeq (stor (sys x)) + int (finishing (runners x)) < 2 ^ 31 - 1"
    and y: "y = (sys x)\<lparr>goroutines := held (take i (runners x)) @ held (drop (Suc i) (runners x)) @ goroutines (sys x)\<rparr>"
  shows "holds (finishing (runners x)) tid y" "list_all (goroutine_ok (stor y)) (holding (k, tid, m, p))"
proof -
  let ?a = "take i (runners x)" and ?b = "drop (Suc i) (runners x)"
  obtain n where n: "holding (k, tid, m, p) = [(k, tid, n)]" using holding_single [OF i(3)] by blast
  have r: "runners x = ?a @ (k, tid, m, p) # ?b" using split_at [OF i(1)] i(2) by simp
  have h: "held (runners x) = held ?a @ (k, tid, n) # held ?b" by (subst r) (simp add: n)
  have g: "length (held ?a) < length (goroutines (flat x))" "goroutines (flat x) ! length (held ?a) = (k, tid, n)"
    by (simp_all add: h)
  have y': "y = (flat x)\<lparr>goroutines := take (length (held ?a)) (goroutines (flat x)) @ drop (Suc (length (held ?a))) (goroutines (flat x))\<rparr>"
    by (simp add: y h flat_def)
  note t = take_goroutine [OF I [unfolded tasks_inv_def] g y']
  show "list_all (goroutine_ok (stor y)) (holding (k, tid, m, p))" using t(4) by (simp add: n y)
  show "holds (finishing (runners x)) tid y" using t(1-3) b by (simp add: holds_def y)
qed

lemma put_runner:
  assumes l: "leaves (finishing (as @ bs)) r y" and y: "goroutines y = held as @ held bs @ gs"
    and x: "x' = \<lparr>sys = y\<lparr>goroutines := gs\<rparr>, runners = as @ (case r of None \<Rightarrow> [] | Some g \<Rightarrow> [g]) @ bs\<rparr>"
  shows "tasks_inv x'"
proof -
  obtain k tid m p where r: "r = Some (k, tid, m, p)" using l by (auto simp: leaves_def split: option.splits)
  show ?thesis
  proof (cases "p = AtDone")
    case True
    then have "flat x' = y" "finishing (runners x') = Suc (finishing (as @ bs))" using y by (simp_all add: x r flat_def)
    with l True show ?thesis by (simp add: tasks_inv_def leaves_def r)
  next
    case False
    obtain n where n: "holding (k, tid, m, p) = [(k, tid, n)]" using holding_single [OF False] by blast
    have H: "holds (finishing (as @ bs)) tid y" "goroutine_ok (stor y) (k, tid, n)"
      using l False by (simp_all add: leaves_def r n)
    have "inv_holding (finishing (as @ bs)) (y\<lparr>goroutines := goroutines y @ [(k, tid, n)]\<rparr>)"
      using H by (intro add_goroutine) (simp_all add: holds_def)
    from inv_permuted [OF this, of "held as @ (k, tid, n) # held bs @ gs"]
    have "inv_holding (finishing (as @ bs)) (y\<lparr>goroutines := held as @ (k, tid, n) # held bs @ gs\<rparr>)" by (simp add: y)
    with False show ?thesis by (simp add: tasks_inv_def flat_def x r n)
  qed
qed

lemma go_keeps:
  assumes I: "tasks_inv x" and b: "taskIdSeq (stor (sys x)) + int (finishing (runners x)) < 2 ^ 31 - 1"
  shows "tasks_inv (task_step D (Go i now) x)"
proof (cases "i < length (runners x)")
  case True
  obtain k tid m p where g: "runners x ! i = (k, tid, m, p)" by (metis prod_cases4)
  define as bs where "as = take i (runners x)" and "bs = drop (Suc i) (runners x)"
  have r: "runners x = as @ (k, tid, m, p) # bs" using split_at [OF True] g by (simp add: as_def bs_def)
  define y where "y = (sys x)\<lparr>goroutines := held as @ held bs @ goroutines (sys x)\<rparr>"
  obtain q s' w' where e: "exec_step D now (k, tid, m, p) (stor (sys x)) (world (sys x)) = (q, s', w')" by (metis prod_cases3)
  have x': "task_step D (Go i now) x = \<lparr>sys = (sys x)\<lparr>stor := s', world := w'\<rparr>, runners = as @ (case q of None \<Rightarrow> [] | Some g \<Rightarrow> [g]) @ bs\<rparr>"
    using True g e by (simp add: as_def bs_def)
  show ?thesis
  proof (cases "p = AtDone")
    case True
    then have q: "q = None" "s' = onDbTask True (stor (sys x))" "w' = world (sys x)" using e by simp_all
    have f: "finishing (runners x) = Suc (finishing (as @ bs))" by (simp add: r True)
    have "flat x = y" by (simp add: flat_def y_def r True)
    then have I': "inv_holding (Suc (finishing (as @ bs))) y" using I by (simp add: tasks_inv_def f)
    have "int (length (goroutines y)) \<le> taskIdSeq (stor (sys x))" using goroutines_bound [OF I'] by (simp add: y_def)
    then have "inv_holding (finishing (as @ bs)) (y\<lparr>stor := onDbTask True (stor y)\<rparr>)"
      using b by (intro release [OF I']) (simp add: f)
    then show ?thesis unfolding x' q by (cases "sys x") (simp add: tasks_inv_def flat_def y_def)
  next
    case False
    then have f: "finishing (runners x) = finishing (as @ bs)" by (simp add: r)
    note t = take_runner [OF I True g False b y_def [unfolded as_def bs_def]]
    have "leaves (finishing (as @ bs)) q (y\<lparr>stor := s', world := w'\<rparr>)"
      using exec_step_keeps [OF t(1) False t(2), of D now q s' w'] e by (simp add: f y_def)
    then show ?thesis unfolding x'
      by (rule put_runner [where gs = "goroutines (sys x)"]) (simp_all add: y_def)
  qed
qed (use I in simp)

lemma begin_keeps:
  assumes I: "tasks_inv x"
  shows "tasks_inv (task_step D (Begin g) x)"
proof (cases "g < length (goroutines (sys x))")
  case True
  obtain k tid m where g: "goroutines (sys x) ! g = (k, tid, m)" by (metis prod_cases3)
  define as bs where "as = take g (goroutines (sys x))" and "bs = drop (Suc g) (goroutines (sys x))"
  have gs: "goroutines (sys x) = as @ (k, tid, m) # bs" using split_at [OF True] g by (simp add: as_def bs_def)
  have x': "task_step D (Begin g) x = x\<lparr>sys := (sys x)\<lparr>goroutines := as @ bs\<rparr>, runners := runners x @ [(k, tid, m, AtSwap)]\<rparr>"
    using True g by (simp add: as_def bs_def)
  have "inv_holding (finishing (runners x)) ((flat x)\<lparr>goroutines := (held (runners x) @ [(k, tid, m)]) @ as @ bs\<rparr>)"
    using I by (intro inv_permuted) (simp_all add: tasks_inv_def gs)
  then show ?thesis unfolding x' by (simp add: tasks_inv_def flat_def)
qed (use I in simp)

context storage_moves begin

lemma exec_step_moves:
  assumes "exec_step D now g s w = (r, s', w')"
  shows "R s s'"
proof -
  obtain k tid m p where g: "g = (k, tid, m, p)" by (metis prod_cases4)
  show ?thesis
  proof (cases p)
    case AtCallback
    with assms show ?thesis
      by (auto simp: g same split: option.splits prod.splits dest: callback_moves)
  qed (use assms in \<open>auto simp: g same task active cas enqueue_moves split: prod.splits dest: cas_eq\<close>)
qed

lemma go_moves: "R (stor (sys x)) (stor (sys (task_step D (Go i now) x)))"
  by (auto simp: same split: prod.splits dest: exec_step_moves)

lemma begin_moves: "R (stor (sys x)) (stor (sys (task_step D (Begin g) x)))"
  by (simp add: same split: prod.splits)

end

lemma started_simps [simp]: "started [] = {#}" "started ((k, tid, n) # gs) = add_mset tid (started gs)"
  by (simp_all add: started_def)

context storage_steps begin

lemma task_step_moves: "R (stor (sys x)) (stor (sys (task_step D ev x)))"
proof (cases ev)
  case (Other e)
  then show ?thesis by (cases e) (simp_all add: same step_moves del: sched_step.simps)
qed (simp_all only: go_moves begin_moves)

lemma run_tasks_moves: "R (stor (sys x)) (stor (sys (run_tasks D evs x)))"
proof (induction evs arbitrary: x)
  case (Cons ev evs)
  from further [OF task_step_moves Cons.IH] show ?case by simp
qed (simp add: same)

end

lemma other_stor: "(\<And>g now. ev \<noteq> Exec g now) \<Longrightarrow> stor (sys (task_step D (Other ev) x)) = stor (sched_step D ev (flat x))"
  using other_flat(1) [of ev D x] by (metis flat_simps(1))

text \<open>Each step gives out at most one id for each database, and adds at most one goroutine that is done with its task.\<close>

definition room :: "nat \<Rightarrow> 'w interleaved \<Rightarrow> bool" where
  "room n x = (taskIdSeq (stor (sys x)) + int (finishing (runners x)) + int (Suc n * Suc (length (dbs (stor (sys x))))) < 2 ^ 31 - 1)"

lemma finishing_go: "finishing (runners (task_step D (Go i now) x)) \<le> Suc (finishing (runners x))"
proof (cases "i < length (runners x)")
  case True
  let ?a = "take i (runners x)" and ?b = "drop (Suc i) (runners x)"
  obtain q s w where e: "exec_step D now (runners x ! i) (stor (sys x)) (world (sys x)) = (q, s, w)" by (metis prod_cases3)
  have c: "finishing (g # gs) = (if snd (snd (snd g)) = AtDone then 1 else 0) + finishing gs" for g gs by (simp add: finishing_def)
  have "finishing (runners x) = finishing ?a + finishing (runners x ! i # ?b)"
    using arg_cong [OF split_at [OF True], of finishing] by (simp del: held_simps(6))
  then show ?thesis using True e by (cases q) (simp_all add: c del: held_simps(6))
qed simp

lemma room_next: "room (Suc n) x \<Longrightarrow> room n x"
  by (auto simp: room_def)

lemma task_step_keeps:
  assumes I: "tasks_inv x" and r: "room (Suc n) x"
  shows "tasks_inv (task_step D ev x)" "room n (task_step D ev x)"
proof -
  let ?s = "stor (sys x)" and ?x = "task_step D ev x"
  have "length (dbs ?s) + 2 \<le> Suc (Suc n) * Suc (length (dbs ?s))" by simp
  then have "int (length (dbs ?s)) + 2 \<le> int (Suc (Suc n) * Suc (length (dbs ?s)))" by linarith
  then have b: "taskIdSeq ?s + int (length (dbs ?s)) + int (finishing (runners x)) + 1 < 2 ^ 31 - 1"
    "taskIdSeq ?s + int (length (dbs ?s)) + 1 < 2 ^ 31 - 1" "taskIdSeq ?s + int (finishing (runners x)) < 2 ^ 31 - 1"
    using r unfolding room_def by linarith+
  have moved: "room n ?x" if "taskIdSeq (stor (sys ?x)) \<le> taskIdSeq ?s + int (length (dbs ?s))"
    "length (dbs (stor (sys ?x))) \<le> length (dbs ?s)" "finishing (runners ?x) \<le> Suc (finishing (runners x))"
  proof -
    have "Suc n * Suc (length (dbs (stor (sys ?x)))) + Suc (length (dbs ?s)) \<le> Suc (Suc n) * Suc (length (dbs ?s))"
      using that(2) mult_le_mono2 [of "Suc (length (dbs (stor (sys ?x))))" "Suc (length (dbs ?s))" "Suc n"] by simp
    then have "int (Suc n * Suc (length (dbs (stor (sys ?x))))) + int (Suc (length (dbs ?s))) \<le> int (Suc (Suc n) * Suc (length (dbs ?s)))"
      by linarith
    with that r show ?thesis unfolding room_def by linarith
  qed
  have "tasks_inv ?x \<and> room n ?x"
  proof (cases ev)
    case (Other e)
    show ?thesis
    proof (cases "\<exists>g now. e = Exec g now")
      case True
      with Other I room_next [OF r] show ?thesis by auto
    next
      case False
      then have e: "\<And>g now. e \<noteq> Exec g now" by blast
      note f = other_flat [OF e, of D x]
      have "inv_holding (finishing (runners x)) (sched_step D e (flat x))"
        using event_keeps [OF I [unfolded tasks_inv_def] _ e] b(1) by simp
      moreover have "grows ?s (stor (sys ?x))"
        using step_grows [OF I [unfolded tasks_inv_def], of D e] b(2) Other f(1) by (metis flat_simps(1))
      ultimately show ?thesis using f Other by (intro conjI moved) (simp_all add: tasks_inv_def grows_def del: task_step.simps)
    qed
  next
    case (Begin g)
    have "same_ids ?s (stor (sys ?x))" unfolding Begin by (rule ids.begin_moves)
    moreover have "finishing (runners ?x) = finishing (runners x)" by (simp add: Begin split: prod.splits)
    ultimately show ?thesis using begin_keeps [OF I, of D g] Begin by (intro conjI moved) (simp_all add: same_ids_def del: task_step.simps)
  next
    case (Go i now)
    have "same_ids ?s (stor (sys ?x))" unfolding Go by (rule ids.go_moves)
    with go_keeps [OF I b(3), of D i now] finishing_go [of D i now x] Go show ?thesis
      by (intro conjI moved) (simp_all add: same_ids_def del: task_step.simps)
  qed
  then show "tasks_inv ?x" "room n ?x" by simp_all
qed

lemma run_tasks_keeps:
  "tasks_inv x \<Longrightarrow> room (length evs + n) x \<Longrightarrow> tasks_inv (run_tasks D evs x) \<and> room n (run_tasks D evs x)"
proof (induction evs arbitrary: x)
  case (Cons ev evs)
  have r: "room (Suc (length evs + n)) x" using Cons.prems(2) by simp
  from Cons.IH [OF task_step_keeps [OF Cons.prems(1) r]] show ?case by simp
qed simp

lemma start_keeps:
  assumes "New D cfg files now w = (Inr s, w')"
  shows "tasks_inv (at_start s w')" "taskIdSeq s = 0"
  using New_sound [OF assms] by (simp_all add: tasks_inv_def at_start_def flat_def sched_inv_def)

lemma start_room:
  assumes "New D cfg files now w = (Inr s, w')" "Suc n * Suc (length (dbs s)) < 2 ^ 31 - 1"
  shows "room n (at_start s w')"
proof -
  have "int (Suc n * Suc (length (dbs s))) < int (2 ^ 31 - 1)" using assms(2) by (simp only: of_nat_less_iff)
  then show ?thesis using start_keeps(2) [OF assms(1)] by (simp add: room_def at_start_def)
qed

lemma tasks_inv_start:
  assumes "New D cfg files now w = (Inr s, w')" "Suc (length evs) * Suc (length (dbs s)) < 2 ^ 31 - 1"
  shows "tasks_inv (run_tasks D evs (at_start s w'))"
  using run_tasks_keeps [OF start_keeps(1) [OF assms(1)], of evs 0 D] start_room [OF assms] by simp

end
