(* ===== verification/TaskProperties.thy ===== *)
theory TaskProperties imports TaskSteps begin

text \<open>
  What can be relied on when anything can happen between the steps of \<^verbatim>\<open>exec\<close>: who works on a task,
  where a task waits, what becomes of one whose database is closed meanwhile or whose query fails, and what
  \<^verbatim>\<open>Result\<close> hands out.
\<close>

subsection \<open>What can be relied on between the steps\<close>

definition task_ids :: "(nat \<times> int \<times> nat) list \<Rightarrow> int list" where
  "task_ids gs = map (\<lambda>(k, tid, n). tid) gs"

lemma task_ids_simps [simp]:
  "task_ids [] = []" "task_ids ((k, tid, n) # gs) = tid # task_ids gs" "task_ids (gs @ hs) = task_ids gs @ task_ids hs"
  by (simp_all add: task_ids_def)

text \<open>
  C15 (invariant). However the goroutines and everything else interleave: no two goroutines work on the same task,
  no task that one of them works on waits in the queue of a database, no task waits in two queues, and
  the count of running tasks is the number of goroutines.
\<close>

theorem one_goroutine_per_task:
  assumes "New D cfg files now w = (Inr s, w')" "Suc (length evs) * Suc (length (dbs s)) < 2 ^ 31 - 1"
    and "x = run_tasks D evs (at_start s w')"
  shows "distinct (concat (map dbTasks (heap (stor (sys x)))) @ task_ids (held (runners x) @ goroutines (sys x))) \<and>
    numActiveTasks (stor (sys x)) = int (length (runners x) + length (goroutines (sys x)))"
proof (rule conjI)
  have I: "inv_holding (finishing (runners x)) (flat x)"
    using tasks_inv_start [OF assms(1,2)] by (simp add: tasks_inv_def assms(3))
  have w: "mset (concat (map dbTasks hs)) = waiting hs" for hs by (induction hs) simp_all
  have "mset (concat (map dbTasks (heap (stor (sys x)))) @ task_ids (held (runners x) @ goroutines (sys x))) = places (flat x)"
    by (simp add: places_def started_def task_ids_def w)
  then show "distinct (concat (map dbTasks (heap (stor (sys x)))) @ task_ids (held (runners x) @ goroutines (sys x)))"
    using inv_parts(5) [OF I] by (intro distinct_mset_le) simp
  show "numActiveTasks (stor (sys x)) = int (length (runners x) + length (goroutines (sys x)))"
    using inv_parts(3) [OF I] length_held [of "runners x"] by simp
qed

theorem one_goroutine_per_task_witness:
  "\<exists>s x. New quietDriver zeroConfig [] 7 () = (Inr s, ()) \<and>
     x = run_tasks quietDriver [Other (AskTicks ticksIn 8), Other (Routine 9), Begin 0, Go 0 9, Other (Routine 50), Go 0 51] (at_start s ()) \<and>
     distinct (concat (map dbTasks (heap (stor (sys x)))) @ task_ids (held (runners x) @ goroutines (sys x)))"
proof -
  let ?evs = "[Other (AskTicks ticksIn 8), Other (Routine 9), Begin 0, Go 0 9, Other (Routine 50), Go 0 51]"
  obtain s where s: "New quietDriver zeroConfig [] 7 () = (Inr s, ())" using New_quiet by blast
  have "Suc (length ?evs) * Suc (length (dbs s)) < 2 ^ 31 - 1" using New_quiet_dbs [OF s] by simp
  from one_goroutine_per_task [OF s this refl] s show ?thesis by blast
qed

text \<open>
  C12 (safety). The live database is never closed while the storage runs: not by the routine that closes idle
  databases, not by the limit on open ones, not by the size check, at whatever points of \<^verbatim>\<open>exec\<close> the task
  goroutines are meanwhile.
\<close>

theorem live_db_never_closes:
  assumes "k < length (heap (stor (sys x)))" "live (heap (stor (sys x)) ! k)" "isOpen (heap (stor (sys x)) ! k)"
  shows "live (heap (stor (sys (run_tasks D evs x))) ! k) \<and> isOpen (heap (stor (sys (run_tasks D evs x))) ! k)"
  using opened.run_tasks_moves [of x D evs] assms by (simp add: stays_def)

theorem live_db_never_closes_witness:
  "isOpen (heap (stor (sys (run_tasks quietDriver [Other (Routine 1000), Go 0 1000, Other (SizeCheck (at_sec 2000))]
     \<lparr>sys = liveAndIdle, runners = [(0, 1, 0, AtCallback)]\<rparr>))) ! 1)"
  using live_db_never_closes [of 1 "\<lparr>sys = liveAndIdle, runners = [(0, 1, 0, AtCallback)]\<rparr>" quietDriver
      "[Other (Routine 1000), Go 0 1000, Other (SizeCheck (at_sec 2000))]"]
  by (simp add: liveAndIdle_def storageOf_def openDb_def isOpen_def)

text \<open>A step of a goroutine changes its own task only.\<close>

lemma exec_step_others:
  assumes "exec_step D now (k, tid, m, p) s w = (r, s', w')" "i \<noteq> tid"
  shows "tasks s' i = tasks s i"
proof (cases p)
  case AtSwap
  with assms show ?thesis using cas_other [OF assms(2), of task_created task_process s] by (auto split: prod.splits)
next
  case AtRequeue
  with assms show ?thesis using cas_other [OF assms(2), of task_process task_created s] by (auto split: prod.splits)
next
  case AtCallback
  have "tasks s' i = tasks s i" if c: "run_callback D now k tid cb s w = (e, s', w')" for e cb
    using callback_form [OF c] assms(2) by auto
  with assms AtCallback show ?thesis by (auto split: option.splits prod.splits)
qed (use assms cas_other [OF assms(2), of task_process task_finished s] in auto)

text \<open>A goroutine that works on a task sees it in a state that is not finished.\<close>

lemma working_state:
  assumes "inv_holding n x" "(k, tid, m) \<in> set (goroutines x)"
  shows "tstate (stor x) tid \<noteq> Some task_finished"
  using inv_parts(8) [OF assms(1)] assms(2) by (auto simp: list_all_iff goroutine_ok_def fresh_task_def split: if_splits)

lemma room_event:
  assumes "room (Suc n) x"
  shows "taskIdSeq (stor (flat x)) + int (length (dbs (stor (flat x)))) + 1 < 2 ^ 31 - 1"
proof -
  have "length (dbs (stor (sys x))) + 2 \<le> Suc (Suc n) * Suc (length (dbs (stor (sys x))))" by simp
  then have "int (length (dbs (stor (sys x)))) + 2 \<le> int (Suc (Suc n) * Suc (length (dbs (stor (sys x)))))" by linarith
  with assms show ?thesis unfolding room_def flat_simps by linarith
qed

lemma step_finished:
  assumes I: "tasks_inv x" and r: "room (Suc n) x" and t: "tasks (stor (sys x)) tid = Some t" "state t = task_finished"
    and ev: "ev \<noteq> Other (AskCancel tid)"
  shows "tasks (stor (sys (task_step D ev x))) tid = Some t"
proof (cases ev)
  case (Other e)
  show ?thesis
  proof (cases "\<exists>g now. e = Exec g now")
    case True
    with Other t show ?thesis by auto
  next
    case False
    then have e: "\<And>g now. e \<noteq> Exec g now" by blast
    note room_event [OF r]
    from step_advances [OF I [unfolded tasks_inv_def] this, of e tid D] ev Other
    have "advances tid (stor (sys x)) (stor (sched_step D e (flat x)))" by simp
    then show ?thesis unfolding Other other_stor [OF e] using t by (auto simp: advances_def)
  qed
next
  case (Begin g)
  with t show ?thesis by (auto split: prod.splits)
next
  case (Go i now)
  show ?thesis
  proof (cases "i < length (runners x)")
    case True
    obtain k j m p where g: "runners x ! i = (k, j, m, p)" by (metis prod_cases4)
    obtain q s' w' where e: "exec_step D now (k, j, m, p) (stor (sys x)) (world (sys x)) = (q, s', w')" by (metis prod_cases3)
    have x': "stor (sys (task_step D ev x)) = s'" using True g e Go by simp
    show ?thesis
    proof (cases "p = AtDone")
      case True
      with e t show ?thesis unfolding x' by auto
    next
      case False
      obtain h where h: "holding (k, j, m, p) = [(k, j, h)]" using holding_single [OF False] by blast
      have "(k, j, h) \<in> set (goroutines (flat x))"
        using g True h nth_mem [OF True] by (force simp: held_def)
      then have "j \<noteq> tid" using working_state [OF I [unfolded tasks_inv_def]] t by (auto simp: tstate_def)
      with exec_step_others [OF e, of tid] t show ?thesis unfolding x' by simp
    qed
  qed (use Go t in simp)
qed

text \<open>
  C16 (safety). Once a task is finished neither its state nor its output changes, unless it is canceled: the
  goroutine that finished it and all others leave it alone, so \<^verbatim>\<open>Result\<close> hands out what the query found.
\<close>

theorem finished_output_is_final:
  assumes "tasks_inv x" "room (length evs) x" "tasks (stor (sys x)) tid = Some t" "state t = task_finished"
    and "Other (AskCancel tid) \<notin> set evs"
  shows "tasks (stor (sys (run_tasks D evs x))) tid = Some t"
  using assms
proof (induction evs arbitrary: x)
  case (Cons ev evs)
  note r = Cons.prems(2) [unfolded length_Cons]
  from Cons.prems(5) have "ev \<noteq> Other (AskCancel tid)" "Other (AskCancel tid) \<notin> set evs" by auto
  from Cons.IH [OF task_step_keeps [OF Cons.prems(1) r] step_finished [OF Cons.prems(1) r Cons.prems(3,4) this(1)] Cons.prems(4) this(2)]
  show ?case by simp
qed simp

text \<open>One open database and a goroutine that has just finished the task 1.\<close>

definition justFinished :: "unit interleaved" where
  "justFinished =
     \<lparr>sys = \<lparr>stor = (storageOf [openDb 1])\<lparr>taskIdSeq := 1,
               tasks := [1 \<mapsto> queuedTask\<lparr>state := task_finished, taskOutput := zeroOutput\<lparr>Entries := [(8, 0, 4, ''x'')]\<rparr>\<rparr>],
               taskMap := [1], numActiveTasks := 1\<rparr>,
             world = (), goroutines = []\<rparr>,
      runners = [(0, 1, 0, AtDone)]\<rparr>"

lemma justFinished_sound: "tasks_inv justFinished"
proof -
  have "inv_holding (Suc 0) (flat justFinished)"
  proof (rule inv_holdingI)
    have p: "places (flat justFinished) = {#}" "waiting (heap (stor (flat justFinished))) = {#}"
      by (simp_all add: places_def justFinished_def storageOf_def openDb_def newDb_def started_def)
    show "count (places (flat justFinished)) i \<le> 1" "set_mset (places (flat justFinished)) \<subseteq> {1 .. taskIdSeq (stor (flat justFinished))}" for i
      unfolding p by simp_all
    show "fresh_task (stor (flat justFinished)) i" if "i \<in># waiting (heap (stor (flat justFinished)))" for i
      using that unfolding p(2) by simp
  qed (auto simp: justFinished_def storageOf_def storage_inv_def openDb_def newDb_def isOpen_def counted_def queuedTask_def new_task_def
      split: if_splits)
  then show ?thesis by (simp add: tasks_inv_def) (simp add: justFinished_def)
qed

theorem finished_output_is_final_witness:
  "Entries (taskOutput (the (tasks (stor (sys (run_tasks quietDriver [Other (Routine 9), Go 0 10, Other (AskCancel 2)] justFinished))) 1)))
     = [(8, 0, 4, ''x'')]"
  using finished_output_is_final [OF justFinished_sound, of "[Other (Routine 9), Go 0 10, Other (AskCancel 2)]" 1 _ quietDriver]
  by (simp add: justFinished_def storageOf_def room_def zeroOutput_def)

subsection \<open>No task is lost before it is run\<close>

definition placed :: "'w sched \<Rightarrow> bool" where
  "placed x = (\<forall>tid. tstate (stor x) tid = Some task_created \<longrightarrow> tid \<in># places x)"

lemma waiting_set: "set_mset (waiting hs) = (\<Union>d \<in> set hs. set (dbTasks d))"
  by (induction hs) auto

lemma waiting_nth: "i \<in># waiting hs \<longleftrightarrow> (\<exists>k < length hs. i \<in> set (dbTasks (hs ! k)))"
  by (auto simp: waiting_set set_conv_nth)

lemma quiet_placed:
  assumes "quiet (stor x) s'" "placed x"
  shows "placed (x\<lparr>stor := s', world := w\<rparr>)"
proof -
  have "waiting (heap s') = waiting (heap (stor x))" using assms(1) by (intro waiting_same) (simp add: quiet_def)
  with quiet_tstate [OF assms(1)] assms(2) show ?thesis by (simp add: placed_def places_def)
qed

text \<open>Starting tasks moves them from the queues to the goroutines.\<close>

lemma dequeue_waiting: "set_mset (waiting hs) \<subseteq> insert tid (set_mset (waiting (hs[k := dequeue tid (hs ! k)])))"
proof
  fix i assume "i \<in># waiting hs"
  then obtain j where j: "j < length hs" "i \<in> set (dbTasks (hs ! j))" by (auto simp: waiting_nth)
  then have "i \<noteq> tid \<Longrightarrow> i \<in> set (dbTasks (hs[k := dequeue tid (hs ! k)] ! j))"
    by (cases "j = k") (simp_all add: dequeue_def)
  with j(1) show "i \<in> insert tid (set_mset (waiting (hs[k := dequeue tid (hs ! k)])))" by (auto simp: waiting_nth)
qed

lemma schedule_waiting:
  "set_mset (waiting hs) \<subseteq> set_mset (waiting (hs[k := db_schedule tid (hs ! k)]))"
  "k < length hs \<Longrightarrow> tid \<in># waiting (hs[k := db_schedule tid (hs ! k)])"
proof -
  show "set_mset (waiting hs) \<subseteq> set_mset (waiting (hs[k := db_schedule tid (hs ! k)]))"
  proof
    fix i assume "i \<in># waiting hs"
    then obtain j where j: "j < length hs" "i \<in> set (dbTasks (hs ! j))" by (auto simp: waiting_nth)
    then have "i \<in> set (dbTasks (hs[k := db_schedule tid (hs ! k)] ! j))"
      by (cases "j = k") (simp_all add: db_schedule_def)
    with j(1) show "i \<in># waiting (hs[k := db_schedule tid (hs ! k)])" by (auto simp: waiting_nth)
  qed
  assume "k < length hs"
  then show "tid \<in># waiting (hs[k := db_schedule tid (hs ! k)])"
    unfolding waiting_nth by (intro exI [of _ k]) (simp add: db_schedule_def)
qed

lemma execute_places: "set_mset (places x) \<subseteq> set_mset (places (executeDbTasks k i m tids x))"
proof (induction tids arbitrary: i x)
  case (Cons tid tids)
  define x' where "x' = x\<lparr>stor := onDbTask False (update_db k (dequeue tid (heap (stor x) ! k)) (stor x)),
      goroutines := goroutines x @ [(k, tid, 0)]\<rparr>"
  have "set_mset (places x) \<subseteq> set_mset (places x')"
    using dequeue_waiting [of "heap (stor x)" tid k] by (auto simp: x'_def places_def started_append update_db_def)
  with Cons.IH [of x' "i + 1"] show ?case by (auto simp: Let_def x'_def [symmetric])
qed simp

lemma execute_open_places: "set_mset (places x) \<subseteq> set_mset (places (execute_open D tot qt ks x))"
proof (induction ks arbitrary: x)
  case (Cons k ks)
  let ?x = "executeDbTasks k 0 (max 1 (i32 (ntasks (stor x) k sdiv tot * qt))) (range_order D (world x) (dbTasks (heap (stor x) ! k))) x"
  from Cons.IH [of x] subset_trans [OF execute_places Cons.IH [of ?x]] show ?case by (auto simp: Let_def)
qed simp

lemma routine_placed:
  assumes "placed x"
  shows "placed (doRoutineScheduledTasks D now x)"
proof -
  obtain s w where r: "doRoutineScheduledTasks D now x = (start_tasks D x)\<lparr>stor := s, world := w\<rparr>" "quiet (stor (start_tasks D x)) s"
    using routine_quiet [of D now x] by (elim exE conjE)
  have "set_mset (places x) \<subseteq> set_mset (places (start_tasks D x))" "tasks (stor (start_tasks D x)) = tasks (stor x)"
    using execute_open_places [of x] by (simp_all add: start_tasks_def Let_def execute_open_tasks)
  then have "placed (start_tasks D x)" using assms by (auto simp: placed_def tstate_def)
  from quiet_placed [OF r(2) this] show ?thesis unfolding r(1) .
qed

lemma schedule_placed:
  "placed x \<Longrightarrow> (\<And>k. k \<in> set ks \<Longrightarrow> k < length (heap (stor x))) \<Longrightarrow> placed (x\<lparr>stor := snd (storage_schedule ks cb (stor x))\<rparr>)"
proof (induction ks arbitrary: x)
  case (Cons k ks)
  define tid where "tid = i32 (taskIdSeq (stor x) + 1)"
  define s1 where "s1 = (stor x)\<lparr>taskIdSeq := tid, tasks := (tasks (stor x))(tid \<mapsto> new_task cb), taskMap := List.insert tid (taskMap (stor x))\<rparr>"
  define s2 where "s2 = update_db k (db_schedule tid (heap s1 ! k)) s1"
  have k: "k < length (heap (stor x))" using Cons.prems(2) by simp
  have h: "heap s2 = (heap (stor x))[k := db_schedule tid (heap (stor x) ! k)]" by (simp add: s2_def s1_def update_db_def)
  have "set_mset (waiting (heap (stor x))) \<subseteq> set_mset (waiting (heap s2))" "tid \<in># waiting (heap s2)"
    unfolding h using schedule_waiting k by blast+
  moreover have "tstate s2 i = tstate (stor x) i" if "i \<noteq> tid" for i using that by (simp add: s2_def s1_def tstate_def)
  ultimately have "i \<in># waiting (heap s2) \<or> i \<in># started (goroutines x)" if "tstate s2 i = Some task_created" for i
    using that Cons.prems(1) by (cases "i = tid") (auto simp: placed_def places_def)
  then have "placed (x\<lparr>stor := s2\<rparr>)" by (simp add: placed_def places_def)
  moreover have "snd (storage_schedule (k # ks) cb (stor x)) = snd (storage_schedule ks cb s2)"
    by (simp add: Let_def split_beta s2_def s1_def tid_def)
  ultimately show ?case using Cons.IH [of "x\<lparr>stor := s2\<rparr>"] Cons.prems(2) by (simp add: h)
qed simp

lemma asks_placed:
  assumes I: "inv_holding n x" and p: "placed x" and a: "asks (stor x) s'"
  shows "placed (x\<lparr>stor := s', world := w\<rparr>)"
proof -
  obtain s1 cs cb where s1: "quiet (stor x) s1" "set cs \<subseteq> set (dbs (stor x))" "s' = snd (storage_schedule cs cb s1)"
    using a unfolding asks_def by blast
  have "k < length (heap s1)" if "k \<in> set cs" for k
    using that s1(1,2) inv_index [OF I] by (fastforce simp: quiet_def heap_moves_def)
  from schedule_placed [OF quiet_placed [OF s1(1) p, of w], of cs cb] this s1(3) show ?thesis
    by (cases x) simp
qed

lemma event_placed:
  assumes I: "inv_holding n x" and p: "placed x" and ev: "\<And>g now. ev \<noteq> Exec g now"
  shows "placed (sched_step D ev x)"
proof (cases ev)
  case (Routine now)
  with routine_placed [OF p] show ?thesis by simp
next
  case (AskEntries input now)
  then show ?thesis by (auto split: prod.splits dest!: entries_asks intro: asks_placed [OF I p])
next
  case (AskTicks input now)
  then show ?thesis by (auto split: prod.splits dest!: ticks_asks intro: asks_placed [OF I p])
next
  case (AskResult tid)
  with p show ?thesis by (auto simp: storage_Result_def placed_def tstate_def places_def split: option.splits)
next
  case (AskCancel tid)
  show ?thesis
  proof (cases "loaded tid (stor x)")
    case (Some t)
    then have t: "tasks (stor x) tid = Some t" by (simp add: loaded_def split: if_splits)
    then have "taskDb t = None" using inv_parts(9) [OF I] by blast
    then have c: "snd (storage_Cancel tid (stor x)) = upd_task tid (\<lambda>t. t\<lparr>state := task_canceled\<rparr>) (stor x)"
      using Some by (simp add: storage_Cancel_def Let_def)
    show ?thesis using p AskCancel by (simp add: c placed_def places_def tstate_upd t)
  qed (use p AskCancel in \<open>simp add: storage_Cancel_def\<close>)
next
  case (FlushChunk c)
  with p show ?thesis by (auto split: sum.splits intro: quiet_placed Flush_quiet)
next
  case (SizeCheck now)
  with p show ?thesis by (auto split: sum.splits intro: quiet_placed size_check_quiet)
next
  case WalCheckpoint
  with p show ?thesis by (simp add: placed_def places_def)
qed (use ev in simp)

lemma cas_heap: "cas_state tid old new s = (b, s') \<Longrightarrow> heap s' = heap s"
  using heap_simps(3) [of tid old new s] by simp

text \<open>What a goroutine's step does to the queues and to its own task.\<close>

lemma exec_step_waiting:
  assumes "exec_step D now (k, tid, m, p) s w = (r, s', w')"
  shows "set_mset (waiting (heap s)) \<subseteq> set_mset (waiting (heap s'))"
proof (cases p)
  case AtCallback
  have "set_mset (waiting (heap s)) \<subseteq> set_mset (waiting (heap s'))" if "run_callback D now k tid cb s w = (e, s', w')" for e cb
  proof -
    from callback_form [OF that] obtain d where d: "db_move (heap s ! k) d" "heap s' = heap (update_db k d s)" by auto
    from quiet_update [of k s d] d have "heap_moves (heap s) (heap s')" by (simp add: quiet_def)
    from waiting_same [OF this] show ?thesis by simp
  qed
  with assms AtCallback show ?thesis by (auto split: option.splits prod.splits)
next
  case AtSchedule
  with assms schedule_waiting(1) [of "heap s" k tid] show ?thesis by (auto simp: update_db_def)
qed (use assms in \<open>auto split: prod.splits dest: cas_heap\<close>)

text \<open>A task that is created after the step of its goroutine is still held by it, or waits in a queue.\<close>

lemma exec_step_placed:
  assumes e: "exec_step D now (k, tid, m, p) s w = (r, s', w')" and p: "p \<noteq> AtDone"
    and g: "list_all (goroutine_ok s) (holding (k, tid, m, p))" and c: "tstate s' tid = Some task_created"
  shows "tid \<in># waiting (heap s') \<or> (\<exists>m' p'. r = Some (k, tid, m', p') \<and> p' \<noteq> AtDone)"
proof (cases p)
  case AtSwap
  show ?thesis
  proof (rule disjCI)
    assume "\<not> (\<exists>m' p'. r = Some (k, tid, m', p') \<and> p' \<noteq> AtDone)"
    with e AtSwap have "s' = s \<and> tstate s tid \<noteq> Some task_created"
      using cas_cases [of tid task_created task_process s] by auto
    with c show "tid \<in># waiting (heap s')" by simp
  qed
next
  case AtCallback
  with e c show ?thesis by (auto simp: tstate_def split: option.splits prod.splits)
next
  case AtRequeue
  with g have "tstate s tid \<noteq> Some task_created" by (auto simp: goroutine_ok_def)
  with e AtRequeue c show ?thesis using cas_cases [of tid task_process task_created s] by auto
next
  case AtSchedule
  with g have "k < length (heap s)" by (simp add: goroutine_ok_def)
  with e AtSchedule schedule_waiting(2) [of k "heap s" tid] show ?thesis by (auto simp: update_db_def)
next
  case AtFinish
  with g have "tstate s tid \<noteq> Some task_created" by (auto simp: goroutine_ok_def)
  with e AtFinish c show ?thesis using cas_cases [of tid task_process task_finished s] by (auto simp: tstate_upd tstate_def)
qed (use e p in \<open>auto split: if_splits\<close>)

lemma go_placed:
  assumes I: "tasks_inv x" and p: "placed (flat x)" and b: "taskIdSeq (stor (sys x)) + int (finishing (runners x)) < 2 ^ 31 - 1"
  shows "placed (flat (task_step D (Go i now) x))"
proof (cases "i < length (runners x)")
  case True
  obtain k tid m q where g: "runners x ! i = (k, tid, m, q)" by (metis prod_cases4)
  define as bs where "as = take i (runners x)" and "bs = drop (Suc i) (runners x)"
  have r: "runners x = as @ (k, tid, m, q) # bs" using split_at [OF True] g by (simp add: as_def bs_def)
  obtain o' s' w' where e: "exec_step D now (k, tid, m, q) (stor (sys x)) (world (sys x)) = (o', s', w')" by (metis prod_cases3)
  have x': "task_step D (Go i now) x = \<lparr>sys = (sys x)\<lparr>stor := s', world := w'\<rparr>, runners = as @ (case o' of None \<Rightarrow> [] | Some g \<Rightarrow> [g]) @ bs\<rparr>"
    using True g e by (simp add: as_def bs_def)
  let ?rest = "started (held as) + started (held bs) + started (goroutines (sys x))"
  have before: "places (flat x) = waiting (heap (stor (sys x))) + started (holding (k, tid, m, q)) + ?rest"
    by (simp add: places_def r started_append)
  have after: "places (flat (task_step D (Go i now) x)) =
      waiting (heap s') + started (held (case o' of None \<Rightarrow> [] | Some g \<Rightarrow> [g])) + ?rest"
    unfolding x' by (simp add: places_def started_append)
  show ?thesis
  proof (cases "q = AtDone")
    case True
    then have "o' = None" "s' = onDbTask True (stor (sys x))" using e by simp_all
    with p show ?thesis unfolding placed_def before after by (simp add: x' True started_def tstate_def del: task_step.simps)
  next
    case False
    note t = take_runner [OF I True g False b refl]
    obtain h where h: "holding (k, tid, m, q) = [(k, tid, h)]" using holding_single [OF False] by blast
    have "j \<in># waiting (heap s') + started (held (case o' of None \<Rightarrow> [] | Some g \<Rightarrow> [g])) + ?rest"
      if c: "tstate s' j = Some task_created" for j
    proof (cases "j = tid")
      case True
      have "tid \<in># waiting (heap s') \<or> (\<exists>m' p'. o' = Some (k, tid, m', p') \<and> p' \<noteq> AtDone)"
        using exec_step_placed [OF e False] t(2) c True by simp
      then show ?thesis
      proof (elim disjE exE conjE)
        fix m' p' assume o': "o' = Some (k, tid, m', p')" "p' \<noteq> AtDone"
        from holding_single [OF o'(2), of k tid m'] show ?thesis by (auto simp: o'(1) True)
      qed (simp add: True)
    next
      case other: False
      have "tstate (stor (sys x)) j = Some task_created"
        using c exec_step_others [OF e other] by (simp add: tstate_def)
      with p have "j \<in># places (flat x)" by (simp add: placed_def)
      with other exec_step_waiting [OF e] show ?thesis by (auto simp: before h)
    qed
    then show ?thesis unfolding placed_def after by (simp add: x' del: task_step.simps)
  qed
qed (use p in simp)

lemma begin_placed:
  assumes "placed (flat x)"
  shows "placed (flat (task_step D (Begin g) x))"
proof (cases "g < length (goroutines (sys x))")
  case True
  obtain k tid m where g: "goroutines (sys x) ! g = (k, tid, m)" by (metis prod_cases3)
  have gs: "goroutines (sys x) = take g (goroutines (sys x)) @ (k, tid, m) # drop (Suc g) (goroutines (sys x))"
    using split_at [OF True] g by simp
  have "started (goroutines (sys x)) = started (take g (goroutines (sys x)) @ drop (Suc g) (goroutines (sys x))) + {#tid#}"
    by (subst gs) (simp add: started_def)
  with assms True g show ?thesis by (simp add: placed_def places_def started_append)
qed (use assms in simp)

lemma task_step_placed:
  assumes I: "tasks_inv x" and r: "room (Suc n) x" and p: "placed (flat x)"
  shows "placed (flat (task_step D ev x))"
proof (cases ev)
  case (Other e)
  show ?thesis
  proof (cases "\<exists>g now. e = Exec g now")
    case True
    with Other p show ?thesis by auto
  next
    case False
    then have e: "\<And>g now. e \<noteq> Exec g now" by blast
    show ?thesis unfolding Other other_flat(1) [OF e] by (rule event_placed [OF I [unfolded tasks_inv_def] p e])
  qed
next
  case (Go i now)
  have "0 \<le> int (Suc (Suc n) * Suc (length (dbs (stor (sys x)))))" by (rule of_nat_0_le_iff)
  with r have "taskIdSeq (stor (sys x)) + int (finishing (runners x)) < 2 ^ 31 - 1" unfolding room_def by linarith
  from go_placed [OF I p this] show ?thesis unfolding Go .
qed (use begin_placed [OF p] in \<open>simp only:\<close>)

lemma run_tasks_placed: "tasks_inv x \<Longrightarrow> room (length evs) x \<Longrightarrow> placed (flat x) \<Longrightarrow> placed (flat (run_tasks D evs x))"
proof (induction evs arbitrary: x)
  case (Cons ev evs)
  note r = Cons.prems(2) [unfolded length_Cons]
  from Cons.IH [OF task_step_keeps [OF Cons.prems(1) r] task_step_placed [OF Cons.prems(1) r Cons.prems(3)]] show ?case by simp
qed simp

lemma New_tasks: "New D cfg files now w = (Inr s, w') \<Longrightarrow> tasks s = Map.empty"
  by (rule New_form) auto

text \<open>
  A task in the state created is in exactly one place: one goroutine, or the queue of one database, which may be one that the
  size check has removed.
\<close>

lemma created_task_counted:
  assumes "New D cfg files now w = (Inr s, w')" "Suc (length evs) * Suc (length (dbs s)) < 2 ^ 31 - 1"
    and "x = run_tasks D evs (at_start s w')" "tasks (stor (sys x)) tid = Some t" "state t = task_created"
  shows "count (mset (concat (map dbTasks (heap (stor (sys x)))) @ task_ids (held (runners x) @ goroutines (sys x)))) tid = 1"
proof -
  have w: "mset (concat (map dbTasks hs)) = waiting hs" for hs by (induction hs) simp_all
  have p: "mset (concat (map dbTasks (heap (stor (sys x)))) @ task_ids (held (runners x) @ goroutines (sys x))) = places (flat x)"
    by (simp add: places_def started_def task_ids_def w)
  have "placed (flat x)"
    unfolding assms(3) using start_keeps(1) [OF assms(1)] start_room [OF assms(1,2)] New_tasks [OF assms(1)]
    by (intro run_tasks_placed) (simp_all add: placed_def at_start_def tstate_def)
  then have "tid \<in># places (flat x)" using assms(4,5) by (simp add: placed_def tstate_def)
  moreover have "count (places (flat x)) tid \<le> 1"
    using inv_parts(5) [OF tasks_inv_start [OF assms(1,2), unfolded tasks_inv_def]] by (simp add: assms(3))
  ultimately show ?thesis unfolding p by (simp add: le_Suc_eq count_eq_zero_iff)
qed

text \<open>
  Two files, of which the newer becomes the live database; a query leaves a task for the older one. It is
  opened, the task is started, and the database is closed when its goroutine has just seen it open.
\<close>

definition twoFiles :: "(string \<times> bool \<times> int) list" where
  "twoFiles = [(''sqlog_5.db'', False, 0), (''sqlog_90.db'', False, 0)]"

definition closedMidway :: "task_event list" where
  "closedMidway = [Other (AskTicks ticksIn 8), Other (Routine 9), Other (Routine 10), Begin 0, Go 0 10, Go 0 10,
    Other (Routine 1000), Go 0 1001, Go 0 1001, Go 0 1001]"

lemma two_files:
  obtains s where "New quietDriver zeroConfig twoFiles 7 () = (Inr s, ())" "length (dbs s) = 2"
    "map_option state (tasks (stor (sys (run_tasks quietDriver closedMidway (at_start s ())))) 1) = Some task_created"
    "set (dbs (stor (sys (run_tasks quietDriver closedMidway (at_start s ()))))) = set (dbs s)"
proof -
  have "case New quietDriver zeroConfig twoFiles 7 () of
      (Inr s, w) \<Rightarrow> length (dbs s) = 2 \<and>
        map_option state (tasks (stor (sys (run_tasks quietDriver closedMidway (at_start s ())))) 1) = Some task_created \<and>
        set (dbs (stor (sys (run_tasks quietDriver closedMidway (at_start s ()))))) = set (dbs s)
    | _ \<Rightarrow> False"
    by code_simp
  then show thesis using that by (auto split: prod.splits sum.splits)
qed

lemma go_runner:
  "task_step D (Go (length as) now) \<lparr>sys = y, runners = as @ g # bs\<rparr> =
     (case exec_step D now g (stor y) (world y) of
        (r, s, w) \<Rightarrow> \<lparr>sys = y\<lparr>stor := s, world := w\<rparr>, runners = as @ (case r of None \<Rightarrow> [] | Some g \<Rightarrow> [g]) @ bs\<rparr>)"
  by simp

lemma closed_callback:
  assumes "\<not> handle (heap s ! k)"
  shows "run_callback D now k tid cb s w = (Some ''db is closed'', s, w)"
  using assms by (cases cb) (simp_all add: run_callback_def listEntries_def listTicks_def list_rows_def db_query_def update_db_def)

text \<open>
  C17 (error). When the database of a task is closed after its goroutine has found it open, the query fails, the
  error is not reported: the task goes back to the queue of the database with its output as it was, and
  the goroutine ends. So it will be run when the database is open again.
\<close>

theorem closed_midway_is_requeued:
  assumes "x = \<lparr>sys = y, runners = as @ (k, tid, m, AtCallback) # bs\<rparr>" "k < length (heap (stor y))"
    and "tasks (stor y) tid = Some t" "state t = task_process"
    and "\<not> isOpen (heap (stor y) ! k)" "\<not> handle (heap (stor y) ! k)"
    and "x' = run_tasks D (replicate 5 (Go (length as) now)) x"
  shows "runners x' = as @ bs \<and> tasks (stor (sys x')) tid = Some (t\<lparr>state := task_created\<rparr>) \<and>
    tid \<in> set (dbTasks (heap (stor (sys x')) ! k)) \<and>
    numActiveTasks (stor (sys x')) = i32 (numActiveTasks (stor y) - 1)"
proof -
  let ?s = "upd_task tid (\<lambda>t. t\<lparr>state := task_created\<rparr>) (stor y)"
  let ?s' = "update_db k (db_schedule tid (heap (stor y) ! k)) ?s"
  have c: "cas_state tid task_process task_created (stor y) = (True, ?s)" using assms(3,4) by (simp add: cas_state_def)
  have "replicate 5 (Go (length as) now) = [Go (length as) now, Go (length as) now, Go (length as) now, Go (length as) now, Go (length as) now]"
    by (simp add: numeral_eq_Suc)
  then have "x' = \<lparr>sys = y\<lparr>stor := onDbTask True ?s'\<rparr>, runners = as @ bs\<rparr>"
    using assms(3,5) closed_callback [OF assms(6), of D now tid "taskCallback t" "world y"]
    by (simp only: assms(1,7) run_tasks_simps go_runner) (simp add: go_runner c del: task_step.simps)
  then show ?thesis using assms(2,3) by (simp add: onDbTask_def db_schedule_def update_db_def upd_task_def)
qed

text \<open>A database that was closed while the goroutine of its task was on the way to its query.\<close>

definition closedUnderway :: "unit sched" where
  "closedUnderway =
     \<lparr>stor = (storageOf [newDb ''logs'' ''demo'' 1 3600])\<lparr>taskIdSeq := 1, tasks := [1 \<mapsto> queuedTask\<lparr>state := task_process\<rparr>],
         taskMap := [1], numActiveTasks := 1\<rparr>,
      world = (), goroutines = []\<rparr>"

theorem closed_midway_is_requeued_witness:
  "\<exists>x'. x' = run_tasks quietDriver (replicate 5 (Go 0 9)) \<lparr>sys = closedUnderway, runners = [(0, 1, 0, AtCallback)]\<rparr> \<and>
     runners x' = [] \<and> 1 \<in> set (dbTasks (heap (stor (sys x')) ! 0)) \<and> numActiveTasks (stor (sys x')) = 0"
  using closed_midway_is_requeued [OF refl _ _ _ _ _ refl, where y = closedUnderway and as = "[]" and bs = "[]" and k = 0 and tid = 1
      and m = 0 and now = 9 and D = quietDriver and t = "queuedTask\<lparr>state := task_process\<rparr>"]
  by (simp add: closedUnderway_def storageOf_def newDb_def isOpen_def i32_id)

subsection \<open>A task whose query fails\<close>

text \<open>
  The task is in process, and whoever still has it is about to find that it cannot swap its state, or has
  found that already.
\<close>

fun gave_up :: "runner \<Rightarrow> bool" where
  "gave_up (k, tid, nretry, AtSwap) = (0 < nretry)"
| "gave_up (k, tid, nretry, p) = (p = AtDone)"

definition stuck :: "int \<Rightarrow> 'w interleaved \<Rightarrow> bool" where
  "stuck tid x =
     (tstate (stor (sys x)) tid = Some task_process \<and> tid \<in> set (taskMap (stor (sys x))) \<and>
      (\<forall>g \<in> set (runners x). fst (snd g) = tid \<longrightarrow> gave_up g))"

lemma cas_map: "cas_state tid old new s = (b, s') \<Longrightarrow> taskMap s' = taskMap s"
  using tasks_simps(5) [of tid old new s] by simp

lemma exec_step_map:
  assumes "exec_step D now (k, j, m, p) s w = (r, s', w')"
  shows "taskMap s' = taskMap s"
proof (cases p)
  case AtCallback
  have "taskMap s' = taskMap s" if c: "run_callback D now k j cb s w = (e, s', w')" for e cb
    using callback_form [OF c] by auto
  with assms AtCallback show ?thesis by (auto split: option.splits prod.splits)
qed (use assms in \<open>auto split: prod.splits dest: cas_map\<close>)

lemma runner_kept: "exec_step D now (k, j, m, p) s w = (Some g, s', w') \<Longrightarrow> fst (snd g) = j"
  by (cases p) (auto split: prod.splits option.splits if_splits)

lemma gave_up_step:
  assumes "exec_step D now (k, tid, m, p) s w = (r, s', w')" "gave_up (k, tid, m, p)" "tstate s tid = Some task_process"
  shows "tstate s' tid = Some task_process \<and> (\<forall>g. r = Some g \<longrightarrow> gave_up g)"
proof (cases p)
  case AtSwap
  with assms show ?thesis using cas_cases [of tid task_created task_process s] by auto
next
  case AtDone
  with assms show ?thesis by (auto simp: tstate_def)
qed (use assms in simp_all)

lemma stuck_step:
  assumes I: "tasks_inv x" and r: "room (Suc n) x" and s: "stuck tid x" and ev: "ev \<noteq> Other (AskCancel tid)"
  shows "stuck tid (task_step D ev x)"
proof (cases ev)
  case (Other e)
  show ?thesis
  proof (cases "\<exists>g now. e = Exec g now")
    case True
    with Other s show ?thesis by auto
  next
    case False
    then have e: "\<And>g now. e \<noteq> Exec g now" by blast
    have "advances tid (stor (sys x)) (stor (sched_step D e (flat x)))"
      using step_advances [OF I [unfolded tasks_inv_def], of e tid D] room_event [OF r] ev Other by simp
    then show ?thesis
      using s unfolding Other stuck_def other_stor [OF e] other_flat(2) [OF e] by (auto simp: advances_def tstate_def)
  qed
next
  case (Begin g)
  show ?thesis
  proof (cases "g < length (goroutines (sys x))")
    case True
    obtain k j m where g: "goroutines (sys x) ! g = (k, j, m)" by (metis prod_cases3)
    have "goroutine_ok (stor (sys x)) (k, j, m)"
      using inv_parts(8) [OF I [unfolded tasks_inv_def]] True g nth_mem [OF True] by (auto simp: list_all_iff)
    then have "j = tid \<Longrightarrow> 0 < m" using s by (auto simp: goroutine_ok_def stuck_def fresh_task_def split: if_splits)
    with True g s Begin show ?thesis by (auto simp: stuck_def)
  qed (use s Begin in simp)
next
  case (Go i now)
  show ?thesis
  proof (cases "i < length (runners x)")
    case True
    obtain k j m p where g: "runners x ! i = (k, j, m, p)" by (metis prod_cases4)
    obtain q s' w' where e: "exec_step D now (k, j, m, p) (stor (sys x)) (world (sys x)) = (q, s', w')" by (metis prod_cases3)
    have mem: "(k, j, m, p) \<in> set (runners x)" using nth_mem [OF True] g by simp
    have sub: "set (take i (runners x)) \<subseteq> set (runners x)" "set (drop (Suc i) (runners x)) \<subseteq> set (runners x)"
      by (rule set_take_subset set_drop_subset)+
    have x': "task_step D ev x = x\<lparr>sys := (sys x)\<lparr>stor := s', world := w'\<rparr>,
        runners := take i (runners x) @ (case q of None \<Rightarrow> [] | Some g \<Rightarrow> [g]) @ drop (Suc i) (runners x)\<rparr>"
      using True g e Go by simp
    have own: "tstate s' tid = Some task_process \<and> (\<forall>g. q = Some g \<longrightarrow> fst (snd g) = tid \<longrightarrow> gave_up g)"
    proof (cases "j = tid")
      case True
      with gave_up_step [OF e [unfolded True]] s mem show ?thesis by (auto simp: stuck_def)
    next
      case False
      moreover have "fst (snd g) = j" if "q = Some g" for g using runner_kept [OF e [unfolded that]] .
      ultimately show ?thesis using exec_step_others [OF e, of tid] s by (auto simp: stuck_def tstate_def)
    qed
    then show ?thesis
      using s exec_step_map [OF e] sub unfolding x' by (cases q) (auto simp: stuck_def)
  qed (use s Go in simp)
qed

text \<open>
  C35 (error). A task whose query has failed while its database is open never ends: the retry that its goroutine
  starts finds the task in process and gives up. Whatever steps follow and however they interleave, short
  of a cancellation of the task, \<^verbatim>\<open>Result\<close> reports it as scheduled, and the error is not reported.
\<close>

theorem failed_task_is_stuck:
  assumes "tasks_inv x" "room (Suc (length evs)) x" "i < length (runners x)" "runners x ! i = (k, tid, m, AtFailed err)"
    and "isOpen (heap (stor (sys x)) ! k)" "m < 3"
    and "tasks (stor (sys x)) tid = Some t" "state t = task_process" "tid \<in> set (taskMap (stor (sys x)))"
    and "Other (AskCancel tid) \<notin> set evs"
  shows "fst (storage_Result tid (stor (sys (run_tasks D (Go i now # evs) x)))) = Some (zeroOutput\<lparr>Scheduled := True, TaskIds := [tid]\<rparr>)"
proof -
  let ?a = "take i (runners x)" and ?b = "drop (Suc i) (runners x)"
  let ?x = "task_step D (Go i now) x"
  have r: "runners x = ?a @ (k, tid, m, AtFailed err) # ?b" using split_at [OF assms(3)] assms(4) by simp
  have x': "?x = x\<lparr>runners := ?a @ (k, tid, m + 1, AtSwap) # ?b\<rparr>" using assms(3-6) by simp
  have one: "count (places (flat x)) tid \<le> 1" using inv_parts(5) [OF assms(1) [unfolded tasks_inv_def]] .
  have "count (started (held (?a @ (k, tid, m, AtFailed err) # ?b))) tid \<le> 1"
    using one by (simp add: places_def started_append flip: r)
  then have none: "tid \<notin># started (held (?a @ ?b))" by (simp add: started_append not_in_iff)
  have "gave_up g" if other: "g \<in> set (?a @ ?b)" "fst (snd g) = tid" for g
  proof -
    obtain k' m' p' where g: "g = (k', tid, m', p')" using other(2) by (metis fst_conv prod_cases4 snd_conv)
    have "p' = AtDone"
    proof (rule ccontr)
      assume "p' \<noteq> AtDone"
      from holding_single [OF this, of k' tid m'] obtain n where n: "holding (k', tid, m', p') = [(k', tid, n)]" by blast
      have "(k', tid, n) \<in> set (held (?a @ ?b))" using other(1) n unfolding g held_def by force
      then have "tid \<in># started (held (?a @ ?b))" by (auto simp: started_iff)
      with none show False by contradiction
    qed
    then show ?thesis by (simp add: g)
  qed
  then have s: "stuck tid ?x" using assms(7-9) unfolding x' by (auto simp: stuck_def tstate_def)
  have stays: "stuck tid (run_tasks D evs y)" if "tasks_inv y" "room (length evs) y" "stuck tid y" "Other (AskCancel tid) \<notin> set evs" for y evs
    using that
  proof (induction evs arbitrary: y)
    case (Cons ev evs)
    note r = Cons.prems(2) [unfolded length_Cons]
    from Cons.prems(4) have "ev \<noteq> Other (AskCancel tid)" "Other (AskCancel tid) \<notin> set evs" by auto
    from Cons.IH [OF task_step_keeps [OF Cons.prems(1) r] stuck_step [OF Cons.prems(1) r Cons.prems(3) this(1)] this(2)] show ?case by simp
  qed simp
  have "stuck tid (run_tasks D evs ?x)" using stays [OF task_step_keeps [OF assms(1,2)] s assms(10)] .
  then show ?thesis by (auto simp: stuck_def storage_Result_def loaded_def tstate_def)
qed

text \<open>One open database and a goroutine whose query has just failed.\<close>

definition justFailed :: "unit interleaved" where
  "justFailed =
     \<lparr>sys = \<lparr>stor = (storageOf [openDb 1])\<lparr>taskIdSeq := 1, tasks := [1 \<mapsto> queuedTask\<lparr>state := task_process\<rparr>],
               taskMap := [1], numActiveTasks := 1\<rparr>,
             world = (), goroutines = []\<rparr>,
      runners = [(0, 1, 0, AtFailed ''database is locked'')]\<rparr>"

lemma justFailed_sound: "tasks_inv justFailed"
proof -
  have "inv_holding 0 (flat justFailed)"
  proof (rule inv_holdingI)
    have p: "places (flat justFailed) = {#1#}" "waiting (heap (stor (flat justFailed))) = {#}"
      by (simp_all add: places_def justFailed_def storageOf_def openDb_def newDb_def)
    show "count (places (flat justFailed)) i \<le> 1" "set_mset (places (flat justFailed)) \<subseteq> {1 .. taskIdSeq (stor (flat justFailed))}" for i
      unfolding p by (simp_all add: justFailed_def)
    show "fresh_task (stor (flat justFailed)) i" if "i \<in># waiting (heap (stor (flat justFailed)))" for i
      using that unfolding p(2) by simp
  qed (auto simp: justFailed_def storageOf_def storage_inv_def openDb_def newDb_def isOpen_def counted_def queuedTask_def new_task_def
      goroutine_ok_def tstate_def split: if_splits)
  then show ?thesis by (simp add: tasks_inv_def) (simp add: justFailed_def)
qed

theorem failed_task_is_stuck_witness:
  "fst (storage_Result 1 (stor (sys (run_tasks quietDriver (Go 0 9 # [Other (Routine 9), Go 0 10, Go 0 10, Other (Routine 11)]) justFailed))))
     = Some (zeroOutput\<lparr>Scheduled := True, TaskIds := [1]\<rparr>)"
  by (rule failed_task_is_stuck [OF justFailed_sound, where k = 0 and m = 0 and err = "''database is locked''"
        and t = "queuedTask\<lparr>state := task_process\<rparr>"])
    (simp_all add: justFailed_def storageOf_def room_def openDb_def newDb_def isOpen_def)

end
