(* ===== verification/TaskPlaces.thy ===== *)
theory TaskPlaces imports TaskProperties begin

text \<open>
  Where a task of \<^verbatim>\<open>sqlite/storage_scheduler.go\<close> waits for its run: in the queue of a database that the scheduler ranges
  over, as long as the size check of \<^verbatim>\<open>sqlite/storage_size_check.go\<close> removes none; and what becomes of a task whose database is
  removed.
\<close>

subsection \<open>The databases that can have tasks\<close>

text \<open>
  Only the databases \<open>K\<close> that \<^verbatim>\<open>New\<close> has found have tasks, in their queues or with the goroutines: the size check makes new
  databases, but never puts them into \<^verbatim>\<open>dbs\<close>.
\<close>

definition queues_within :: "nat set \<Rightarrow> storage \<Rightarrow> bool" where
  "queues_within K s = (set (dbs s) \<subseteq> K \<and> (\<forall>k < length (heap s). k \<notin> K \<longrightarrow> dbTasks (heap s ! k) = []))"

definition within :: "nat set \<Rightarrow> 'w sched \<Rightarrow> bool" where
  "within K x = (queues_within K (stor x) \<and> (\<forall>g \<in> set (goroutines x). fst g \<in> K))"

lemma within_quiet:
  assumes "quiet s s'" "queues_within K s"
  shows "queues_within K s'"
proof -
  have "dbTasks (heap s' ! k) = []" if "k < length (heap s')" "k \<notin> K" for k
    using assms that by (cases "k < length (heap s)") (auto simp: quiet_def heap_moves_def queues_within_def db_move_def idle_db_def)
  then show ?thesis using assms by (auto simp: quiet_def queues_within_def)
qed

lemma within_update:
  "queues_within K s \<Longrightarrow> k \<in> K \<or> dbTasks d = [] \<Longrightarrow> queues_within K (update_db k d s)"
  by (auto simp: queues_within_def nth_update_db)

lemma within_tasks [simp]:
  "queues_within K (upd_task tid f s) = queues_within K s" "queues_within K (onDbTask b s) = queues_within K s"
  "queues_within K (snd (cas_state tid old new s)) = queues_within K s"
  "queues_within K (s\<lparr>taskMap := m\<rparr>) = queues_within K s"
  "queues_within K (s\<lparr>taskIdSeq := n, tasks := t\<rparr>) = queues_within K s"
  by (simp_all add: queues_within_def upd_task_def onDbTask_def cas_state_def)

lemma execute_within: "k \<in> K \<Longrightarrow> within K x \<Longrightarrow> within K (executeDbTasks k i m tids x)"
proof (induction tids arbitrary: i x)
  case (Cons tid tids)
  have "within K (x\<lparr>stor := onDbTask False (update_db k (dequeue tid (heap (stor x) ! k)) (stor x)),
      goroutines := goroutines x @ [(k, tid, 0)]\<rparr>)"
    using Cons.prems by (simp add: within_def within_update)
  from Cons.IH [OF Cons.prems(1) this] this show ?case by (simp add: Let_def)
qed simp

lemma execute_open_within: "set ks \<subseteq> K \<Longrightarrow> within K x \<Longrightarrow> within K (execute_open D tot qt ks x)"
proof (induction ks arbitrary: x)
  case (Cons k ks)
  then show ?case by (simp add: Let_def execute_within)
qed simp

lemma routine_within:
  assumes "within K x"
  shows "within K (doRoutineScheduledTasks D now x)"
proof -
  obtain s w where r: "doRoutineScheduledTasks D now x = (start_tasks D x)\<lparr>stor := s, world := w\<rparr>" "quiet (stor (start_tasks D x)) s"
    using routine_quiet [of D now x] by (elim exE conjE)
  have "within K (execute_open D a b (filter P (dbs (stor x))) x)" for a b P
    using assms by (intro execute_open_within) (auto simp: within_def queues_within_def)
  then have "within K (start_tasks D x)" using assms by (simp add: start_tasks_def Let_def)
  with within_quiet [OF r(2)] show ?thesis by (simp add: r(1) within_def)
qed

lemma schedule_within: "set ks \<subseteq> K \<Longrightarrow> queues_within K s \<Longrightarrow> queues_within K (snd (storage_schedule ks cb s))"
proof (induction ks arbitrary: s)
  case (Cons k ks)
  define s1 where "s1 = s\<lparr>taskIdSeq := i32 (taskIdSeq s + 1), tasks := (tasks s)(i32 (taskIdSeq s + 1) \<mapsto> new_task cb),
    taskMap := List.insert (i32 (taskIdSeq s + 1)) (taskMap s)\<rparr>"
  have "queues_within K s1" using Cons.prems(2) by (simp add: s1_def)
  then have "queues_within K (update_db k (db_schedule (i32 (taskIdSeq s + 1)) (heap s1 ! k)) s1)"
    using Cons.prems(1) by (intro within_update) simp_all
  with Cons.IH Cons.prems(1) show ?case by (simp add: Let_def split_beta s1_def)
qed simp

lemma cas_within: "cas_state tid old new s = (b, s') \<Longrightarrow> queues_within K s' = queues_within K s"
  by (metis snd_conv within_tasks(3))

lemma asks_within: "asks s s' \<Longrightarrow> queues_within K s \<Longrightarrow> queues_within K s'"
  unfolding asks_def by (metis order_trans queues_within_def schedule_within within_quiet)

lemma cancel_within: "queues_within K s \<Longrightarrow> queues_within K (snd (storage_Cancel tid s))"
  by (auto simp: storage_Cancel_def Let_def db_cancel_def queues_within_def nth_update_db upd_task_def split: option.splits)

lemma event_within:
  assumes "within K x" "\<And>g now. ev \<noteq> Exec g now"
  shows "within K (sched_step D ev x)"
proof (cases ev)
  case (Routine now)
  with routine_within [OF assms(1)] show ?thesis by simp
qed (use assms in \<open>auto simp: within_def storage_Result_def cancel_within split: prod.splits sum.splits option.splits
      dest: entries_asks ticks_asks Flush_quiet size_check_quiet intro: asks_within within_quiet\<close>)

lemma exec_step_within:
  assumes "exec_step D now (k, tid, m, p) s w = (r, s', w')" "k \<in> K" "queues_within K s"
  shows "queues_within K s' \<and> (\<forall>g. r = Some g \<longrightarrow> fst g = k)"
proof (cases p)
  case AtSwap
  with assms show ?thesis by (auto simp: cas_within split: prod.splits)
next
  case AtRequeue
  with assms show ?thesis by (auto simp: cas_within split: prod.splits)
next
  case AtCallback
  have "queues_within K s'" if "run_callback D now k tid cb s w = (e, s', w')" for e cb
  proof -
    from callback_form [OF that] obtain d g where d: "db_move (heap s ! k) d"
      "s' = update_db k d s \<or> s' = upd_task tid (\<lambda>t. t\<lparr>taskOutput := g t\<rparr>) (update_db k d s)" by blast
    with within_update [OF assms(3), of k d] assms(2) show ?thesis by auto
  qed
  with assms AtCallback show ?thesis by (auto split: option.splits prod.splits)
qed (use assms in \<open>auto simp: within_update split: if_splits\<close>)

text \<open>The same over the runners, whether they still hold a task or not.\<close>

definition all_within :: "nat set \<Rightarrow> 'w interleaved \<Rightarrow> bool" where
  "all_within K x = (within K (sys x) \<and> (\<forall>g \<in> set (runners x). fst g \<in> K))"

lemma task_step_within:
  assumes "all_within K x"
  shows "all_within K (task_step D ev x)"
proof (cases ev)
  case (Other e)
  show ?thesis
  proof (cases "\<exists>g now. e = Exec g now")
    case False
    then have "task_step D (Other e) x = x\<lparr>sys := sched_step D e (sys x)\<rparr>" by (cases e) auto
    with event_within [of K "sys x" e D] False assms Other show ?thesis by (simp add: all_within_def)
  qed (use Other assms in auto)
next
  case (Begin g)
  show ?thesis
  proof (cases "g < length (goroutines (sys x))")
    case True
    obtain k tid m where g: "goroutines (sys x) ! g = (k, tid, m)" by (metis prod_cases3)
    have "k \<in> K" using assms nth_mem [OF True] by (force simp: all_within_def within_def g)
    with True g Begin assms show ?thesis
      by (auto simp: all_within_def within_def dest: in_set_takeD in_set_dropD)
  qed (use Begin assms in simp)
next
  case (Go i now)
  show ?thesis
  proof (cases "i < length (runners x)")
    case True
    obtain k tid m p where g: "runners x ! i = (k, tid, m, p)" by (metis prod_cases4)
    obtain q s' w' where e: "exec_step D now (k, tid, m, p) (stor (sys x)) (world (sys x)) = (q, s', w')" by (metis prod_cases3)
    have "k \<in> K" using assms nth_mem [OF True] by (force simp: all_within_def g)
    with exec_step_within [OF e] assms have "queues_within K s' \<and> (\<forall>g. q = Some g \<longrightarrow> fst g \<in> K)"
      by (auto simp: all_within_def within_def)
    with True g e Go assms show ?thesis
      by (auto simp: all_within_def within_def split: option.splits dest: in_set_takeD in_set_dropD)
  qed (use Go assms in simp)
qed

lemma run_within: "all_within K x \<Longrightarrow> all_within K (run_tasks D evs x)"
  by (induction evs arbitrary: x) (simp_all add: task_step_within)

lemma New_within: "New D cfg files now w = (Inr s, w') \<Longrightarrow> all_within (set (dbs s)) (at_start s w')"
  by (erule New_form) (auto simp: all_within_def within_def queues_within_def at_start_def)

subsection \<open>Tasks of a removed database\<close>

definition left_queue :: "int \<Rightarrow> nat \<Rightarrow> storage \<Rightarrow> bool" where
  "left_queue tid k s = (k < length (heap s) \<and> tid \<in> set (dbTasks (heap s ! k)) \<and> k \<notin> set (dbs s))"

lemma left_quiet: "quiet s s' \<Longrightarrow> left_queue tid k s \<Longrightarrow> left_queue tid k s'"
  by (auto simp: quiet_def heap_moves_def left_queue_def db_move_def)

lemma left_update:
  "left_queue tid k s \<Longrightarrow> j \<noteq> k \<or> tid \<in> set (dbTasks d) \<Longrightarrow> left_queue tid k (update_db j d s)"
  by (auto simp: left_queue_def nth_update_db)

lemma left_tasks [simp]:
  "left_queue tid k (upd_task i f s) = left_queue tid k s" "left_queue tid k (onDbTask b s) = left_queue tid k s"
  "left_queue tid k (snd (cas_state i old new s)) = left_queue tid k s"
  "left_queue tid k (s\<lparr>taskMap := m\<rparr>) = left_queue tid k s"
  "left_queue tid k (s\<lparr>taskIdSeq := n, tasks := t\<rparr>) = left_queue tid k s"
  by (simp_all add: left_queue_def upd_task_def onDbTask_def cas_state_def)

lemma left_schedule: "left_queue tid k s \<Longrightarrow> left_queue tid k (update_db j (db_schedule i (heap s ! j)) s)"
  by (rule left_update) (auto simp: db_schedule_def left_queue_def)

lemma left_execute: "j \<noteq> k \<Longrightarrow> left_queue tid k (stor x) \<Longrightarrow> left_queue tid k (stor (executeDbTasks j i m tids x))"
proof (induction tids arbitrary: i x)
  case (Cons t ts)
  have "left_queue tid k (onDbTask False (update_db j (dequeue t (heap (stor x) ! j)) (stor x)))"
    using Cons.prems by (simp add: left_update)
  with Cons.IH Cons.prems(1) show ?case by (simp add: Let_def)
qed simp

lemma left_execute_open: "k \<notin> set ks \<Longrightarrow> left_queue tid k (stor x) \<Longrightarrow> left_queue tid k (stor (execute_open D tot qt ks x))"
proof (induction ks arbitrary: x)
  case (Cons j ks)
  then show ?case by (simp add: Let_def left_execute)
qed simp

lemma left_routine:
  assumes "left_queue tid k (stor x)"
  shows "left_queue tid k (stor (doRoutineScheduledTasks D now x))"
proof -
  obtain s w where r: "doRoutineScheduledTasks D now x = (start_tasks D x)\<lparr>stor := s, world := w\<rparr>" "quiet (stor (start_tasks D x)) s"
    using routine_quiet [of D now x] by (elim exE conjE)
  have "left_queue tid k (stor (execute_open D a b (filter P (dbs (stor x))) x))" for a b P
    using assms by (intro left_execute_open) (auto simp: left_queue_def)
  then have "left_queue tid k (stor (start_tasks D x))" using assms by (simp add: start_tasks_def Let_def)
  with left_quiet [OF r(2)] show ?thesis by (simp add: r(1))
qed

lemma left_schedules: "left_queue tid k s \<Longrightarrow> left_queue tid k (snd (storage_schedule ks cb s))"
proof (induction ks arbitrary: s)
  case (Cons j ks)
  define s1 where "s1 = s\<lparr>taskIdSeq := i32 (taskIdSeq s + 1), tasks := (tasks s)(i32 (taskIdSeq s + 1) \<mapsto> new_task cb),
    taskMap := List.insert (i32 (taskIdSeq s + 1)) (taskMap s)\<rparr>"
  have "left_queue tid k s1" using Cons.prems by (simp add: s1_def)
  then have "left_queue tid k (update_db j (db_schedule (i32 (taskIdSeq s + 1)) (heap s1 ! j)) s1)" by (rule left_schedule)
  with Cons.IH show ?case by (simp add: Let_def split_beta s1_def)
qed simp

lemma left_asks: "asks s s' \<Longrightarrow> left_queue tid k s \<Longrightarrow> left_queue tid k s'"
  unfolding asks_def by (metis left_quiet left_schedules)

lemma left_cancel: "tid \<noteq> i \<Longrightarrow> left_queue tid k s \<Longrightarrow> left_queue tid k (snd (storage_Cancel i s))"
  by (auto simp: storage_Cancel_def Let_def db_cancel_def left_queue_def nth_update_db upd_task_def split: option.splits)

lemma left_event:
  assumes "left_queue tid k (stor x)" "\<And>g now. ev \<noteq> Exec g now" "ev \<noteq> AskCancel tid"
  shows "left_queue tid k (stor (sched_step D ev x))"
proof (cases ev)
  case (Routine now)
  with left_routine [OF assms(1)] show ?thesis by simp
qed (use assms in \<open>auto simp: storage_Result_def left_cancel split: prod.splits sum.splits option.splits
      dest: entries_asks ticks_asks Flush_quiet size_check_quiet intro: left_asks left_quiet\<close>)

lemma left_cas: "cas_state i old new s = (b, s') \<Longrightarrow> left_queue tid k s' = left_queue tid k s"
  by (metis left_tasks(3) snd_conv)

lemma left_exec_step:
  assumes "exec_step D now (j, i, m, p) s w = (r, s', w')" "left_queue tid k s"
  shows "left_queue tid k s'"
proof (cases p)
  case AtCallback
  have "left_queue tid k s'" if "run_callback D now j i cb s w = (e, s', w')" for e cb
  proof -
    from callback_form [OF that] obtain d g where d: "db_move (heap s ! j) d"
      "s' = update_db j d s \<or> s' = upd_task i (\<lambda>t. t\<lparr>taskOutput := g t\<rparr>) (update_db j d s)" by blast
    have "left_queue tid k (update_db j d s)" using assms(2) d(1) by (intro left_update) (auto simp: db_move_def left_queue_def)
    with d(2) show ?thesis by auto
  qed
  with assms AtCallback show ?thesis by (auto split: option.splits prod.splits)
qed (use assms in \<open>auto simp: left_schedule left_cas split: prod.splits if_splits\<close>)

definition stranded :: "int \<Rightarrow> nat \<Rightarrow> 'w interleaved \<Rightarrow> bool" where
  "stranded tid k x =
     (tstate (stor (sys x)) tid = Some task_created \<and> tid \<in> set (taskMap (stor (sys x))) \<and> left_queue tid k (stor (sys x)))"

text \<open>A task in a queue is with no goroutine.\<close>

lemma queued_not_held:
  assumes "tasks_inv x" "left_queue tid k (stor (sys x))" "i < length (runners x)" "runners x ! i = (j, tid, m, p)"
  shows "p = AtDone"
proof (rule ccontr)
  assume "p \<noteq> AtDone"
  then obtain h where "holding (j, tid, m, p) = [(j, tid, h)]" using holding_single by blast
  with assms(3,4) have "tid \<in># started (goroutines (flat x))"
    using nth_mem [OF assms(3)] by (force simp: held_def started_def flat_def)
  moreover have "tid \<in># waiting (heap (stor (flat x)))" using assms(2) by (auto simp: waiting_nth left_queue_def)
  ultimately have "1 < count (places (flat x)) tid"
    unfolding places_def count_union using count_greater_zero_iff [of "waiting (heap (stor (flat x)))" tid]
      count_greater_zero_iff [of "started (goroutines (flat x))" tid] by linarith
  with inv_parts(5) [OF assms(1) [unfolded tasks_inv_def], of tid] show False by simp
qed

lemma stranded_step:
  assumes I: "tasks_inv x" and r: "room (Suc n) x" and s: "stranded tid k x" and ev: "ev \<noteq> Other (AskCancel tid)"
  shows "stranded tid k (task_step D ev x)"
proof (cases ev)
  case (Other e)
  show ?thesis
  proof (cases "\<exists>g now. e = Exec g now")
    case False
    then have e: "\<And>g now. e \<noteq> Exec g now" by blast
    let ?s = "stor (sched_step D e (flat x))"
    have nc: "e \<noteq> AskCancel tid" using ev Other by simp
    have a: "advances tid (stor (sys x)) ?s"
      using step_advances [OF I [unfolded tasks_inv_def], of e tid D] room_event [OF r] nc by simp
    have l: "left_queue tid k ?s" using left_event [OF _ e nc, of k "flat x" D] s by (simp add: stranded_def)
    have J: "inv_holding (finishing (runners x)) (sched_step D e (flat x))"
      using task_step_keeps(1) [OF I r, of D ev] unfolding Other tasks_inv_def other_flat [OF e] .
    have "tid \<in># waiting (heap ?s)" using l by (auto simp: waiting_nth left_queue_def)
    then have "fresh_task ?s tid" using inv_parts(7) [OF J] by blast
    then have "tstate ?s tid = Some task_created" "tid \<in> set (taskMap ?s)"
      using a s by (auto simp: advances_def stranded_def tstate_def fresh_task_def)
    with l show ?thesis unfolding Other stranded_def other_stor [OF e] by simp
  qed (use Other s in auto)
next
  case (Begin g)
  with s show ?thesis by (auto simp: stranded_def split: prod.splits)
next
  case (Go i now)
  show ?thesis
  proof (cases "i < length (runners x)")
    case True
    obtain j t m p where g: "runners x ! i = (j, t, m, p)" by (metis prod_cases4)
    obtain q s' w' where e: "exec_step D now (j, t, m, p) (stor (sys x)) (world (sys x)) = (q, s', w')" by (metis prod_cases3)
    have x': "stor (sys (task_step D ev x)) = s'" using True g e Go by simp
    have "tasks s' tid = tasks (stor (sys x)) tid"
    proof (cases "t = tid")
      case own: True
      have "left_queue tid k (stor (sys x))" using s by (simp add: stranded_def)
      from queued_not_held [OF I this True g [unfolded own]] have "p = AtDone" .
      with e show ?thesis by auto
    qed (use exec_step_others [OF e] in simp)
    with s exec_step_map [OF e] left_exec_step [OF e] show ?thesis unfolding stranded_def x' by (simp add: tstate_def)
  qed (use Go s in simp)
qed

lemma run_stranded:
  "tasks_inv x \<Longrightarrow> room (length evs) x \<Longrightarrow> stranded tid k x \<Longrightarrow> Other (AskCancel tid) \<notin> set evs \<Longrightarrow> stranded tid k (run_tasks D evs x)"
proof (induction evs arbitrary: x)
  case (Cons ev evs)
  note r = Cons.prems(2) [unfolded length_Cons]
  from Cons.prems(4) have "ev \<noteq> Other (AskCancel tid)" "Other (AskCancel tid) \<notin> set evs" by auto
  from Cons.IH [OF task_step_keeps [OF Cons.prems(1) r] stranded_step [OF Cons.prems(1) r Cons.prems(3) this(1)] this(2)] show ?case by simp
qed simp

subsection \<open>Properties\<close>

text \<open>
  C13 (safety). As long as no database has been removed, a task that has not been run is not lost, whatever happens between
  the steps of its goroutine, the closing of its database included: a task in the state created is in exactly one place, the
  queue of one of the databases that the scheduler ranges over or one goroutine.
\<close>

theorem created_task_has_its_place:
  assumes "New D cfg files now w = (Inr s, w')" "Suc (length evs) * Suc (length (dbs s)) < 2 ^ 31 - 1"
    and "x = run_tasks D evs (at_start s w')" "tasks (stor (sys x)) tid = Some t" "state t = task_created"
    and "set (dbs (stor (sys x))) = set (dbs s)"
  shows "count (mset (concat (map dbTasks (heap (stor (sys x)))) @ task_ids (held (runners x) @ goroutines (sys x)))) tid = 1 \<and>
    (tid \<in> set (task_ids (held (runners x) @ goroutines (sys x))) \<or>
     (\<exists>k \<in> set (dbs (stor (sys x))). tid \<in> set (dbTasks (heap (stor (sys x)) ! k))))"
proof -
  note c = created_task_counted [OF assms(1-5)]
  have W: "queues_within (set (dbs s)) (stor (sys x))"
    using run_within [OF New_within [OF assms(1)], of D evs] by (simp add: assms(3) all_within_def within_def)
  have "tid \<in> set (concat (map dbTasks (heap (stor (sys x)))) @ task_ids (held (runners x) @ goroutines (sys x)))"
    using c by (metis count_eq_zero_iff set_mset_mset zero_neq_one)
  then consider "tid \<in> set (task_ids (held (runners x) @ goroutines (sys x)))"
    | d where "d \<in> set (heap (stor (sys x)))" "tid \<in> set (dbTasks d)" by auto
  then show ?thesis
  proof cases
    case 2
    then obtain k where k: "k < length (heap (stor (sys x)))" "tid \<in> set (dbTasks (heap (stor (sys x)) ! k))"
      by (metis in_set_conv_nth)
    then have "k \<in> set (dbs s)" using W by (fastforce simp: queues_within_def)
    with k(2) c assms(6) show ?thesis by blast
  qed (use c in blast)
qed

theorem created_task_has_its_place_witness:
  "\<exists>s x. New quietDriver zeroConfig twoFiles 7 () = (Inr s, ()) \<and> x = run_tasks quietDriver closedMidway (at_start s ()) \<and>
     (1 \<in> set (task_ids (held (runners x) @ goroutines (sys x))) \<or>
      (\<exists>k \<in> set (dbs (stor (sys x))). 1 \<in> set (dbTasks (heap (stor (sys x)) ! k))))"
proof -
  obtain s where s: "New quietDriver zeroConfig twoFiles 7 () = (Inr s, ())" "length (dbs s) = 2"
    "map_option state (tasks (stor (sys (run_tasks quietDriver closedMidway (at_start s ())))) 1) = Some task_created"
    "set (dbs (stor (sys (run_tasks quietDriver closedMidway (at_start s ()))))) = set (dbs s)"
    by (rule two_files)
  then obtain t where t: "tasks (stor (sys (run_tasks quietDriver closedMidway (at_start s ())))) 1 = Some t" "state t = task_created"
    by blast
  have "Suc (length closedMidway) * Suc (length (dbs s)) < 2 ^ 31 - 1" using s(2) by (simp add: closedMidway_def)
  from created_task_has_its_place [OF s(1) this refl t s(4)] s(1) show ?thesis by blast
qed

text \<open>
  C14 (error). A database that the size check removes takes its waiting tasks with it: they stay in the state created in the
  queue of a database that the scheduler does not range over any more, so no goroutine ever runs them, and \<^verbatim>\<open>Result\<close> answers for
  ever that they are scheduled, unless they are canceled.
\<close>

theorem removed_database_loses_tasks:
  assumes "New D cfg files now w = (Inr s, w')" "Suc (length evs + length evs') * Suc (length (dbs s)) < 2 ^ 31 - 1"
    and "x = run_tasks D evs (at_start s w')" "tasks (stor (sys x)) tid = Some t" "state t = task_created"
    and "tid \<in> set (taskMap (stor (sys x)))" "k < length (heap (stor (sys x)))" "tid \<in> set (dbTasks (heap (stor (sys x)) ! k))"
    and "k \<notin> set (dbs (stor (sys x)))" "Other (AskCancel tid) \<notin> set evs'" "x' = run_tasks D evs' x"
  shows "map_option state (tasks (stor (sys x')) tid) = Some task_created \<and> k \<notin> set (dbs (stor (sys x'))) \<and>
    tid \<in> set (dbTasks (heap (stor (sys x')) ! k)) \<and>
    fst (storage_Result tid (stor (sys x'))) = Some (zeroOutput\<lparr>Scheduled := True, TaskIds := [tid]\<rparr>)"
proof -
  have "room (length evs + length evs') (at_start s w')" using start_room [OF assms(1), of "length evs + length evs'"] assms(2) by simp
  with run_tasks_keeps [OF start_keeps(1) [OF assms(1)], of evs "length evs'" D]
  have "tasks_inv x" "room (length evs') x" by (simp_all add: assms(3))
  moreover have "stranded tid k x" using assms(4-9) by (simp add: stranded_def tstate_def left_queue_def)
  ultimately have "stranded tid k x'" unfolding assms(11) by (rule run_stranded) (rule assms(10))
  then show ?thesis by (auto simp: stranded_def tstate_def left_queue_def storage_Result_def loaded_def)
qed

text \<open>
  Two files, the older one of two gigabytes; a query leaves a task for it, and the size check removes it. Then the scheduler and the
  size check go on, and another query comes.
\<close>

definition bigFiles :: "(string \<times> bool \<times> int) list" where
  "bigFiles = [(''sqlog_5.db'', False, 2000000000), (''sqlog_90.db'', False, 0)]"

definition askThenRemove :: "task_event list" where
  "askThenRemove = [Other (AskTicks ticksIn 8), Other (SizeCheck (at_sec 9))]"

definition afterwards :: "task_event list" where
  "afterwards = [Other (Routine 10), Other (AskTicks ticksIn 11), Other (SizeCheck (at_sec 14)), Other (Routine 15), Begin 0, Go 0 16]"

lemma big_files:
  obtains s where "New quietDriver zeroConfig bigFiles 7 () = (Inr s, ())" "length (dbs s) = 2"
    "map_option state (tasks (stor (sys (run_tasks quietDriver askThenRemove (at_start s ())))) 1) = Some task_created"
    "1 \<in> set (taskMap (stor (sys (run_tasks quietDriver askThenRemove (at_start s ())))))"
    "0 < length (heap (stor (sys (run_tasks quietDriver askThenRemove (at_start s ())))))"
    "1 \<in> set (dbTasks (heap (stor (sys (run_tasks quietDriver askThenRemove (at_start s ())))) ! 0))"
    "0 \<notin> set (dbs (stor (sys (run_tasks quietDriver askThenRemove (at_start s ())))))"
proof -
  have "case New quietDriver zeroConfig bigFiles 7 () of
      (Inr s, w) \<Rightarrow> length (dbs s) = 2 \<and>
        (let y = stor (sys (run_tasks quietDriver askThenRemove (at_start s ())))
         in map_option state (tasks y 1) = Some task_created \<and> 1 \<in> set (taskMap y) \<and> 0 < length (heap y) \<and>
            1 \<in> set (dbTasks (heap y ! 0)) \<and> 0 \<notin> set (dbs y))
    | _ \<Rightarrow> False"
    by code_simp
  then show thesis using that by (auto simp: Let_def split: prod.splits sum.splits)
qed

theorem removed_database_loses_tasks_witness:
  "\<exists>s x'. New quietDriver zeroConfig bigFiles 7 () = (Inr s, ()) \<and>
     x' = run_tasks quietDriver afterwards (run_tasks quietDriver askThenRemove (at_start s ())) \<and>
     map_option state (tasks (stor (sys x')) 1) = Some task_created \<and> 0 \<notin> set (dbs (stor (sys x'))) \<and>
     fst (storage_Result 1 (stor (sys x'))) = Some (zeroOutput\<lparr>Scheduled := True, TaskIds := [1]\<rparr>)"
proof -
  obtain s where s: "New quietDriver zeroConfig bigFiles 7 () = (Inr s, ())" "length (dbs s) = 2"
    "map_option state (tasks (stor (sys (run_tasks quietDriver askThenRemove (at_start s ())))) 1) = Some task_created"
    "1 \<in> set (taskMap (stor (sys (run_tasks quietDriver askThenRemove (at_start s ())))))"
    "0 < length (heap (stor (sys (run_tasks quietDriver askThenRemove (at_start s ())))))"
    "1 \<in> set (dbTasks (heap (stor (sys (run_tasks quietDriver askThenRemove (at_start s ())))) ! 0))"
    "0 \<notin> set (dbs (stor (sys (run_tasks quietDriver askThenRemove (at_start s ())))))"
    by (rule big_files)
  then obtain t where t: "tasks (stor (sys (run_tasks quietDriver askThenRemove (at_start s ())))) 1 = Some t" "state t = task_created"
    by blast
  have b: "Suc (length askThenRemove + length afterwards) * Suc (length (dbs s)) < 2 ^ 31 - 1"
    using s(2) by (simp add: askThenRemove_def afterwards_def)
  have "Other (AskCancel 1) \<notin> set afterwards" by (simp add: afterwards_def)
  from removed_database_loses_tasks [OF s(1) b refl t s(4-7) this refl] s(1) show ?thesis by blast
qed

end
