(* ===== verification/Routines.thy ===== *)
theory Routines imports SqliteScheduler SqliteMaintenance StorageProperties begin

text \<open>
  The timers of the routines: the intervals that \<^verbatim>\<open>ingester.go\<close> and the files of \<^verbatim>\<open>sqlite\<close> pass to
  \<^verbatim>\<open>time.NewTicker\<close>, which panics when an interval is not positive, and what the defaults of both configurations make
  of them. A \<^verbatim>\<open>time.Duration\<close> is a number of nanoseconds in 64 bits.
\<close>

subsection \<open>Intervals\<close>

definition Duration :: "int \<Rightarrow> int" where
  "Duration x = i64 x"

definition sizeCheckInterval :: "Config \<Rightarrow> int" where
  "sizeCheckInterval c = i64 (Duration (IntervalSizeCheckSec c) * 1000000000)"

definition walCheckpointInterval :: "Config \<Rightarrow> int" where
  "walCheckpointInterval c = i64 (Duration (IntervalWalCheckpointSec c) * 1000000000)"

definition scheduledTasksInterval :: "Config \<Rightarrow> int" where
  "scheduledTasksInterval c = Duration (IntervalScheduledTasksMs c)"

definition routineCheckInterval :: "IngesterConfig \<Rightarrow> int" where
  "routineCheckInterval c = Duration (IntervalCheckMs c)"

text \<open>The routines that \<^verbatim>\<open>New\<close> starts, by their intervals.\<close>

definition started_routines :: "Config \<Rightarrow> int list" where
  "started_routines c =
     [sizeCheckInterval c, scheduledTasksInterval c] @
     (if IntervalWalCheckpointSec c > 0 then [walCheckpointInterval c] else [])"

text \<open>\<^verbatim>\<open>NewTicker\<close> does not panic.\<close>

definition ticks :: "int \<Rightarrow> bool" where
  "ticks d = (d > 0)"

subsection \<open>The file prefix\<close>

lemma Fields_no_space: "list_all (\<lambda>c. \<not> ascii_space c) acc \<Longrightarrow> f \<in> set (Fields acc s) \<Longrightarrow> list_all (\<lambda>c. \<not> ascii_space c) f"
  by (induction acc s rule: Fields.induct) (auto split: if_splits)

lemma join_chars: "c \<in> set (join_with sep ps) \<Longrightarrow> c \<in> set sep \<or> (\<exists>p \<in> set ps. c \<in> set p)"
  by (induction sep ps rule: join_with.induct) auto

lemma lower_byte_cases: "lower_byte c = c \<or> (97 \<le> byte (lower_byte c) \<and> byte (lower_byte c) \<le> 122)"
  by (auto simp: lower_byte_def byte_def)

lemma lower_byte_plain:
  assumes "\<not> ascii_space c"
  shows "\<not> ascii_space (lower_byte c) \<and> \<not> (65 \<le> byte (lower_byte c) \<and> byte (lower_byte c) \<le> 90)"
proof (cases "65 \<le> byte c \<and> byte c \<le> 90")
  case True
  then have "byte (lower_byte c) = byte c + 32" by (auto simp: lower_byte_def byte_def)
  with True show ?thesis by (auto simp: ascii_space_def byte_def)
next
  case False
  then show ?thesis using assms by (auto simp: lower_byte_def)
qed

definition plain_prefix :: "string \<Rightarrow> bool" where
  "plain_prefix p = list_all (\<lambda>c. \<not> ascii_space c \<and> \<not> (65 \<le> byte c \<and> byte c \<le> 90)) p"

lemma lowered_plain: "list_all (\<lambda>c. \<not> ascii_space c) s \<Longrightarrow> plain_prefix (map lower_byte s)"
  using lower_byte_plain by (auto simp: plain_prefix_def list_all_iff)

lemma joined_plain: "plain_prefix (map lower_byte (join_with ''_'' (Fields '''' s)))"
proof (rule lowered_plain)
  have "\<not> ascii_space c" if "c \<in> set (join_with ''_'' (Fields '''' s))" for c
    using join_chars [OF that] Fields_no_space [of "''''" _ s] by (auto simp: ascii_space_def byte_def list_all_iff)
  then show "list_all (\<lambda>c. \<not> ascii_space c) (join_with ''_'' (Fields '''' s))" by (simp add: list_all_iff)
qed

text \<open>A default as an update of the field, whether it is used or not.\<close>

lemma default_field:
  "(if b then c\<lparr>SQLiteOptions := v0\<rparr> else c) = c\<lparr>SQLiteOptions := if b then v0 else SQLiteOptions c\<rparr>"
  "(if b then c\<lparr>Dir := v1\<rparr> else c) = c\<lparr>Dir := if b then v1 else Dir c\<rparr>"
  "(if b then c\<lparr>MaxFilesizeMB := v2\<rparr> else c) = c\<lparr>MaxFilesizeMB := if b then v2 else MaxFilesizeMB c\<rparr>"
  "(if b then c\<lparr>TotalSizeCapMB := v3\<rparr> else c) = c\<lparr>TotalSizeCapMB := if b then v3 else TotalSizeCapMB c\<rparr>"
  "(if b then c\<lparr>IntervalScheduledTasksMs := v4\<rparr> else c) = c\<lparr>IntervalScheduledTasksMs := if b then v4 else IntervalScheduledTasksMs c\<rparr>"
  "(if b then c\<lparr>MaxRunningTasks := v5\<rparr> else c) = c\<lparr>MaxRunningTasks := if b then v5 else MaxRunningTasks c\<rparr>"
  "(if b then c\<lparr>CloseIdleSec := v6\<rparr> else c) = c\<lparr>CloseIdleSec := if b then v6 else CloseIdleSec c\<rparr>"
  "(if b then c\<lparr>IntervalSizeCheckSec := v7\<rparr> else c) = c\<lparr>IntervalSizeCheckSec := if b then v7 else IntervalSizeCheckSec c\<rparr>"
  "(if b then c\<lparr>MaxChunkAgeSec := v8\<rparr> else c) = c\<lparr>MaxChunkAgeSec := if b then v8 else MaxChunkAgeSec c\<rparr>"
  "(if b then c\<lparr>WalCheckpointMode := v9\<rparr> else c) = c\<lparr>WalCheckpointMode := if b then v9 else WalCheckpointMode c\<rparr>"
  by simp_all

lemma defaults_prefix: "plain_prefix (Prefix (config_defaults c))"
proof -
  have "plain_prefix ''sqlog''" by (simp add: plain_prefix_def ascii_space_def byte_def)
  then show ?thesis using joined_plain by (simp add: config_defaults_def Let_def default_field)
qed

text \<open>Fields that the defaults keep, and limits that they make positive.\<close>

lemma defaults_limits:
  "0 < MaxFilesizeMB (config_defaults c)" "0 < TotalSizeCapMB (config_defaults c)" "0 < MaxRunningTasks (config_defaults c)"
  "0 < CloseIdleSec (config_defaults c)" "0 < MaxChunkAgeSec (config_defaults c)" "Dir (config_defaults c) \<noteq> ''''"
  "SQLiteOptions (config_defaults c) \<noteq> []"
  by (simp_all add: config_defaults_def Let_def default_field StorageSQLiteOptions_def)

lemma defaults_intervals:
  "IntervalSizeCheckSec (config_defaults c) = (if IntervalSizeCheckSec c \<le> 0 then 5 else IntervalSizeCheckSec c)"
  "IntervalScheduledTasksMs (config_defaults c) = (if IntervalScheduledTasksMs c \<le> 0 then 100 else IntervalScheduledTasksMs c)"
  "IntervalWalCheckpointSec (config_defaults c) = IntervalWalCheckpointSec c"
  by (simp_all add: config_defaults_def Let_def default_field)

lemma defaults_kept:
  "MaxOpenedDB (config_defaults c) = MaxOpenedDB c" "ExprBuilder (config_defaults c) = ExprBuilder c"
  by (simp_all add: config_defaults_def Let_def default_field)

lemma seconds_positive: "0 < x \<Longrightarrow> x < 2 ^ 31 \<Longrightarrow> 0 < i64 (Duration x * 1000000000)"
  by (simp add: Duration_def i64_id)

text \<open>What \<^verbatim>\<open>NewIngester\<close> makes of its configuration.\<close>

definition usable_ingester :: "IngesterConfig \<Rightarrow> bool" where
  "usable_ingester c =
     (0 < Chunks c \<and> 0 < ChunkSize c \<and> ChunkSize c \<le> 900 \<and> 0 < MaxDirtyChunks c \<and> 0 < MaxFlushRetry c \<and>
      0 < FlushAfterSec c \<and> ticks (routineCheckInterval c))"

lemma ingester_defaults: "IntervalCheckMs c < 2 ^ 63 \<Longrightarrow> usable_ingester (with_defaults c)"
  by (simp add: usable_ingester_def routineCheckInterval_def with_defaults_def Let_def Duration_def ticks_def i64_id)

definition usable_storage :: "Config \<Rightarrow> bool" where
  "usable_storage c =
     (list_all ticks (started_routines c) \<and> 0 < MaxFilesizeMB c \<and> 0 < TotalSizeCapMB c \<and> 0 < MaxRunningTasks c \<and>
      0 < CloseIdleSec c \<and> 0 < MaxChunkAgeSec c \<and> Dir c \<noteq> '''' \<and> SQLiteOptions c \<noteq> [] \<and> plain_prefix (Prefix c))"

subsection \<open>Properties\<close>

text \<open>What the Go types say of the intervals of a configuration, and a prefix that the model covers.\<close>

definition int32_intervals :: "Config \<Rightarrow> bool" where
  "int32_intervals c =
     (i32 (IntervalSizeCheckSec c) = IntervalSizeCheckSec c \<and> i32 (IntervalScheduledTasksMs c) = IntervalScheduledTasksMs c \<and>
      i32 (IntervalWalCheckpointSec c) = IntervalWalCheckpointSec c)"

definition ascii :: "string \<Rightarrow> bool" where
  "ascii = list_all (\<lambda>c. byte c < 128)"

text \<open>
  C23 (type). Whatever configuration a program gives, also none, and as long as the prefix of its files is ASCII, the storage
  runs with one in which no routine that \<^verbatim>\<open>New\<close> starts panics on its timer, the limits that have a default are positive,
  there are a directory and connection options, the prefix has no white space and no capitals, and the expression builder is
  the one given or \<^verbatim>\<open>ExpBuilderFn\<close>; \<^verbatim>\<open>MaxOpenedDB\<close> has no default and stays as it is, also when it is not positive.
  \<^verbatim>\<open>NewIngester\<close> makes the limits of the ingester and the interval of its routine positive too.
\<close>

theorem defaults_are_usable:
  assumes "c = given_config g" "int32_intervals c" "ascii (Prefix c)" "c' = config_defaults c" "IntervalCheckMs ic < 2 ^ 63"
  shows "usable_storage c' \<and> MaxOpenedDB c' = MaxOpenedDB c \<and>
    ExprBuilder c' = (case g of Some (_, Some b) \<Rightarrow> b | _ \<Rightarrow> default_builder) \<and> usable_ingester (with_defaults ic)"
proof -
  have r: "IntervalSizeCheckSec c < 2 ^ 31" "IntervalScheduledTasksMs c < 2 ^ 31" "IntervalWalCheckpointSec c < 2 ^ 31"
    using assms(2) i32_range by (metis int32_intervals_def)+
  have "ticks (sizeCheckInterval c')" "ticks (scheduledTasksInterval c')"
    "0 < IntervalWalCheckpointSec c' \<Longrightarrow> ticks (walCheckpointInterval c')"
    using r seconds_positive by (simp_all add: assms(4) defaults_intervals ticks_def sizeCheckInterval_def
        scheduledTasksInterval_def walCheckpointInterval_def Duration_def i64_id)
  then have "usable_storage c'"
    using defaults_limits [of c] defaults_prefix [of c] by (auto simp: usable_storage_def started_routines_def assms(4))
  moreover have "ExprBuilder c = (case g of Some (_, Some b) \<Rightarrow> b | _ \<Rightarrow> default_builder)"
    by (auto simp: assms(1) given_config_def Let_def split: option.splits)
  ultimately show ?thesis using ingester_defaults [OF assms(5)] by (simp add: assms(4) defaults_kept)
qed

definition negativeInterval :: IngesterConfig where
  "negativeInterval = \<lparr>Chunks = 1, ChunkSize = 1, MaxChunkSizeBytes = 0, MaxDirtyChunks = 2, MaxFlushRetry = 1,
     FlushAfterSec = 0, IntervalCheckMs = - 7\<rparr>"

text \<open>No configuration at all, and one with a prefix and a timer for checkpoints.\<close>

theorem defaults_are_usable_witness:
  "usable_storage (config_defaults (given_config None)) \<and> MaxOpenedDB (config_defaults (given_config None)) = 0 \<and>
   usable_ingester (with_defaults negativeInterval) \<and>
   (let c = given_config (Some (zeroConfig\<lparr>Prefix := ''My App'', IntervalWalCheckpointSec := 9\<rparr>, None))
    in usable_storage (config_defaults c) \<and> ExprBuilder (config_defaults c) = default_builder)"
proof -
  let ?g = "Some (zeroConfig\<lparr>Prefix := ''My App'', IntervalWalCheckpointSec := 9\<rparr>, None) ::
    (Config \<times> (string \<Rightarrow> expr_error + Expr) option) option"
  have n: "IntervalCheckMs negativeInterval < 2 ^ 63" by (simp add: negativeInterval_def)
  have 1: "int32_intervals (given_config None)" "ascii (Prefix (given_config None))" "MaxOpenedDB (given_config None) = 0"
    by (simp_all add: given_config_def int32_intervals_def ascii_def zeroConfig_def i32_def)
  have 2: "int32_intervals (given_config ?g)" "ascii (Prefix (given_config ?g))"
    by (simp_all add: given_config_def int32_intervals_def ascii_def zeroConfig_def i32_def byte_def)
  from defaults_are_usable [OF refl 1(1,2) refl n] defaults_are_usable [OF refl 2 refl n] 1(3) show ?thesis by (simp add: Let_def)
qed

end
