(* ===== verification/Handler.thy ===== *)
theory Handler imports IngesterLog begin

text \<open>
  \<^verbatim>\<open>handler.go\<close>: the \<^verbatim>\<open>slog\<close> handler that encodes records and passes them to the ingester. The encoders and
  the fanout handlers are \<^verbatim>\<open>slog.Handler\<close>s from outside: records of functions over types of their own.
  \<^verbatim>\<open>sync.Pool\<close> may give any of its writers or a new one, so a call takes a list of choices, one for each
  pool it asks.
\<close>

subsection \<open>Records, encoders, fanout handlers\<close>

record 'r Record =
  recTime :: Time
  recLevel :: int
  recBody :: 'r

datatype 'a scope = Attrs 'a | Group string

text \<open>
  \<open>encode\<close> is what \<^verbatim>\<open>Handle\<close> of an encoder writes to its buffer; \<open>grownCap\<close> the capacity of a buffer after
  writing so many bytes to it.
\<close>

record ('e, 'a, 'r) Encoder =
  newEncoder :: 'e
  encode :: "'e \<Rightarrow> 'r Record \<Rightarrow> string + string"
  within :: "'a scope \<Rightarrow> 'e \<Rightarrow> 'e"
  grownCap :: "int \<Rightarrow> nat \<Rightarrow> int"

record ('f, 'a) FanoutHandler =
  fanEnabled :: "'f \<Rightarrow> int \<Rightarrow> bool"
  fanWithin :: "'a scope \<Rightarrow> 'f \<Rightarrow> 'f"

subsection \<open>Handlers\<close>

record 'e writer =
  bufferCap :: int
  encoder :: 'e

text \<open>
  The handlers made from one \<^verbatim>\<open>newHandler\<close>: each knows the handler it was derived from and the scope that
  was added, which is what its pool does for a new writer.
\<close>

record ('e, 'f, 'a) handler =
  parent :: "(nat \<times> 'a scope) option"
  writers :: "'e writer list"
  handlers :: "'f list"

definition bbcap :: int where
  "bbcap = 65536"

definition newHandler :: "('e, 'f, 'a) handler" where
  "newHandler = \<lparr>parent = None, writers = [], handlers = []\<rparr>"

definition fanout :: "nat \<Rightarrow> 'f list \<Rightarrow> ('e, 'f, 'a) handler list \<Rightarrow> ('e, 'f, 'a) handler list" where
  "fanout h fs hs = hs[h := (hs ! h)\<lparr>handlers := handlers (hs ! h) @ fs\<rparr>]"

text \<open>\<^verbatim>\<open>WithAttrs\<close> and \<^verbatim>\<open>WithGroup\<close>: the new handler is the last one.\<close>

definition derive :: "('f, 'a) FanoutHandler \<Rightarrow> nat \<Rightarrow> 'a scope \<Rightarrow> ('e, 'f, 'a) handler list \<Rightarrow> ('e, 'f, 'a) handler list" where
  "derive F h sc hs =
     hs @ [\<lparr>parent = Some (h, sc), writers = [], handlers = map (fanWithin F sc) (handlers (hs ! h))\<rparr>]"

text \<open>The level of the options, or \<^verbatim>\<open>slog.LevelInfo\<close> when there are none.\<close>

definition enabledSelf :: "int option \<Rightarrow> int \<Rightarrow> bool" where
  "enabledSelf minLevel l = (l \<ge> (case minLevel of None \<Rightarrow> 0 | Some m \<Rightarrow> m))"

definition Enabled :: "('f, 'a) FanoutHandler \<Rightarrow> int option \<Rightarrow> ('e, 'f, 'a) handler \<Rightarrow> int \<Rightarrow> bool" where
  "Enabled F minLevel h l = (enabledSelf minLevel l \<or> list_ex (\<lambda>f. fanEnabled F f l) (handlers h))"

text \<open>\<^verbatim>\<open>writers.Get()\<close>, and \<^verbatim>\<open>writers.New\<close> when the pool gives none.\<close>

fun getWriter :: "('e, 'a, 'r) Encoder \<Rightarrow> nat option list \<Rightarrow> nat \<Rightarrow> ('e, 'f, 'a) handler list
    \<Rightarrow> 'e writer \<times> ('e, 'f, 'a) handler list" where
  "getWriter E choices h hs =
     (let pool = writers (hs ! h)
      in case (case choices of Some j # _ \<Rightarrow> if j < length pool then Some j else None | _ \<Rightarrow> None) of
           Some j \<Rightarrow> (pool ! j, hs[h := (hs ! h)\<lparr>writers := take j pool @ drop (Suc j) pool\<rparr>])
         | None \<Rightarrow>
             (case parent (hs ! h) of
                None \<Rightarrow> (\<lparr>bufferCap = 1024, encoder = newEncoder E\<rparr>, hs)
              | Some (p, sc) \<Rightarrow>
                  if p < h
                  then let (w, hs) = getWriter E (tl choices) p hs in (w\<lparr>encoder := within E sc (encoder w)\<rparr>, hs)
                  else (\<lparr>bufferCap = 1024, encoder = newEncoder E\<rparr>, hs)))"

declare getWriter.simps [simp del]

definition putWriter :: "nat \<Rightarrow> 'e writer \<Rightarrow> ('e, 'f, 'a) handler list \<Rightarrow> ('e, 'f, 'a) handler list" where
  "putWriter h w hs = hs[h := (hs ! h)\<lparr>writers := writers (hs ! h) @ [w]\<rparr>]"

text \<open>
  \<^verbatim>\<open>Handle\<close>: the fanout handlers the record goes to, the error, the pools and the ingester. A writer whose
  encoder fails is not put back.
\<close>

definition Handle :: "('e, 'a, 'r) Encoder \<Rightarrow> ('f, 'a) FanoutHandler \<Rightarrow> int option \<Rightarrow> nat option list \<Rightarrow> nat \<Rightarrow> 'r Record
    \<Rightarrow> ('e, 'f, 'a) handler list \<Rightarrow> ingester \<Rightarrow> panic + ('f list \<times> string option \<times> ('e, 'f, 'a) handler list \<times> ingester)" where
  "Handle E F minLevel choices h record hs i =
     (let fans = filter (\<lambda>f. fanEnabled F f (recLevel record)) (handlers (hs ! h))
      in if enabledSelf minLevel (recLevel record)
         then (case getWriter E choices h hs of
                 (w, hs) \<Rightarrow>
                   (case encode E (encoder w) record of
                      Inl err \<Rightarrow> Inr (fans, Some err, hs, i)
                    | Inr bytes \<Rightarrow>
                        (case (if length bytes > 0 then Ingest (recTime record) (i8 (recLevel record)) bytes i else Inr i) of
                           Inl p \<Rightarrow> Inl p
                         | Inr i \<Rightarrow>
                             let w = w\<lparr>bufferCap := grownCap E (bufferCap w) (length bytes)\<rparr>
                             in Inr (fans, None, (if bufferCap w \<le> bbcap then putWriter h w hs else hs), i))))
         else Inr (fans, None, hs, i))"

subsection \<open>Which encoder a writer has\<close>

text \<open>The encoder a handler should use: a new one, in all the scopes added on the way to the handler.\<close>

fun scoped :: "('e, 'a, 'r) Encoder \<Rightarrow> nat \<Rightarrow> ('e, 'f, 'a) handler list \<Rightarrow> 'e" where
  "scoped E h hs =
     (case parent (hs ! h) of
        None \<Rightarrow> newEncoder E
      | Some (p, sc) \<Rightarrow> if p < h then within E sc (scoped E p hs) else newEncoder E)"

declare scoped.simps [simp del]

definition pools_ok :: "('e, 'a, 'r) Encoder \<Rightarrow> ('e, 'f, 'a) handler list \<Rightarrow> bool" where
  "pools_ok E hs = (\<forall>h < length hs. \<forall>w \<in> set (writers (hs ! h)). encoder w = scoped E h hs)"

definition same_parents :: "('e, 'f, 'a) handler list \<Rightarrow> ('e, 'f, 'a) handler list \<Rightarrow> bool" where
  "same_parents hs hs' = (length hs \<le> length hs' \<and> (\<forall>h < length hs. parent (hs' ! h) = parent (hs ! h)))"

lemma scoped_same:
  assumes "same_parents hs hs'" "h < length hs"
  shows "scoped E h hs' = scoped E h hs"
  using assms(2)
proof (induction h rule: less_induct)
  case (less h)
  have p: "parent (hs' ! h) = parent (hs ! h)" using assms(1) less.prems by (simp add: same_parents_def)
  have "scoped E p hs' = scoped E p hs" if "p < h" for p using less that by simp
  then show ?case by (subst (1 2) scoped.simps) (simp add: p split: option.splits)
qed

lemma same_parents_update: "parent x = parent (hs ! h) \<Longrightarrow> same_parents hs (hs[h := x])"
  unfolding same_parents_def by (metis length_list_update nth_list_update_eq nth_list_update_neq order_refl)

lemma pools_update:
  assumes "pools_ok E hs" "parent x = parent (hs ! h)" "\<And>w. w \<in> set (writers x) \<Longrightarrow> encoder w = scoped E h hs"
  shows "pools_ok E (hs[h := x])"
  unfolding pools_ok_def
proof (intro allI impI ballI)
  fix k w assume k: "k < length (hs[h := x])" and w: "w \<in> set (writers (hs[h := x] ! k))"
  have "encoder w = scoped E k hs"
    using assms k w by (cases "k = h") (auto simp: pools_ok_def)
  then show "encoder w = scoped E k (hs[h := x])"
    using scoped_same [OF same_parents_update [OF assms(2)], of k E] k by simp
qed

lemma getWriter_keeps:
  "pools_ok E hs \<Longrightarrow> h < length hs \<Longrightarrow> getWriter E choices h hs = (w, hs') \<Longrightarrow>
     encoder w = scoped E h hs \<and> pools_ok E hs' \<and> same_parents hs hs' \<and> length hs' = length hs"
proof (induction h arbitrary: choices w hs' rule: less_induct)
  case (less h)
  let ?pool = "writers (hs ! h)"
  let ?choice = "case choices of Some j # _ \<Rightarrow> if j < length ?pool then Some j else None | _ \<Rightarrow> None"
  show ?case
  proof (cases ?choice)
    case (Some j)
    then have j: "j < length ?pool" by (auto split: list.splits option.splits if_splits)
    have r: "w = ?pool ! j" "hs' = hs[h := (hs ! h)\<lparr>writers := take j ?pool @ drop (Suc j) ?pool\<rparr>]"
      using less.prems(3) Some by (simp_all add: getWriter.simps [of E choices h hs] Let_def)
    have "set (take j ?pool @ drop (Suc j) ?pool) \<subseteq> set ?pool" using set_take_subset set_drop_subset by fastforce
    then have "pools_ok E hs'"
      using less.prems(1,2) unfolding r(2) by (intro pools_update) (auto simp: pools_ok_def)
    then show ?thesis using r j less.prems(1,2) same_parents_update [of "(hs ! h)\<lparr>writers := take j ?pool @ drop (Suc j) ?pool\<rparr>" hs h]
      by (simp add: pools_ok_def)
  next
    case None
    show ?thesis
    proof (cases "\<exists>p sc. parent (hs ! h) = Some (p, sc) \<and> p < h")
      case False
      then have "w = \<lparr>bufferCap = 1024, encoder = newEncoder E\<rparr>" "hs' = hs" "scoped E h hs = newEncoder E"
        using less.prems(3) None
        by (auto simp: getWriter.simps [of E choices h hs] scoped.simps [of E h hs] Let_def split: option.splits)
      then show ?thesis using less.prems(1) by (simp add: same_parents_def)
    next
      case True
      then obtain p sc where p: "parent (hs ! h) = Some (p, sc)" "p < h" by blast
      obtain v hs1 where v: "getWriter E (tl choices) p hs = (v, hs1)" by fastforce
      have "w = v\<lparr>encoder := within E sc (encoder v)\<rparr>" "hs' = hs1" "scoped E h hs = within E sc (scoped E p hs)"
        using less.prems(3) None p v
        by (simp_all add: getWriter.simps [of E choices h hs] scoped.simps [of E h hs] Let_def)
      with less.IH [OF p(2) less.prems(1) _ v] less.prems(2) p(2) show ?thesis by simp
    qed
  qed
qed

lemma putWriter_keeps: "pools_ok E hs \<Longrightarrow> h < length hs \<Longrightarrow> encoder w = scoped E h hs \<Longrightarrow> pools_ok E (putWriter h w hs)"
  unfolding putWriter_def by (rule pools_update) (auto simp: pools_ok_def)

lemma Handle_scoped:
  assumes "pools_ok E hs" "h < length hs" "enabledSelf minLevel (recLevel r)"
    and "Handle E F minLevel choices h r hs i = Inr (fans, err, hs', i')"
  shows "pools_ok E hs' \<and>
    (case encode E (scoped E h hs) r of
       Inl e \<Rightarrow> err = Some e \<and> i' = i
     | Inr bytes \<Rightarrow> err = None \<and> (if bytes = [] then i' = i else Ingest (recTime r) (i8 (recLevel r)) bytes i = Inr i'))"
proof -
  obtain w hs1 where w: "getWriter E choices h hs = (w, hs1)" by fastforce
  note g = getWriter_keeps [OF assms(1,2) w]
  have s1: "scoped E h hs1 = scoped E h hs" using scoped_same [of hs hs1 h E] g assms(2) by blast
  show ?thesis
  proof (cases "encode E (encoder w) r")
    case (Inl e)
    then show ?thesis using assms(3,4) w g by (auto simp: Handle_def)
  next
    case (Inr bytes)
    let ?w = "w\<lparr>bufferCap := grownCap E (bufferCap w) (length bytes)\<rparr>"
    have ok: "pools_ok E (if bufferCap ?w \<le> bbcap then putWriter h ?w hs1 else hs1)"
      using g s1 assms(2) putWriter_keeps [of E hs1 h ?w] by auto
    show ?thesis
      using assms(3,4) w g Inr ok by (auto simp: Handle_def Let_def split: sum.splits if_splits)
  qed
qed

lemma Handle_keeps:
  assumes "pools_ok E hs" "h < length hs" "Handle E F minLevel choices h r hs i = Inr (fans, err, hs', i')"
  shows "pools_ok E hs'"
  using assms Handle_scoped [OF assms(1,2) _ assms(3)] by (cases "enabledSelf minLevel (recLevel r)") (auto simp: Handle_def)

lemma fanout_keeps: "pools_ok E hs \<Longrightarrow> h < length hs \<Longrightarrow> pools_ok E (fanout h fs hs)"
  unfolding fanout_def by (rule pools_update) (auto simp: pools_ok_def)

lemma derive_keeps:
  assumes "pools_ok E hs"
  shows "pools_ok E (derive F h sc hs)"
proof -
  have p: "same_parents hs (derive F h sc hs)" by (auto simp: same_parents_def derive_def nth_append)
  show ?thesis
    unfolding pools_ok_def
  proof (intro allI impI ballI)
    fix k w assume k: "k < length (derive F h sc hs)" and w: "w \<in> set (writers (derive F h sc hs ! k))"
    have "k < length hs"
    proof (rule ccontr)
      assume "\<not> k < length hs"
      then have "k = length hs" using k by (simp add: derive_def)
      then show False using w by (simp add: derive_def)
    qed
    then show "encoder w = scoped E k (derive F h sc hs)"
      using assms w scoped_same [OF p, of k E] by (simp add: pools_ok_def derive_def nth_append)
  qed
qed

lemma derive_scoped: "h < length hs \<Longrightarrow> scoped E (length hs) (derive F h sc hs) = within E sc (scoped E h hs)"
proof -
  assume h: "h < length hs"
  have p: "same_parents hs (derive F h sc hs)" by (auto simp: same_parents_def derive_def nth_append)
  have "parent (derive F h sc hs ! length hs) = Some (h, sc)" by (simp add: derive_def)
  then show ?thesis using h scoped_same [OF p h, of E] by (subst scoped.simps) simp
qed

end
