(* ===== verification/Sqlog.thy ===== *)
theory Sqlog imports Handler SqliteScheduler begin

text \<open>
  \<^verbatim>\<open>sqlog.go\<close>, the API of \<^verbatim>\<open>sqlog_api.go\<close> and the stub of \<^verbatim>\<open>memory/memory.go\<close>: a log is the handlers made
  from its first one, its ingester and its storage. The API is an optional interface of the storage.
\<close>

subsection \<open>The log\<close>

record ('e, 'f, 'a, 's) sqlog =
  stopped :: bool
  handlerTree :: "('e, 'f, 'a) handler list"
  logIngester :: ingester
  logStorage :: 's

definition sqlog_New :: "IngesterConfig option \<Rightarrow> 's \<Rightarrow> ('e, 'f, 'a, 's) sqlog" where
  "sqlog_New c s = \<lparr>stopped = False, handlerTree = [newHandler], logIngester = NewIngester c, logStorage = s\<rparr>"

text \<open>\<^verbatim>\<open>Handler\<close> is the first handler of the tree, \<^verbatim>\<open>Fanout\<close> adds to that one.\<close>

definition sqlog_Handler :: nat where
  "sqlog_Handler = 0"

definition sqlog_Fanout :: "'f list \<Rightarrow> ('e, 'f, 'a, 's) sqlog \<Rightarrow> ('e, 'f, 'a, 's) sqlog" where
  "sqlog_Fanout fs l = l\<lparr>handlerTree := fanout sqlog_Handler fs (handlerTree l)\<rparr>"

text \<open>\<^verbatim>\<open>Stop\<close>, under \<^verbatim>\<open>sync.Once\<close>; the error of \<^verbatim>\<open>Close\<close> is only printed.\<close>

definition sqlog_Stop :: "'s Storage \<Rightarrow> ('e, 'f, 'a, 's) sqlog \<Rightarrow> ('e, 'f, 'a, 's) sqlog option" where
  "sqlog_Stop S l =
     (if stopped l then Some l
      else case Close S (logIngester l) (logStorage l) of
             None \<Rightarrow> None
           | Some (_, i, s) \<Rightarrow> Some (l\<lparr>stopped := True, logIngester := i, logStorage := s\<rparr>))"

subsection \<open>What a program does with a log\<close>

text \<open>
  A record through a handler, with the choices of the pools; a handler derived from another; fanout
  handlers; a tick of the ingester's routine; \<^verbatim>\<open>Stop\<close>.
\<close>

datatype ('r, 'a, 'f) use = Write nat "'r Record" "nat option list" | With nat "'a scope" | AddFanout "'f list"
  | RoutineTick Time | StopLog

fun use_log :: "('e, 'a, 'r) Encoder \<Rightarrow> ('f, 'a) FanoutHandler \<Rightarrow> int option \<Rightarrow> 's Storage \<Rightarrow> ('r, 'a, 'f) use
    \<Rightarrow> ('e, 'f, 'a, 's) sqlog \<Rightarrow> (panic + ('e, 'f, 'a, 's) sqlog) option" where
  "use_log E F m S (Write h r choices) l =
     (case Handle E F m choices h r (handlerTree l) (logIngester l) of
        Inl p \<Rightarrow> Some (Inl p)
      | Inr (_, _, hs, i) \<Rightarrow> Some (Inr (l\<lparr>handlerTree := hs, logIngester := i\<rparr>)))"
| "use_log E F m S (With h sc) l = Some (Inr (l\<lparr>handlerTree := derive F h sc (handlerTree l)\<rparr>))"
| "use_log E F m S (AddFanout fs) l = Some (Inr (sqlog_Fanout fs l))"
| "use_log E F m S (RoutineTick now) l =
     (case step S (Tick now) (logIngester l, logStorage l) of
        None \<Rightarrow> None
      | Some (Inl p) \<Rightarrow> Some (Inl p)
      | Some (Inr (i, s)) \<Rightarrow> Some (Inr (l\<lparr>logIngester := i, logStorage := s\<rparr>)))"
| "use_log E F m S StopLog l = map_option Inr (sqlog_Stop S l)"

fun use_all :: "('e, 'a, 'r) Encoder \<Rightarrow> ('f, 'a) FanoutHandler \<Rightarrow> int option \<Rightarrow> 's Storage \<Rightarrow> ('r, 'a, 'f) use list
    \<Rightarrow> ('e, 'f, 'a, 's) sqlog \<Rightarrow> (panic + ('e, 'f, 'a, 's) sqlog) option" where
  "use_all E F m S [] l = Some (Inr l)"
| "use_all E F m S (u # us) l =
     (case use_log E F m S u l of
        None \<Rightarrow> None | Some (Inl p) \<Rightarrow> Some (Inl p) | Some (Inr l) \<Rightarrow> use_all E F m S us l)"

subsection \<open>The API of a storage\<close>

text \<open>An answer of the API; \<open>Done None\<close> is a nil result.\<close>

datatype 'err answer = Panicked panic | Failed 'err | Done "Output option"

record ('s, 'err) StorageWithApi =
  apiTicks :: "TicksInput \<Rightarrow> 's \<Rightarrow> 'err answer \<times> 's"
  apiEntries :: "EntriesInput \<Rightarrow> 's \<Rightarrow> 'err answer \<times> 's"
  apiResult :: "int \<Rightarrow> 's \<Rightarrow> 'err answer \<times> 's"
  apiCancel :: "int \<Rightarrow> 's \<Rightarrow> 'err answer \<times> 's"

definition sqlog_Entries :: "('s, 'err) StorageWithApi option \<Rightarrow> EntriesInput \<Rightarrow> 's \<Rightarrow> 'err answer \<times> 's" where
  "sqlog_Entries api input s =
     (case api of Some A \<Rightarrow> apiEntries A input s | None \<Rightarrow> (Done (Some zeroOutput), s))"

definition sqlog_Ticks :: "('s, 'err) StorageWithApi option \<Rightarrow> TicksInput \<Rightarrow> 's \<Rightarrow> 'err answer \<times> 's" where
  "sqlog_Ticks api input s =
     (case api of Some A \<Rightarrow> apiTicks A input s | None \<Rightarrow> (Done (Some zeroOutput), s))"

definition sqlog_Result :: "('s, 'err) StorageWithApi option \<Rightarrow> int \<Rightarrow> 's \<Rightarrow> 'err answer \<times> 's" where
  "sqlog_Result api tid s =
     (case api of Some A \<Rightarrow> apiResult A tid s | None \<Rightarrow> (Done (Some zeroOutput), s))"

definition sqlog_Cancel :: "('s, 'err) StorageWithApi option \<Rightarrow> int \<Rightarrow> 's \<Rightarrow> 'err answer \<times> 's" where
  "sqlog_Cancel api tid s = (case api of Some A \<Rightarrow> apiCancel A tid s | None \<Rightarrow> (Done None, s))"

text \<open>The SQLite storage has the API, at the time \<open>now\<close>.\<close>

definition answer_of :: "'err + Output \<Rightarrow> 'err answer" where
  "answer_of r = (case r of Inl err \<Rightarrow> Failed err | Inr out \<Rightarrow> Done (Some out))"

definition sqliteApi :: "'w Driver \<Rightarrow> int \<Rightarrow> (storage \<times> 'w, api_error) StorageWithApi" where
  "sqliteApi D now =
     \<lparr>apiTicks = (\<lambda>input (s, w). case storage_Ticks D input now s w of (r, s, w) \<Rightarrow> (answer_of r, s, w)),
      apiEntries = (\<lambda>input (s, w). case storage_Entries D input now s w of (r, s, w) \<Rightarrow> (answer_of r, s, w)),
      apiResult = (\<lambda>tid (s, w). case storage_Result tid s of (out, s) \<Rightarrow> (Done out, s, w)),
      apiCancel = (\<lambda>tid (s, w). case storage_Cancel tid s of
         (Inl p, s) \<Rightarrow> (Panicked p, s, w) | (Inr _, s) \<Rightarrow> (Done None, s, w))\<rparr>"

text \<open>The memory storage keeps nothing; \<^verbatim>\<open>Result\<close> and \<^verbatim>\<open>Cancel\<close> are those of an embedded nil interface.\<close>

definition memoryStorage :: "'s Storage" where
  "memoryStorage = \<lparr>Flush = (\<lambda>_ s. (None, s)), CloseStorage = (\<lambda>s. (None, s))\<rparr>"

definition memoryApi :: "('s, 'err) StorageWithApi" where
  "memoryApi =
     \<lparr>apiTicks = (\<lambda>_ s. (Done None, s)), apiEntries = (\<lambda>_ s. (Done None, s)),
      apiResult = (\<lambda>_ s. (Panicked NilDereference, s)), apiCancel = (\<lambda>_ s. (Panicked NilDereference, s))\<rparr>"

end
