(* ===== verification/SqlogProperties.thy ===== *)
theory SqlogProperties imports Sqlog begin

text \<open>
  The handlers, the ingester and the storage together: what a program writes through handlers arrives at the
  storage, encoded in the scopes of its handler, whatever the pools of writers do.
\<close>

subsection \<open>What a program writes\<close>

text \<open>A record that is enabled and that its encoder turns into some bytes.\<close>

definition record_events :: "('e, 'a, 'r) Encoder \<Rightarrow> int option \<Rightarrow> 'e \<Rightarrow> 'r Record \<Rightarrow> event list" where
  "record_events E m e r =
     (if enabledSelf m (recLevel r)
      then (case encode E e r of Inl _ \<Rightarrow> [] | Inr bytes \<Rightarrow> if bytes = [] then [] else [Log (recTime r) (i8 (recLevel r)) bytes])
      else [])"

text \<open>The ingester's view of a use of the log; \<open>es\<close> are the encoders of the handlers made so far.\<close>

fun use_events :: "('e, 'a, 'r) Encoder \<Rightarrow> int option \<Rightarrow> 'e list \<Rightarrow> ('r, 'a, 'f) use list \<Rightarrow> event list" where
  "use_events E m es [] = []"
| "use_events E m es (Write h r _ # us) = record_events E m (es ! h) r @ use_events E m es us"
| "use_events E m es (With h sc # us) = use_events E m (es @ [within E sc (es ! h)]) us"
| "use_events E m es (AddFanout _ # us) = use_events E m es us"
| "use_events E m es (RoutineTick now # us) = Tick now # use_events E m es us"
| "use_events E m es (StopLog # us) = Stop # use_events E m es us"

text \<open>The handlers a program uses are handlers it has.\<close>

fun uses_ok :: "nat \<Rightarrow> ('r, 'a, 'f) use list \<Rightarrow> bool" where
  "uses_ok n [] = True"
| "uses_ok n (Write h r _ # us) = (h < n \<and> uses_ok n us)"
| "uses_ok n (With h sc # us) = (h < n \<and> uses_ok (Suc n) us)"
| "uses_ok n (StopLog # us) = False"
| "uses_ok n (_ # us) = uses_ok n us"

subsection \<open>The handlers are those of the ingester's run\<close>

lemma same_parents_refl [simp]: "same_parents hs hs"
  by (simp add: same_parents_def)

lemma Handle_parents:
  assumes "pools_ok E hs" "h < length hs" "Handle E F m choices h r hs i = Inr (fans, err, hs', i')"
  shows "same_parents hs hs' \<and> length hs' = length hs"
proof -
  obtain w hs1 where w: "getWriter E choices h hs = (w, hs1)" by fastforce
  note g = getWriter_keeps [OF assms(1,2) w]
  have "same_parents hs1 (putWriter h v hs1)" for v
    unfolding putWriter_def by (rule same_parents_update) simp
  then have "same_parents hs (putWriter h v hs1)" for v
    using g by (auto simp: same_parents_def)
  with assms(3) w g show ?thesis
    by (auto simp: Handle_def Let_def putWriter_def split: sum.splits if_splits)
qed

lemma Handle_runs:
  assumes "pools_ok E hs" "h < length hs"
  shows "run S (record_events E m (scoped E h hs) r) (i, s) =
    Some (map_sum (\<lambda>p. p) (\<lambda>(_, _, _, i). (i, s)) (Handle E F m choices h r hs i))"
proof -
  obtain w hs1 where w: "getWriter E choices h hs = (w, hs1)" by fastforce
  note g = getWriter_keeps [OF assms w]
  then show ?thesis
    using w by (auto simp: Handle_def record_events_def Let_def split: sum.splits option.splits)
qed

definition encoders :: "('e, 'a, 'r) Encoder \<Rightarrow> ('e, 'f, 'a) handler list \<Rightarrow> 'e list" where
  "encoders E hs = map (\<lambda>h. scoped E h hs) [0 ..< length hs]"

lemma encoders_same: "same_parents hs hs' \<Longrightarrow> length hs' = length hs \<Longrightarrow> encoders E hs' = encoders E hs"
  by (auto simp: encoders_def scoped_same)

lemma encoders_derive:
  assumes "h < length hs"
  shows "encoders E (derive F h sc hs) = encoders E hs @ [within E sc (encoders E hs ! h)]"
proof -
  have p: "same_parents hs (derive F h sc hs)" by (auto simp: same_parents_def derive_def nth_append)
  have l: "length (derive F h sc hs) = Suc (length hs)" by (simp add: derive_def)
  show ?thesis using assms derive_scoped [OF assms, of E F sc] by (auto simp: encoders_def l scoped_same [OF p])
qed

lemma use_all_runs:
  "pools_ok E (handlerTree l) \<Longrightarrow> handlerTree l \<noteq> [] \<Longrightarrow> uses_ok (length (handlerTree l)) us \<Longrightarrow>
     map_option (map_sum (\<lambda>p. p) (\<lambda>l. (stopped l, logIngester l, logStorage l))) (use_all E F m S us l) =
     map_option (map_sum (\<lambda>p. p) (\<lambda>x. (stopped l, x)))
       (run S (use_events E m (encoders E (handlerTree l)) us) (logIngester l, logStorage l))"
proof (induction us arbitrary: l)
  case (Cons u us)
  note ok = Cons.prems(1)
  show ?case
  proof (cases u)
    case (Write h r choices)
    then have h: "h < length (handlerTree l)" using Cons.prems(3) by simp
    have e: "encoders E (handlerTree l) ! h = scoped E h (handlerTree l)" using h by (simp add: encoders_def)
    note rn = Handle_runs [OF ok h, of S m r "logIngester l" "logStorage l" F choices]
    show ?thesis
    proof (cases "Handle E F m choices h r (handlerTree l) (logIngester l)")
      case (Inl p)
      with rn show ?thesis by (simp add: Write e run_append)
    next
      case (Inr x)
      obtain fans err hs i where x: "x = (fans, err, hs, i)" by (cases x) auto
      note Handle = Inr [unfolded x]
      note p = Handle_parents [OF ok h Handle]
      have ne: "hs \<noteq> []" using p Cons.prems(2) by auto
      have es: "encoders E hs = encoders E (handlerTree l)" using p by (intro encoders_same) auto
      with Cons.IH [of "l\<lparr>handlerTree := hs, logIngester := i\<rparr>"] Cons.prems(3) p Handle_keeps [OF ok h Handle] rn Handle ne
      show ?thesis by (simp add: Write e run_append es)
    qed
  next
    case (With h sc)
    then have h: "h < length (handlerTree l)" using Cons.prems(3) by simp
    have "length (derive F h sc (handlerTree l)) = Suc (length (handlerTree l))" "derive F h sc (handlerTree l) \<noteq> []"
      by (simp_all add: derive_def)
    with Cons.IH [of "l\<lparr>handlerTree := derive F h sc (handlerTree l)\<rparr>"] Cons.prems(3) derive_keeps [OF ok] With h
    show ?thesis by (simp add: encoders_derive)
  next
    case (AddFanout fs)
    have "same_parents (handlerTree l) (fanout 0 fs (handlerTree l))"
      unfolding fanout_def by (rule same_parents_update) simp
    moreover have "length (fanout 0 fs (handlerTree l)) = length (handlerTree l)" "fanout 0 fs (handlerTree l) \<noteq> []"
      using Cons.prems(2) by (simp_all add: fanout_def)
    ultimately show ?thesis
      using Cons.IH [of "sqlog_Fanout fs l"] Cons.prems AddFanout fanout_keeps [OF ok, of 0 fs]
        encoders_same [of "handlerTree l" "fanout 0 fs (handlerTree l)" E]
      by (simp add: sqlog_Fanout_def sqlog_Handler_def)
  next
    case (RoutineTick now)
    have "map_option (map_sum (\<lambda>p. p) (\<lambda>l. (stopped l, logIngester l, logStorage l)))
            (use_all E F m S us (l\<lparr>logIngester := i, logStorage := s\<rparr>)) =
          map_option (map_sum (\<lambda>p. p) (\<lambda>x. (stopped l, x)))
            (run S (use_events E m (encoders E (handlerTree l)) us) (i, s))" for i s
      using Cons.IH [of "l\<lparr>logIngester := i, logStorage := s\<rparr>"] Cons.prems RoutineTick by simp
    with RoutineTick Cons.IH [of l] Cons.prems show ?thesis
      by (cases "quit (logIngester l)") (auto split: option.splits sum.splits)
  qed (use Cons.prems in simp)
qed simp

lemma start_ok: "pools_ok E [newHandler]" "encoders E [newHandler] = [newEncoder E]"
  by (simp_all add: pools_ok_def newHandler_def encoders_def scoped.simps)

lemma use_all_append: "use_all E F m S (us @ us') l =
    (case use_all E F m S us l of None \<Rightarrow> None | Some (Inl p) \<Rightarrow> Some (Inl p) | Some (Inr l) \<Rightarrow> use_all E F m S us' l)"
  by (induction us arbitrary: l) (auto split: option.splits sum.splits)

lemma stopped_stays: "stopped l \<Longrightarrow> use_all E F m S (replicate k StopLog) l = Some (Inr l)"
  by (induction k) (simp_all add: sqlog_Stop_def)

lemma record_no_stop: "list_all (\<lambda>ev. ev \<noteq> Stop) (record_events E m e r)"
  by (auto simp: record_events_def split: sum.split)

lemma use_events_no_stop: "uses_ok n us \<Longrightarrow> Stop \<notin> set (use_events E m es us)"
proof (induction us arbitrary: n es)
  case (Cons u us)
  then show ?case by (cases u) (use record_no_stop in \<open>fastforce simp: list_all_iff\<close>)+
qed simp

subsection \<open>Properties\<close>

text \<open>
  A program derives handlers, adds fanout handlers and writes records through any of its
  handlers while the routine ticks; then it stops the log, once or more often. The log neither panics nor
  hangs, and a storage whose \<^verbatim>\<open>Flush\<close> does not fail gets exactly the enabled records, once and in order,
  each encoded by a new encoder in the groups and attributes of its own handler: which writers the pools
  give, and which handlers used them before, does not matter.
\<close>

theorem written_is_delivered:
  assumes "valid_config c" "uses_ok 1 us" "\<And>c s. fst (Flush S c s) = None"
  shows "\<exists>l. use_all E F m (observed S) (us @ replicate (Suc k) StopLog) (sqlog_New (Some c) (s0, [])) = Some (Inr l)
    \<and> stopped l \<and> delivered (snd (logStorage l)) = logged (use_events E m [newEncoder E] us)"
proof -
  let ?l = "sqlog_New (Some c) (s0, [])" and ?evs = "use_events E m [newEncoder E] us"
  obtain i s tr where stop: "run (observed S) (?evs @ [Stop]) (NewIngester (Some c), (s0, [])) = Some (Inr (i, (s, tr)))"
    "quit i" "delivered tr = logged ?evs"
    using reliable_close [OF assms(1) use_events_no_stop [OF assms(2)] assms(3)] by blast
  then obtain i1 x1 where r: "run (observed S) ?evs (NewIngester (Some c), (s0, [])) = Some (Inr (i1, x1))"
    "step (observed S) Stop (i1, x1) = Some (Inr (i, (s, tr)))"
    by (auto simp: run_append split: option.splits sum.splits)
  have "map_option (map_sum (\<lambda>p. p) (\<lambda>l. (stopped l, logIngester l, logStorage l))) (use_all E F m (observed S) us ?l) =
      Some (Inr (False, i1, x1))"
    using use_all_runs [of E ?l us F m "observed S"] assms(2) r(1) by (simp add: sqlog_New_def start_ok)
  then obtain l where l: "use_all E F m (observed S) us ?l = Some (Inr l)" "\<not> stopped l" "logIngester l = i1" "logStorage l = x1"
    by (auto simp: map_sum_Inr_iff)
  let ?stop = "l\<lparr>stopped := True, logIngester := i, logStorage := (s, tr)\<rparr>"
  have "use_log E F m (observed S) StopLog l = Some (Inr ?stop)"
    using l r(2) by (auto simp: sqlog_Stop_def split: option.splits)
  then have "use_all E F m (observed S) (us @ replicate (Suc k) StopLog) ?l = Some (Inr ?stop)"
    using l(1) by (simp add: use_all_append stopped_stays)
  then show ?thesis using stop(3) by simp
qed

text \<open>An encoder that writes its attributes and groups before the message, and no fanout handlers.\<close>

definition plainEncoder :: "(string, string, string) Encoder" where
  "plainEncoder =
     \<lparr>newEncoder = '''', encode = (\<lambda>e r. Inr (e @ recBody r)),
      within = (\<lambda>sc e. case sc of Attrs a \<Rightarrow> e @ a @ '' '' | Group g \<Rightarrow> e @ g @ ''.''),
      grownCap = (\<lambda>cap n. max cap (int n))\<rparr>"

definition noFanout :: "(unit, string) FanoutHandler" where
  "noFanout = \<lparr>fanEnabled = (\<lambda>_ _. False), fanWithin = (\<lambda>_ f. f)\<rparr>"

definition message :: "int \<Rightarrow> int \<Rightarrow> string \<Rightarrow> string Record" where
  "message t l m = \<lparr>recTime = at_sec t, recLevel = l, recBody = m\<rparr>"

theorem written_is_delivered_witness:
  "\<exists>l. use_all plainEncoder noFanout None (observed (DummyStorage :: unit Storage))
      ([With 0 (Group ''g''), With 1 (Attrs ''a=1''), Write 0 (message 7 0 ''x'') [], Write 2 (message 8 4 ''y'') [None, None, Some 0],
        RoutineTick (at_sec 9), Write 0 (message 9 (- 4) ''z'') []] @ replicate (Suc 1) StopLog)
      (sqlog_New (Some cfg1) ((), [])) = Some (Inr l)
    \<and> stopped l \<and> delivered (snd (logStorage l)) =
        [\<lparr>etime = at_sec 7, level = 0, content = ''x''\<rparr>, \<lparr>etime = at_sec 8, level = 4, content = ''g.a=1 y''\<rparr>]"
  using written_is_delivered [of cfg1 "[With 0 (Group ''g''), With 1 (Attrs ''a=1''), Write 0 (message 7 0 ''x'') [],
      Write 2 (message 8 4 ''y'') [None, None, Some 0], RoutineTick (at_sec 9), Write 0 (message 9 (- 4) ''z'') []]"
      DummyStorage plainEncoder noFanout None 1 "()"]
  by (simp add: valid_config_def cfg1_def DummyStorage_def plainEncoder_def message_def record_events_def
      enabledSelf_def i8_def)

end
