(* ===== verification/LogConfig.thy ===== *)
theory LogConfig imports SqlogProperties begin

text \<open>
  The configuration of a log: \<^verbatim>\<open>Config\<close> and \<^verbatim>\<open>New\<close> of \<^verbatim>\<open>sqlog.go\<close>, \<^verbatim>\<open>HandlerConfig\<close> and the defaults of \<^verbatim>\<open>newHandler\<close> in
  \<^verbatim>\<open>handler.go\<close>. Any part may be nil. The JSON handler of \<^verbatim>\<open>log/slog\<close>, the default encoder, is outside: it is an
  argument \<open>json\<close>.
\<close>

subsection \<open>The handler\<close>

text \<open>A level that is not set is a nil \<^verbatim>\<open>slog.Leveler\<close>.\<close>

record HandlerOptions =
  AddSource :: bool
  MinLevel :: "int option"

type_synonym ('e, 'a, 'r) EncoderFn = "HandlerOptions \<Rightarrow> ('e, 'a, 'r) Encoder"

record ('e, 'a, 'r) HandlerConfig =
  encoderOf :: "('e, 'a, 'r) EncoderFn option"
  optionsOf :: "HandlerOptions option"

definition LevelInfo :: int where
  "LevelInfo = 0"

definition handler_defaults :: "('e, 'a, 'r) EncoderFn \<Rightarrow> ('e, 'a, 'r) HandlerConfig option \<Rightarrow> ('e, 'a, 'r) HandlerConfig" where
  "handler_defaults json cfg =
     (let c = (case cfg of None \<Rightarrow> \<lparr>encoderOf = None, optionsOf = None\<rparr> | Some c \<Rightarrow> c);
          c = (case encoderOf c of None \<Rightarrow> c\<lparr>encoderOf := Some json\<rparr> | Some _ \<Rightarrow> c);
          c = (case optionsOf c of
                 None \<Rightarrow> c\<lparr>optionsOf := Some \<lparr>AddSource = False, MinLevel = Some LevelInfo\<rparr>\<rparr>
               | Some _ \<Rightarrow> c)
      in c)"

text \<open>What a new writer of the first handler encodes with, and the level \<^verbatim>\<open>enabledSelf\<close> compares with.\<close>

definition config_encoder :: "('e, 'a, 'r) HandlerConfig \<Rightarrow> ('e, 'a, 'r) Encoder" where
  "config_encoder c = the (encoderOf c) (the (optionsOf c))"

definition config_level :: "('e, 'a, 'r) HandlerConfig \<Rightarrow> int option" where
  "config_level c = MinLevel (the (optionsOf c))"

text \<open>The defaults leave neither part nil, so both are there when they are used.\<close>

lemma handler_defaults_set:
  "encoderOf (handler_defaults json cfg) \<noteq> None \<and> optionsOf (handler_defaults json cfg) \<noteq> None"
  by (auto simp: handler_defaults_def Let_def split: option.splits)

lemma handler_defaults_kept:
  "encoderOf (handler_defaults json (Some c)) = Some (case encoderOf c of None \<Rightarrow> json | Some f \<Rightarrow> f)"
  "optionsOf (handler_defaults json (Some c)) =
     Some (case optionsOf c of None \<Rightarrow> \<lparr>AddSource = False, MinLevel = Some LevelInfo\<rparr> | Some opts \<Rightarrow> opts)"
  by (simp_all add: handler_defaults_def Let_def split: option.splits)

lemma handler_defaults_nil: "handler_defaults json None = handler_defaults json (Some \<lparr>encoderOf = None, optionsOf = None\<rparr>)"
  by (simp add: handler_defaults_def)

subsection \<open>The log\<close>

record ('e, 'a, 'r, 's) LogConfig =
  storageOf :: "'s Storage option"
  handlerOf :: "('e, 'a, 'r) HandlerConfig option"
  ingesterOf :: "IngesterConfig option"

definition log_config :: "('e, 'a, 'r, 's) LogConfig option \<Rightarrow> ('e, 'a, 'r, 's) LogConfig" where
  "log_config cfg = (case cfg of None \<Rightarrow> \<lparr>storageOf = None, handlerOf = None, ingesterOf = None\<rparr> | Some c \<Rightarrow> c)"

definition log_storage :: "('e, 'a, 'r, 's) LogConfig \<Rightarrow> 's Storage" where
  "log_storage c = (case storageOf c of None \<Rightarrow> DummyStorage | Some S \<Rightarrow> S)"

text \<open>
  A program with a log made by \<^verbatim>\<open>New\<close>: its uses run with the encoder, the level and the storage of the
  configuration. The storage keeps a journal of its flushes, which the code cannot see.
\<close>

definition run_program :: "('e, 'a, 'r) EncoderFn \<Rightarrow> ('f, 'a) FanoutHandler \<Rightarrow> ('e, 'a, 'r, 's) LogConfig option
    \<Rightarrow> ('r, 'a, 'f) use list \<Rightarrow> 's \<Rightarrow> (panic + ('e, 'f, 'a, 's \<times> (Chunk \<times> bool) list) sqlog) option" where
  "run_program json F cfg us s0 =
     (let c = log_config cfg;
          h = handler_defaults json (handlerOf c)
      in use_all (config_encoder h) F (config_level h) (observed (log_storage c)) us (sqlog_New (ingesterOf c) (s0, [])))"

definition usable :: "('e, 'a, 'r, 's) LogConfig option \<Rightarrow> bool" where
  "usable cfg = (case ingesterOf (log_config cfg) of None \<Rightarrow> True | Some c \<Rightarrow> valid_config c)"

lemma nil_ingester_config:
  "NewIngester None = NewIngester (Some \<lparr>Chunks = 0, ChunkSize = 0, MaxChunkSizeBytes = 0, MaxDirtyChunks = 0,
     MaxFlushRetry = 0, FlushAfterSec = 0, IntervalCheckMs = 0\<rparr>)"
  by (simp add: NewIngester_def)

lemma usable_config:
  assumes "usable cfg"
  obtains c where "valid_config c" "NewIngester (ingesterOf (log_config cfg)) = NewIngester (Some c)"
proof (cases "ingesterOf (log_config cfg)")
  case None
  then show ?thesis
    by (intro that [of "\<lparr>Chunks = 0, ChunkSize = 0, MaxChunkSizeBytes = 0, MaxDirtyChunks = 0,
        MaxFlushRetry = 0, FlushAfterSec = 0, IntervalCheckMs = 0\<rparr>"]) (simp_all add: valid_config_def nil_ingester_config)
next
  case (Some c)
  with assms that [of c] show ?thesis by (simp add: usable_def)
qed

text \<open>
  C4 (functional). A program makes a log from any configuration, nil parts included, derives handlers, adds fanout
  handlers and writes records through any of its handlers while the routine ticks; then it stops the log,
  once or more often. The log neither panics nor hangs, and a storage whose \<^verbatim>\<open>Flush\<close> does not fail gets
  exactly the records of the configured level and above, once and in order, each encoded by a new encoder
  of the configuration in the groups and attributes of its own handler: which writers the pools give, and
  which handlers used them before, does not matter.
\<close>

theorem configured_log_delivers:
  assumes "usable cfg" "uses_ok 1 us" "\<And>c s. fst (Flush (log_storage (log_config cfg)) c s) = None"
    and "h = handler_defaults json (handlerOf (log_config cfg))"
  shows "\<exists>l. run_program json F cfg (us @ replicate (Suc k) StopLog) s0 = Some (Inr l) \<and> stopped l \<and>
    delivered (snd (logStorage l)) = logged (use_events (config_encoder h) (config_level h) [newEncoder (config_encoder h)] us)"
proof -
  obtain c where c: "valid_config c" "NewIngester (ingesterOf (log_config cfg)) = NewIngester (Some c)"
    using assms(1) by (rule usable_config)
  from written_is_delivered [OF c(1) assms(2,3), of "config_encoder h" F "config_level h" k s0]
  show ?thesis unfolding run_program_def Let_def sqlog_New_def c(2) assms(4) .
qed

text \<open>A nil configuration: the JSON encoder without source, the level info, the storage that keeps nothing.\<close>

definition plainJson :: "(string, string, string) EncoderFn" where
  "plainJson opts = (if AddSource opts then plainEncoder\<lparr>newEncoder := ''source ''\<rparr> else plainEncoder)"

theorem configured_log_delivers_witness:
  "\<exists>l. run_program plainJson noFanout (None :: (string, string, string, unit) LogConfig option)
      ([With 0 (Group ''g''), Write 0 (message 7 0 ''x'') [], Write 1 (message 8 4 ''y'') [None, Some 0],
        RoutineTick (at_sec 9), Write 0 (message 9 (- 4) ''z'') []] @ replicate (Suc 1) StopLog) () = Some (Inr l)
    \<and> stopped l \<and> delivered (snd (logStorage l)) =
        [\<lparr>etime = at_sec 7, level = 0, content = ''x''\<rparr>, \<lparr>etime = at_sec 8, level = 4, content = ''g.y''\<rparr>]"
  using configured_log_delivers [of "None :: (string, string, string, unit) LogConfig option" "[With 0 (Group ''g''), Write 0 (message 7 0 ''x'') [],
      Write 1 (message 8 4 ''y'') [None, Some 0], RoutineTick (at_sec 9), Write 0 (message 9 (- 4) ''z'') []]" _ plainJson noFanout 1 "()", OF _ _ _ refl]
  by (simp add: usable_def log_config_def log_storage_def DummyStorage_def handler_defaults_def config_encoder_def config_level_def
      plainJson_def LevelInfo_def plainEncoder_def message_def record_events_def enabledSelf_def i8_def)

end
