(* ===== verification/Http.thy ===== *)
theory Http imports Sqlog begin

text \<open>
  \<^verbatim>\<open>http.go\<close>: the routes of the HTTP handler, the parameters of a request and the answers. The query of a
  request is given as \<^verbatim>\<open>url.Values\<close>, the file server and the JSON encoding of a result are outside.
\<close>

subsection \<open>Parameters\<close>

record request =
  urlPath :: string
  urlQuery :: "(string \<times> string) list"

text \<open>\<^verbatim>\<open>q.Get(key)\<close>: the first value, or the empty string.\<close>

definition GetParam :: "(string \<times> string) list \<Rightarrow> string \<Rightarrow> string" where
  "GetParam q key = (case map_of q key of Some v \<Rightarrow> v | None \<Rightarrow> '''')"

text \<open>
  The value of \<^verbatim>\<open>ParseUint(s, 10, bits)\<close> when the error is none or a range error: digits are read until
  the value is too large, and the largest value is returned then. A syntax error is \<^verbatim>\<open>None\<close>.
\<close>

fun parse_uint :: "nat \<Rightarrow> nat \<Rightarrow> string \<Rightarrow> nat option" where
  "parse_uint bits n [] = Some n"
| "parse_uint bits n (c # cs) =
     (if \<not> is_digit c then None
      else let k = 10 * n + (byte c - 48)
           in if k \<ge> 2 ^ bits then Some (2 ^ bits - 1) else parse_uint bits k cs)"

text \<open>The value of \<^verbatim>\<open>ParseInt(s, 10, bits)\<close> with the error dropped, \<^verbatim>\<open>Atoi\<close> the same for 64 bits.\<close>

definition parse_dropping :: "nat \<Rightarrow> string \<Rightarrow> int" where
  "parse_dropping bits s =
     (let neg = HasPrefix s ''-'';
          t = (if neg \<or> HasPrefix s ''+'' then drop 1 s else s)
      in if t = '''' then 0
         else case parse_uint bits 0 t of
                None \<Rightarrow> 0
              | Some un \<Rightarrow>
                  let cutoff = 2 ^ (bits - 1)
                  in if \<not> neg \<and> un \<ge> cutoff then int cutoff - 1
                     else if neg \<and> un > cutoff then - int cutoff
                     else if neg then - int un else int un)"

definition getInt :: "(string \<times> string) list \<Rightarrow> string \<Rightarrow> int" where
  "getInt q key = parse_dropping 64 (GetParam q key)"

definition getInt64 :: "(string \<times> string) list \<Rightarrow> string \<Rightarrow> int" where
  "getInt64 q key = parse_dropping 64 (GetParam q key)"

definition getInt32 :: "(string \<times> string) list \<Rightarrow> string \<Rightarrow> int" where
  "getInt32 q key = i32 (parse_dropping 32 (GetParam q key))"

definition getLevels :: "(string \<times> string) list \<Rightarrow> string list" where
  "getLevels q = (if GetParam q ''level'' \<noteq> '''' then Split CHR '','' (GetParam q ''level'') else [])"

subsection \<open>Answers\<close>

text \<open>A status with its body; a path for the file server; no answer written; a panic of the handler.\<close>

datatype 'err response = BadRequest 'err | Json "Output option" | NoContent | Static string | Nothing | Crash panic

text \<open>\<open>data\<close> is nil when it is \<^verbatim>\<open>None\<close>; a nil \<^verbatim>\<open>*Output\<close> is not, as it has a type.\<close>

definition sendJson :: "Output option option \<Rightarrow> 'err option \<Rightarrow> 'err response" where
  "sendJson data err =
     (case err of Some e \<Rightarrow> BadRequest e
      | None \<Rightarrow> (case data of Some out \<Rightarrow> Json out | None \<Rightarrow> NoContent))"

definition send_answer :: "'err answer \<Rightarrow> 'err response" where
  "send_answer a =
     (case a of Panicked p \<Rightarrow> Crash p | Failed err \<Rightarrow> sendJson (Some None) (Some err) | Done out \<Rightarrow> sendJson (Some out) None)"

definition ServeHTTPTicks :: "('s, 'err) StorageWithApi option \<Rightarrow> request \<Rightarrow> 's \<Rightarrow> 'err response \<times> 's" where
  "ServeHTTPTicks api r s =
     (let q = urlQuery r
      in case sqlog_Ticks api
           \<lparr>ticksExpr = GetParam q ''expr'', ticksLevel = getLevels q, EpochEnd = getInt64 q ''epoch'',
            IntervalSec = getInt q ''interval'', ticksMaxResult = getInt q ''limit''\<rparr> s of
           (a, s) \<Rightarrow> (send_answer a, s))"

definition ServeHTTPEntries :: "('s, 'err) StorageWithApi option \<Rightarrow> request \<Rightarrow> 's \<Rightarrow> 'err response \<times> 's" where
  "ServeHTTPEntries api r s =
     (let q = urlQuery r
      in case sqlog_Entries api
           \<lparr>entriesExpr = GetParam q ''expr'', entriesLevel = getLevels q, Direction = GetParam q ''dir'',
            EpochStart = getInt64 q ''epoch'', NanosStart = getInt q ''nanos'', entriesMaxResult = getInt q ''limit''\<rparr> s of
           (a, s) \<Rightarrow> (send_answer a, s))"

definition ServeHTTPResult :: "('s, 'err) StorageWithApi option \<Rightarrow> request \<Rightarrow> 's \<Rightarrow> 'err response \<times> 's" where
  "ServeHTTPResult api r s =
     (case sqlog_Result api (getInt32 (urlQuery r) ''id'') s of (a, s) \<Rightarrow> (send_answer a, s))"

definition ServeHTTPCancel :: "('s, 'err) StorageWithApi option \<Rightarrow> request \<Rightarrow> 's \<Rightarrow> 'err response \<times> 's" where
  "ServeHTTPCancel api r s =
     (case sqlog_Cancel api (getInt32 (urlQuery r) ''id'') s of
        (Panicked p, s) \<Rightarrow> (Crash p, s)
      | (Failed err, s) \<Rightarrow> (sendJson None (Some err), s)
      | (Done _, s) \<Rightarrow> (sendJson None None, s))"

subsection \<open>Routes\<close>

text \<open>What follows the last occurrence of \<open>sep\<close>.\<close>

fun after_last :: "string \<Rightarrow> string \<Rightarrow> string option" where
  "after_last sep [] = None"
| "after_last sep (c # cs) =
     (case after_last sep cs of
        Some r \<Rightarrow> Some r
      | None \<Rightarrow> if HasPrefix (c # cs) sep then Some (drop (length sep) (c # cs)) else None)"

text \<open>\<^verbatim>\<open>path.Base\<close>.\<close>

definition Base :: "string \<Rightarrow> string" where
  "Base p =
     (if p = '''' then ''.''
      else let q = dropWhile (\<lambda>c. c = CHR ''/'') (rev p);
               b = rev (takeWhile (\<lambda>c. c \<noteq> CHR ''/'') q)
           in if b = '''' then ''/'' else b)"

definition static_path :: "string \<Rightarrow> string" where
  "static_path p = (if List.member [''.html'', ''.css'', ''.js''] (Ext p) then Base p else '''')"

definition HttpHandler :: "('s, 'err) StorageWithApi option \<Rightarrow> request \<Rightarrow> 's \<Rightarrow> 'err response \<times> 's" where
  "HttpHandler api r s =
     (case after_last ''/api/'' (urlPath r) of
        Some p \<Rightarrow>
          if p = ''ticks'' then ServeHTTPTicks api r s
          else if p = ''entries'' then ServeHTTPEntries api r s
          else if p = ''result'' then ServeHTTPResult api r s
          else (Nothing, s)
      | None \<Rightarrow> (Static (static_path (urlPath r)), s))"

subsection \<open>What requests can do to a storage\<close>

text \<open>
  A storage whose queries and results move its state along \<open>moves\<close> is moved along it by every request;
  \<^verbatim>\<open>Cancel\<close> need not keep to it, as no request reaches it.
\<close>

locale api_moves =
  fixes A :: "('s, 'err) StorageWithApi" and moves :: "'s \<Rightarrow> 's \<Rightarrow> bool"
  assumes stays: "moves s s"
    and ticks_moves: "moves s (snd (apiTicks A tin s))"
    and entries_moves: "moves s (snd (apiEntries A ein s))"
    and result_moves: "moves s (snd (apiResult A tid s))"
begin

lemma request_moves: "moves s (snd (HttpHandler (Some A) r s))"
  by (simp add: HttpHandler_def ServeHTTPTicks_def ServeHTTPEntries_def ServeHTTPResult_def sqlog_Ticks_def
      sqlog_Entries_def sqlog_Result_def Let_def case_prod_beta stays ticks_moves entries_moves result_moves split: option.split)

end

interpretation memory: api_moves memoryApi "(=)"
  by unfold_locales (simp_all add: memoryApi_def)

end
