(* ===== verification/HttpProperties.thy ===== *)
theory HttpProperties imports Http SystemInvariant begin

text \<open>
  Properties of the HTTP handler: the numbers it reads from a request, the paths it passes to the file
  server, and what requests can do to the tasks of the SQLite storage.
\<close>

subsection \<open>Numbers\<close>

lemma foldl_digits_mono: "n \<le> foldl (\<lambda>n c. 10 * n + (byte c - 48)) n s" for n :: nat
proof (induction s arbitrary: n)
  case (Cons c cs)
  have "n \<le> 10 * n + (byte c - 48)" by simp
  also have "\<dots> \<le> foldl (\<lambda>n c. 10 * n + (byte c - 48)) (10 * n + (byte c - 48)) cs" by (rule Cons.IH)
  finally show ?case by simp
qed simp

lemma parse_uint_digits:
  "list_all is_digit s \<Longrightarrow> n < 2 ^ bits \<Longrightarrow>
     parse_uint bits n s = Some (min (foldl (\<lambda>n c. 10 * n + (byte c - 48)) n s) (2 ^ bits - 1))"
proof (induction s arbitrary: n)
  case (Cons c cs)
  let ?k = "10 * n + (byte c - 48)"
  show ?case
  proof (cases "?k < 2 ^ bits")
    case True
    with Cons.IH [of ?k] Cons.prems show ?thesis by simp
  next
    case False
    then have "2 ^ bits - 1 \<le> foldl (\<lambda>n c. 10 * n + (byte c - 48)) ?k cs"
      using foldl_digits_mono [of ?k cs] by linarith
    with False Cons.prems show ?thesis by (simp add: min_absorb2)
  qed
qed simp

lemma parse_uint_show: "parse_uint bits 0 (show_nat n) = Some (min n (2 ^ bits - 1))"
  using parse_uint_digits [of "show_nat n" 0 bits] show_nat_digits [of n] by (simp add: foldl_show_nat)

lemma parse_dropping_show:
  assumes "0 < bits"
  shows "parse_dropping bits (show_int k) = max (- (2 ^ (bits - 1))) (min (2 ^ (bits - 1) - 1) k)"
proof -
  define P :: nat where "P = 2 ^ (bits - 1)"
  have two: "(2 :: nat) ^ bits = 2 * P" using assms by (cases bits) (simp_all add: P_def)
  have int: "(2 :: int) ^ (bits - 1) = int P" by (simp add: P_def)
  have pos: "0 < P" by (simp add: P_def)
  have ne: "show_nat n \<noteq> ''''" for n using show_nat_digits [of n] by simp
  have "parse_dropping bits (show_int k) =
      (if k < 0 then let un = min (nat (- k)) (2 * P - 1) in if un > P then - int P else - int un
       else let un = min (nat k) (2 * P - 1) in if un \<ge> P then int P - 1 else int un)"
    using ne pos show_nat_no_sign [of "nat k"]
    by (cases "k < 0") (simp_all add: parse_dropping_def show_int_def HasPrefix_single parse_uint_show Let_def two
        flip: P_def [unfolded One_nat_def])
  then show ?thesis using pos unfolding int by (auto simp: Let_def min_def max_def)
qed

text \<open>
  A text read as a number: a sign or none, digits, and what follows them. \<open>ParseUint\<close> looks at what follows only when
  the digits before have a value that the type without a sign can hold; when not, it has stopped with a range error before.
\<close>

definition number_text :: "string \<Rightarrow> string \<Rightarrow> string \<Rightarrow> string \<Rightarrow> bool" where
  "number_text t sign ds rest =
     (t = sign @ ds @ rest \<and> List.member ['''', ''-'', ''+''] sign \<and> list_all is_digit ds \<and> (rest = [] \<or> \<not> is_digit (hd rest)) \<and>
      (sign = '''' \<longrightarrow> \<not> HasPrefix t ''-'' \<and> \<not> HasPrefix t ''+''))"

definition digits_value :: "string \<Rightarrow> nat" where
  "digits_value ds = foldl (\<lambda>n c. 10 * n + (byte c - 48)) 0 ds"

definition clamped :: "nat \<Rightarrow> int \<Rightarrow> int" where
  "clamped bits k = max (- (2 ^ (bits - 1))) (min (2 ^ (bits - 1) - 1) k)"

definition number_value :: "nat \<Rightarrow> string \<Rightarrow> string \<Rightarrow> string \<Rightarrow> int" where
  "number_value bits sign ds rest =
     (if rest \<noteq> [] \<and> digits_value ds < 2 ^ bits then 0
      else clamped bits (if sign = ''-'' then - int (digits_value ds) else int (digits_value ds)))"

lemma number_text_exists: "\<exists>sign ds rest. number_text t sign ds rest"
proof -
  define sign where "sign = (if HasPrefix t ''-'' \<or> HasPrefix t ''+'' then take 1 t else '''')"
  define u where "u = drop (length sign) t"
  have "t = sign @ u" by (auto simp: sign_def u_def min_def)
  moreover have "List.member ['''', ''-'', ''+''] sign" by (cases t) (auto simp: sign_def HasPrefix_iff)
  moreover have "sign = '''' \<longrightarrow> \<not> HasPrefix t ''-'' \<and> \<not> HasPrefix t ''+''" by (cases t) (auto simp: sign_def HasPrefix_iff)
  moreover have "u = takeWhile is_digit u @ dropWhile is_digit u" by simp
  moreover have "list_all is_digit (takeWhile is_digit u)" by (auto simp: list_all_iff dest: set_takeWhileD)
  moreover have "dropWhile is_digit u = [] \<or> \<not> is_digit (hd (dropWhile is_digit u))" by (metis hd_dropWhile)
  ultimately show ?thesis unfolding number_text_def by metis
qed

lemma parse_uint_stops:
  "list_all is_digit ds \<Longrightarrow> rest \<noteq> [] \<Longrightarrow> \<not> is_digit (hd rest) \<Longrightarrow> n < 2 ^ bits \<Longrightarrow>
     parse_uint bits n (ds @ rest) =
       (if foldl (\<lambda>n c. 10 * n + (byte c - 48)) n ds < 2 ^ bits then None else Some (2 ^ bits - 1))"
proof (induction ds arbitrary: n)
  case Nil
  then show ?case by (cases rest) auto
next
  case (Cons c cs)
  let ?k = "10 * n + (byte c - 48)"
  show ?case
  proof (cases "?k < 2 ^ bits")
    case True
    with Cons.IH [of ?k] Cons.prems show ?thesis by simp
  next
    case False
    then have "\<not> foldl (\<lambda>n c. 10 * n + (byte c - 48)) ?k cs < 2 ^ bits" using foldl_digits_mono [of ?k cs] by linarith
    with False Cons.prems show ?thesis by simp
  qed
qed

lemma parse_uint_text:
  assumes "list_all is_digit ds" "rest = [] \<or> \<not> is_digit (hd rest)"
  shows "parse_uint bits 0 (ds @ rest) =
    (if rest \<noteq> [] \<and> digits_value ds < 2 ^ bits then None else Some (min (digits_value ds) (2 ^ bits - 1)))"
proof (cases "rest = []")
  case True
  with parse_uint_digits [OF assms(1), of 0 bits] show ?thesis by (simp add: digits_value_def)
next
  case False
  have "min (digits_value ds) (2 ^ bits - 1) = 2 ^ bits - 1" if "\<not> digits_value ds < 2 ^ bits" using that by simp
  with False parse_uint_stops [OF assms(1) False, of 0 bits] assms(2) show ?thesis
    by (simp add: digits_value_def [symmetric])
qed

lemma clamped_minus:
  fixes v P :: nat
  assumes "0 < P"
  shows "(if min v (2 * P - 1) > P then - int P else - int (min v (2 * P - 1))) = max (- int P) (min (int P - 1) (- int v))"
proof (cases "v > P")
  case True
  with assms have "min v (2 * P - 1) > P \<or> min v (2 * P - 1) = P" by (auto simp: min_def)
  with True show ?thesis by auto
next
  case False
  with assms have "min v (2 * P - 1) = v" by auto
  with False assms show ?thesis by auto
qed

lemma clamped_plus:
  fixes v P :: nat
  assumes "0 < P"
  shows "(if min v (2 * P - 1) \<ge> P then int P - 1 else int (min v (2 * P - 1))) = max (- int P) (min (int P - 1) (int v))"
proof (cases "v \<ge> P")
  case True
  with assms have "min v (2 * P - 1) \<ge> P" by (auto simp: min_def)
  with True assms show ?thesis by (simp add: max_def min_def)
qed (use assms in \<open>simp add: min_def max_def\<close>)

lemma parse_dropping_text:
  assumes "0 < bits" "number_text t sign ds rest"
  shows "parse_dropping bits t = number_value bits sign ds rest"
proof -
  define P :: nat where "P = 2 ^ (bits - 1)"
  have two: "(2 :: nat) ^ bits = 2 * P" using assms by (cases bits) (simp_all add: P_def)
  have int: "(2 :: int) ^ (bits - 1) = int P" by (simp add: P_def)
  have pos: "0 < P" by (simp add: P_def)
  have t: "t = sign @ ds @ rest" "list_all is_digit ds" "rest = [] \<or> \<not> is_digit (hd rest)"
    and s: "sign = '''' \<and> \<not> HasPrefix t ''-'' \<and> \<not> HasPrefix t ''+'' \<or> sign = ''-'' \<or> sign = ''+''"
    using assms(2) by (auto simp: number_text_def)
  have neg: "HasPrefix t ''-'' = (sign = ''-'')" "(if sign = ''-'' \<or> HasPrefix t ''+'' then drop 1 t else t) = ds @ rest"
    using s t(1) by (auto simp: HasPrefix_iff)
  have "parse_dropping bits t = (if ds @ rest = '''' then 0
      else if rest \<noteq> [] \<and> digits_value ds < 2 * P then 0
      else let un = min (digits_value ds) (2 * P - 1)
           in if sign \<noteq> ''-'' \<and> un \<ge> P then int P - 1 else if sign = ''-'' \<and> un > P then - int P
              else if sign = ''-'' then - int un else int un)"
    unfolding parse_dropping_def Let_def neg parse_uint_text [OF t(2,3)] two P_def [symmetric] by simp
  moreover have "ds @ rest = '''' \<Longrightarrow> digits_value ds = 0" by (simp add: digits_value_def)
  moreover have "number_value bits sign ds rest = (if rest \<noteq> [] \<and> digits_value ds < 2 * P then 0
      else max (- int P) (min (int P - 1) (if sign = ''-'' then - int (digits_value ds) else int (digits_value ds))))"
    by (simp only: number_value_def clamped_def int two)
  ultimately show ?thesis using pos clamped_minus [OF pos, of "digits_value ds"] clamped_plus [OF pos, of "digits_value ds"]
    by (cases "sign = ''-''"; cases "ds @ rest = ''''"; simp only: if_True if_False simp_thms Let_def) simp_all
qed

subsection \<open>Paths\<close>

lemma Base_of_file:
  assumes "Ext p \<noteq> ''''"
  shows "Base p = rev (takeWhile (\<lambda>c. c \<noteq> CHR ''/'') (rev p))"
proof -
  have b: "takeWhile (\<lambda>c. c \<noteq> CHR ''/'') (rev p) \<noteq> []"
    using assms by (auto simp: Ext_def Let_def split: if_splits)
  then obtain c cs where r: "rev p = c # cs" "c \<noteq> CHR ''/''" by (cases "rev p") (auto split: if_splits)
  then have "p \<noteq> ''''" by auto
  with r show ?thesis by (simp add: Base_def Let_def)
qed

lemma Ext_Base: "Ext p \<noteq> '''' \<Longrightarrow> Ext (Base p) = Ext p"
  by (simp add: Base_of_file Ext_def Let_def)

subsection \<open>Tasks\<close>

definition canceled :: "storage \<Rightarrow> int set" where
  "canceled s = {tid. map_option state (tasks s tid) = Some task_canceled}"

lemma schedule_cancels_none: "canceled (snd (storage_schedule ks cb s)) \<subseteq> canceled s"
proof (induction ks arbitrary: s)
  case (Cons k ks)
  let ?tid = "i32 (taskIdSeq s + 1)"
  let ?s = "s\<lparr>taskIdSeq := ?tid, tasks := (tasks s)(?tid \<mapsto> new_task cb), taskMap := List.insert ?tid (taskMap s)\<rparr>"
  let ?s1 = "update_db k (db_schedule ?tid (heap s ! k)) ?s"
  have "canceled ?s1 \<subseteq> canceled s" by (auto simp: canceled_def new_task_def)
  with Cons.IH [of ?s1] show ?case by (auto simp: Let_def split: prod.splits)
qed simp

lemma asks_cancels_none: "asks s s' \<Longrightarrow> canceled s' \<subseteq> canceled s"
proof -
  assume "asks s s'"
  then obtain s1 cs cb where q: "quiet s s1" "s' = snd (storage_schedule cs cb s1)" unfolding asks_def by blast
  have "canceled s1 = canceled s" using q(1) by (simp add: quiet_def canceled_def)
  then show ?thesis using schedule_cancels_none [of cs cb s1] q(2) by simp
qed

lemma calls_cancel_none:
  "canceled (fst (snd (storage_Entries D ein now s w))) \<subseteq> canceled s"
  "canceled (fst (snd (storage_Ticks D tin now s w))) \<subseteq> canceled s"
  "canceled (snd (storage_Result tid s)) \<subseteq> canceled s"
proof -
  show "canceled (fst (snd (storage_Entries D ein now s w))) \<subseteq> canceled s"
    by (metis asks_cancels_none entries_asks prod.collapse)
  show "canceled (fst (snd (storage_Ticks D tin now s w))) \<subseteq> canceled s"
    by (metis asks_cancels_none ticks_asks prod.collapse)
  show "canceled (snd (storage_Result tid s)) \<subseteq> canceled s"
    by (auto simp: storage_Result_def canceled_def split: option.splits)
qed

interpretation cancels: api_moves "sqliteApi D now" "\<lambda>x y. canceled (fst y) \<subseteq> canceled (fst x)" for D :: "'w Driver" and now :: int
  by unfold_locales (simp_all add: sqliteApi_def case_prod_beta calls_cancel_none)

subsection \<open>Properties\<close>

text \<open>
  C28 (bounds). A number in a parameter arrives as the number itself when the integer type has it, and as the
  nearest number of the type when not. Any other text, digits after a sign or none with something behind them, arrives as 0,
  unless the digits alone are too large for the type without a sign: then it arrives as the nearest number too, because the
  range error comes first and the value that comes with it is used. An empty text arrives as 0.
\<close>

theorem numbers_are_clamped:
  "getInt64 ((key, show_int k) # q) key = clamped 64 k \<and> getInt ((key, show_int k) # q) key = clamped 64 k \<and>
   getInt32 ((key, show_int k) # q) key = clamped 32 k \<and>
   (\<exists>sign ds rest. number_text (GetParam q' key) sign ds rest \<and>
      getInt64 q' key = number_value 64 sign ds rest \<and> getInt q' key = number_value 64 sign ds rest \<and>
      getInt32 q' key = number_value 32 sign ds rest)"
proof -
  have "getInt64 ((key, show_int k) # q) key = clamped 64 k" "getInt ((key, show_int k) # q) key = clamped 64 k"
    using parse_dropping_show [of 64 k] by (simp_all add: getInt64_def getInt_def GetParam_def clamped_def)
  moreover have "getInt32 ((key, show_int k) # q) key = clamped 32 k"
    using parse_dropping_show [of 32 k] by (simp add: getInt32_def GetParam_def i32_id clamped_def)
  moreover obtain sign ds rest where n: "number_text (GetParam q' key) sign ds rest" using number_text_exists by blast
  moreover have "getInt64 q' key = number_value 64 sign ds rest" "getInt q' key = number_value 64 sign ds rest"
    using parse_dropping_text [OF _ n, of 64] by (simp_all add: getInt64_def getInt_def)
  moreover have "- (2 ^ 31) \<le> number_value 32 sign ds rest \<and> number_value 32 sign ds rest < 2 ^ 31"
    by (auto simp: number_value_def clamped_def)
  then have "getInt32 q' key = number_value 32 sign ds rest"
    using parse_dropping_text [OF _ n, of 32] by (simp add: getInt32_def i32_id)
  ultimately show ?thesis by blast
qed

text \<open>The range error comes before the letter.\<close>

lemma overflow_before_syntax:
  "getInt64 [(''limit'', ''99999999999999999999999x'')] ''limit'' = 2 ^ 63 - 1" "getInt64 [(''limit'', ''12x'')] ''limit'' = 0"
  by (simp_all add: getInt64_def GetParam_def parse_dropping_def is_digit_def byte_def)

text \<open>
  C27 (safety). A request for a path whose extension is \<^verbatim>\<open>.html\<close>, \<^verbatim>\<open>.css\<close> or \<^verbatim>\<open>.js\<close> gives the file server what
  follows the last slash of the path, a single file name with that extension; for any other path it gives the empty path. So no
  request leaves the directory.
\<close>

theorem static_paths_are_names:
  "if List.member [''.html'', ''.css'', ''.js''] (Ext p)
   then CHR ''/'' \<notin> set (static_path p) \<and> Ext (static_path p) = Ext p \<and>
     (\<exists>dir. p = dir @ static_path p \<and> (dir = '''' \<or> last dir = CHR ''/''))
   else static_path p = ''''"
proof (cases "List.member [''.html'', ''.css'', ''.js''] (Ext p)")
  case True
  then have e: "Ext p \<noteq> ''''" and s: "static_path p = Base p" by (auto simp: static_path_def)
  note b = Base_of_file [OF e]
  have "CHR ''/'' \<notin> set (Base p)" by (auto simp: b dest: set_takeWhileD)
  moreover have "p = rev (dropWhile (\<lambda>c. c \<noteq> CHR ''/'') (rev p)) @ Base p"
    unfolding b rev_append [symmetric] by (simp del: rev_append)
  moreover have "rev (dropWhile (\<lambda>c. c \<noteq> CHR ''/'') (rev p)) = '''' \<or> last (rev (dropWhile (\<lambda>c. c \<noteq> CHR ''/'') (rev p))) = CHR ''/''"
    using hd_dropWhile [of "\<lambda>c. c \<noteq> CHR ''/''" "rev p"] by (auto simp: last_rev)
  ultimately have "CHR ''/'' \<notin> set (Base p)" "\<exists>dir. p = dir @ Base p \<and> (dir = '''' \<or> last dir = CHR ''/'')" by blast+
  with True Ext_Base [OF e] show ?thesis unfolding s by (simp only: if_True simp_thms not_False_eq_True)
qed (simp add: static_path_def)

text \<open>
  No request of any path cancels a task of the SQLite storage: the route to \<^verbatim>\<open>ServeHTTPCancel\<close>
  is missing, and the other routes leave the tasks that are not canceled so.
\<close>

theorem requests_never_cancel:
  "canceled (fst (snd (HttpHandler (Some (sqliteApi D now)) r (s, w)))) \<subseteq> canceled s"
  using cancels.request_moves [where s = "(s, w)"] by simp

end
