(* ===== verification/StoredLog.thy ===== *)
theory StoredLog imports QueryProperties Routines begin

text \<open>
  From a record to the answer of a query: what is logged through \<^verbatim>\<open>ingester.go\<close> into a new database of
  \<^verbatim>\<open>sqlite/storage.go\<close> is found by a program that opens the same directory later and pages through
  \<^verbatim>\<open>sqlite/api_entries.go\<close>. The driver is assumed not to fail and to keep one table per file.
\<close>

subsection \<open>A driver with tables\<close>

definition as_row :: "Entry \<Rightarrow> row" where
  "as_row e = (unixSec (etime e), nsec (etime e), level e, content e)"

definition row_before :: "row \<Rightarrow> row \<Rightarrow> bool" where
  "row_before r r' = later (row_time r) (row_time r')"

text \<open>
  What SQL documents, for a function \<open>T\<close> from the state of the world to the table of each file, where no call
  fails: the statements of upkeep keep the rows; a commit after the insert of some entries adds their rows; and the
  query of a page gives the first rows after the start, in the order of their times.
\<close>

definition upkeep :: "string set" where
  "upkeep = {sqlCreateTable, sqlCreateIndex, ''VACUUM''}"

definition keeps_tables :: "'w Driver \<Rightarrow> ('w \<Rightarrow> string \<Rightarrow> row list) \<Rightarrow> bool" where
  "keeps_tables D T =
     ((\<forall>c w. \<exists>w'. OpenSql D c w = (None, w') \<and> T w' = T w) \<and>
      (\<forall>p q w. q \<in> upkeep \<longrightarrow> (\<exists>w'. ExecSql D p q [] w = (None, w') \<and> T w' = T w)) \<and>
      (\<forall>p w. T (CloseSql D p w) = T w))"

definition inserts :: "'w Driver \<Rightarrow> ('w \<Rightarrow> string \<Rightarrow> row list) \<Rightarrow> bool" where
  "inserts D T =
     ((\<forall>p w. \<exists>w'. BeginTx D p w = (None, w') \<and> T w' = T w) \<and>
      (\<forall>p es w. es \<noteq> [] \<longrightarrow> (\<exists>w'. PrepareTx D p (insert_sql es) w = (None, w') \<and> T w' = T w)) \<and>
      (\<forall>p es w. es \<noteq> [] \<longrightarrow> (\<exists>w1 w2. ExecTx D p (insert_sql es) (concat (map entry_args es)) w = (None, w1) \<and>
         Commit D p w1 = (None, w2) \<and> T w2 = (T w)(p := T w p @ map as_row es))))"

definition seeks :: "'w Driver \<Rightarrow> ('w \<Rightarrow> string \<Rightarrow> row list) \<Rightarrow> bool" where
  "seeks D T =
     (\<forall>p e n l w. \<exists>rs w'.
        QuerySql D p (sqlSeekPageAfter @ sqlSeekPageAfterOrder) [ArgInt e, ArgInt e, ArgInt n, ArgInt l] w
          = (Inr (map row_args (take (nat l) rs)), w') \<and>
        mset rs = mset (filter (\<lambda>r. later (e, n) (row_time r)) (T w p)) \<and>
        sorted_wrt (\<lambda>r r'. \<not> row_before r' r) rs \<and> T w' = T w)"

definition table_driver :: "'w Driver \<Rightarrow> ('w \<Rightarrow> string \<Rightarrow> row list) \<Rightarrow> bool" where
  "table_driver D T = (keeps_tables D T \<and> inserts D T \<and> seeks D T)"

lemma upkeep_runs:
  assumes "keeps_tables D T" "q \<in> upkeep"
  obtains w' where "ExecSql D p q [] w = (None, w')" "T w' = T w"
  using assms unfolding keeps_tables_def by metis

lemma in_upkeep: "sqlCreateTable \<in> upkeep" "sqlCreateIndex \<in> upkeep" "''VACUUM'' \<in> upkeep"
  unfolding upkeep_def by (rule insertI1, rule insertI2, rule insertI1, rule insertI2, rule insertI2, rule insertI1)

subsection \<open>Rows in order\<close>

lemma row_before_order:
  "\<not> row_before r r" "row_before r r' \<Longrightarrow> \<not> row_before r' r"
  "row_time r \<noteq> row_time r' \<Longrightarrow> row_before r r' \<or> row_before r' r"
  by (cases "row_time r"; cases "row_time r'"; auto simp: row_before_def)+

lemma sorted_unique:
  "sorted_wrt row_before xs \<Longrightarrow> sorted_wrt row_before ys \<Longrightarrow> set xs = set ys \<Longrightarrow> xs = ys"
proof (induction xs arbitrary: ys)
  case (Cons x xs)
  then obtain y ys' where ys: "ys = y # ys'" by (cases ys) auto
  have "x \<in> set ys" "y \<in> set (x # xs)" using Cons.prems(3) by (auto simp: ys)
  then have "x = y" using Cons.prems(1,2) row_before_order(2) [of x y] by (auto simp: ys)
  moreover have "x \<notin> set xs" "y \<notin> set ys'" using Cons.prems(1,2) row_before_order(1) [of x] row_before_order(1) [of y]
    by (auto simp: ys)
  ultimately have "set xs = set ys'" using Cons.prems(3) by (auto simp: ys)
  with Cons \<open>x = y\<close> show ?case by (simp add: ys)
qed simp

lemma sorted_strictly:
  assumes "sorted_wrt (\<lambda>r r'. \<not> row_before r' r) rs" "distinct (map row_time rs)"
  shows "sorted_wrt row_before rs"
  using assms
proof (induction rs)
  case (Cons r rs)
  have "row_before r r'" if "r' \<in> set rs" for r'
    using that Cons.prems row_before_order(3) [of r r'] by (auto simp: image_iff)
  with Cons show ?case by simp
qed simp

text \<open>The rows of a table by their times.\<close>

definition in_order :: "row list \<Rightarrow> row list" where
  "in_order rs = SliceStable row_before rs"

lemma in_order_any: "sorted_wrt (\<lambda>r r'. \<not> row_before r' r) (in_order rs)" "mset (in_order rs) = mset rs"
proof -
  have trans: "\<not> row_before b a \<Longrightarrow> \<not> row_before c b \<Longrightarrow> \<not> row_before c a" for a b c
    by (cases "row_time a"; cases "row_time b"; cases "row_time c") (auto simp: row_before_def)
  show "sorted_wrt (\<lambda>r r'. \<not> row_before r' r) (in_order rs)"
    unfolding in_order_def by (rule sorted_SliceStable; use row_before_order(2) trans in blast)
  show "mset (in_order rs) = mset rs" by (simp add: in_order_def mset_SliceStable)
qed

lemma in_order_sorted:
  assumes "distinct (map row_time rs)"
  shows "sorted_wrt row_before (in_order rs)" "mset (in_order rs) = mset rs"
proof -
  show m: "mset (in_order rs) = mset rs" by (rule in_order_any(2))
  note in_order_any(1) [of rs]
  moreover have "distinct (map row_time (in_order rs))" using assms m by (metis distinct_map mset_eq_imp_distinct_iff mset_map)
  ultimately show "sorted_wrt row_before (in_order rs)" by (rule sorted_strictly)
qed

lemma seek_rows:
  assumes "distinct (map row_time ts)" "mset rs = mset (filter P ts)" "sorted_wrt (\<lambda>r r'. \<not> row_before r' r) rs"
  shows "rs = filter P (in_order ts)"
proof (rule sorted_unique)
  have "mset (map row_time rs) = mset (map row_time (filter P ts))" using assms(2) by (metis mset_map)
  then have "distinct (map row_time rs)" using assms(1) by (metis distinct_map_filter mset_eq_imp_distinct_iff)
  with assms(3) show "sorted_wrt row_before rs" by (rule sorted_strictly)
  show "sorted_wrt row_before (filter P (in_order ts))" using in_order_sorted(1) [OF assms(1)] by (rule sorted_wrt_filter)
  have "mset (filter P (in_order ts)) = mset (filter P ts)" using in_order_sorted(2) [OF assms(1)] by (metis mset_filter)
  then show "set rs = set (filter P (in_order ts))" using assms(2) by (metis mset_eq_setD)
qed

subsection \<open>Reading page after page\<close>

text \<open>A client that asks for at most \<open>n\<close> pages, each from the last row of the page before, until one is empty.\<close>

fun read_pages :: "'w Driver \<Rightarrow> int \<Rightarrow> nat \<Rightarrow> EntriesInput \<Rightarrow> storage \<Rightarrow> 'w \<Rightarrow> row list" where
  "read_pages D now 0 input s w = []"
| "read_pages D now (Suc n) input s w =
     (case storage_Entries D input now s w of
        (Inl err, s, w) \<Rightarrow> []
      | (Inr out, s, w) \<Rightarrow>
          if Entries out = [] then []
          else Entries out @ read_pages D now n (next_input (Entries out) input) s w)"

lemma seek_page:
  assumes "seeks D T" "distinct (map row_time (T w (filePath (heap s ! k))))" "one_open_db k s" "plain_forward input"
  shows "\<exists>s' w'. storage_Entries D input now s w =
      (Inr (zeroOutput\<lparr>Entries := take (page_size input) (rows_after input (in_order (T w (filePath (heap s ! k)))))\<rparr>), s', w') \<and>
    one_open_db k s' \<and> filePath (heap s' ! k) = filePath (heap s ! k) \<and> T w' = T w"
proof -
  obtain rs w' where q: "QuerySql D (filePath (heap s ! k)) (sqlSeekPageAfter @ sqlSeekPageAfterOrder)
      [ArgInt (EpochStart input), ArgInt (EpochStart input), ArgInt (NanosStart input), ArgInt (int (page_size input))] w
      = (Inr (map row_args (take (nat (int (page_size input))) rs)), w')"
    and m: "mset rs = mset (filter (\<lambda>r. later (EpochStart input, NanosStart input) (row_time r)) (T w (filePath (heap s ! k))))"
    and o: "sorted_wrt (\<lambda>r r'. \<not> row_before r' r) rs" and T: "T w' = T w"
    using assms(1) unfolding seeks_def by meson
  have "rs = rows_after input (in_order (T w (filePath (heap s ! k))))"
    using seek_rows [OF assms(2) m o] by (simp add: rows_after_def)
  with one_page [OF assms(3,4) q, of now] T show ?thesis by auto
qed

lemma page_size_positive: "0 < page_size input"
  by (simp add: page_size_def)

lemma read_pages_all:
  assumes "seeks D T" "distinct (map row_time (T w (filePath (heap s ! k))))" "one_open_db k s" "plain_forward input"
  shows "read_pages D now n input s w = take (n * page_size input) (rows_after input (in_order (T w (filePath (heap s ! k)))))"
  using assms(2-)
proof (induction n arbitrary: input s w)
  case (Suc n)
  let ?rs = "in_order (T w (filePath (heap s ! k)))" and ?m = "page_size input"
  let ?page = "take ?m (rows_after input ?rs)"
  obtain s' w' where p: "storage_Entries D input now s w = (Inr (zeroOutput\<lparr>Entries := ?page\<rparr>), s', w')"
    "one_open_db k s'" "filePath (heap s' ! k) = filePath (heap s ! k)" "T w' = T w"
    using seek_page [OF assms(1) Suc.prems, of now] by blast
  have m: "0 < ?m" by (rule page_size_positive)
  show ?case
  proof (cases "?page = []")
    case True
    with m have "rows_after input ?rs = []" by simp
    with p(1) show ?thesis by simp
  next
    case False
    note pg = next_page_rows [OF in_order_sorted(1) [OF Suc.prems(1), unfolded row_before_def [abs_def]] refl False]
    have "read_pages D now n (next_input ?page input) s' w' = take (n * ?m) (drop ?m (rows_after input ?rs))"
      using Suc.IH [of w' s' "next_input ?page input"] Suc.prems p(2-4) pg by simp
    with False p(1) show ?thesis by (simp add: take_add)
  qed
qed simp

subsection \<open>The storage of a new file\<close>

text \<open>
  One database, which is live, open and new: its start \<open>t0\<close> does not change, so the file \<open>p\<close> keeps its name. Its table
  has the rows of \<open>es\<close>.
\<close>

definition new_file :: "int \<Rightarrow> string \<Rightarrow> storage \<Rightarrow> bool" where
  "new_file t0 p s =
     (dbs s = [0] \<and> liveDbs s = [0] \<and> (\<exists>d. heap s = [d] \<and> isOpen d \<and> handle d \<and> filePath d = p \<and>
        dbStart d = t0 \<and> dbNewStart d = t0 \<and> min_epoch d \<le> t0))"

definition stored :: "'w Driver \<Rightarrow> ('w \<Rightarrow> string \<Rightarrow> row list) \<Rightarrow> int \<Rightarrow> string \<Rightarrow> panic option \<times> storage \<times> 'w \<Rightarrow> Entry list \<Rightarrow> bool" where
  "stored D T t0 p x es = (case x of (q, s, w) \<Rightarrow> q = None \<and> inserts D T \<and> new_file t0 p s \<and> T w p = map as_row es)"

definition not_before :: "int \<Rightarrow> Entry set" where
  "not_before t0 = {e. t0 \<le> unixSec (etime e)}"

lemma db_flush_inserts:
  assumes D: "inserts D T" and c: "wf_chunk c" "list_all (recent (min_epoch d)) (contents c)" and d: "handle d" "filePath d = p"
  shows "\<exists>d' w'. db_flush D c d w = Inr (None, d', w') \<and> T w' p = T w p @ map as_row (contents c) \<and>
    (\<exists>n e. d' = d\<lparr>dbEnd := e, dbNewStart := n\<rparr> \<and> (n = dbNewStart d \<or> n < dbNewStart d \<and> n \<in> set (epochs c)))"
proof -
  obtain q vs where qv: "insert_rows (min_epoch d) 0 (map Some (contents c)) = (q, vs)" by fastforce
  have i: "insert_rows (i64 (dbStart d - maxChunkAgeSec d)) 0 (List c) = (q, vs)"
    using qv List_wf [OF c(1)] by (simp add: min_epoch_def)
  note fits = insert_fits [OF qv]
  have same: "\<exists>n e. d = d\<lparr>dbEnd := e, dbNewStart := n\<rparr> \<and> (n = dbNewStart d \<or> n < dbNewStart d \<and> n \<in> set (epochs c))"
    by (intro exI [of _ "dbNewStart d"] exI [of _ "dbEnd d"]) simp
  show ?thesis
  proof (cases "contents c = []")
    case True
    with fits(3) have "db_flush D c d w = Inr (None, d, w)" by (simp add: db_flush_def i)
    with True same show ?thesis by (intro exI [of _ d] exI [of _ w]) simp
  next
    case False
    have s: "sqlInsert @ q = insert_sql (contents c)" "vs = concat (map entry_args (contents c))" "vs \<noteq> []"
      using fits(2) [OF c(2)] False by (cases "contents c"; simp add: entry_args_def)+
    obtain w1 where w1: "BeginTx D p w = (None, w1)" "T w1 = T w" using D unfolding inserts_def by blast
    obtain w2 where w2: "PrepareTx D p (insert_sql (contents c)) w1 = (None, w2)" "T w2 = T w1"
      using D False unfolding inserts_def by blast
    obtain w3 w4 where w3: "ExecTx D p (insert_sql (contents c)) vs w2 = (None, w3)" "Commit D p w3 = (None, w4)"
      "T w4 = (T w2)(p := T w2 p @ map as_row (contents c))"
      using D False unfolding inserts_def s(2) by blast
    let ?n = "if epochStart c < dbNewStart d then epochStart c else dbNewStart d"
    let ?d = "d\<lparr>dbEnd := max (epochEnd c) (dbEnd d), dbNewStart := ?n\<rparr>"
    have n: "?n = dbNewStart d \<or> ?n < dbNewStart d \<and> ?n \<in> set (epochs c)" using c(1) False by (auto simp: wf_chunk_def)
    have "db_flush D c d w = Inr (None, ?d, w4)"
      using s(1,3) d w1(1) w2(1) w3(1,2) by (simp add: db_flush_def i)
    moreover have "T w4 p = T w p @ map as_row (contents c)" using w1(2) w2(2) w3(3) by simp
    ultimately show ?thesis using n by blast
  qed
qed

lemma stored_flush:
  assumes x: "stored D T t0 p x es" and c: "wf_chunk c" "set (contents c) \<subseteq> not_before t0"
  shows "\<exists>x'. Flush (sqliteStorage D) c x = (None, x') \<and> stored D T t0 p x' (es @ contents c)"
proof -
  obtain s w where sw: "x = (None, s, w)" using x by (cases x) (auto simp: stored_def)
  have D: "inserts D T" and T: "T w p = map as_row es" and n: "new_file t0 p s" using x by (simp_all add: sw stored_def)
  obtain d where s: "dbs s = [0]" "liveDbs s = [0]" "heap s = [d]"
    and d: "isOpen d" "handle d" "filePath d = p" "dbStart d = t0" "dbNewStart d = t0" "min_epoch d \<le> t0"
    using n by (auto simp: new_file_def)
  have "list_all (recent (min_epoch d)) (contents c)"
    using c(2) d(6) by (auto simp: list_all_iff recent_def not_before_def)
  from db_flush_inserts [OF D c(1) this d(2,3), of w] obtain e n w' where
    f: "db_flush D c d w = Inr (None, d\<lparr>dbEnd := e, dbNewStart := n\<rparr>, w')" "T w' p = T w p @ map as_row (contents c)"
      "n = t0 \<or> n < t0 \<and> n \<in> set (epochs c)"
    using d(5) by auto
  have "n = t0" using f(3) c(2) by (auto simp: epochs_def not_before_def)
  have "flush_target_db c s = Inr 0" by (simp add: flush_target_db_def s)
  then have "storage_Flush D c s w = Inr (None, update_db 0 (d\<lparr>dbEnd := e, dbNewStart := n\<rparr>) s, w')"
    using f(1) d(1) by (simp add: storage_Flush_def s)
  moreover have "stored D T t0 p (None, update_db 0 (d\<lparr>dbEnd := e, dbNewStart := n\<rparr>) s, w') (es @ contents c)"
    using D f(2) T d s \<open>n = t0\<close> by (simp add: stored_def new_file_def update_db_def isOpen_def min_epoch_def)
  ultimately show ?thesis by (simp add: sw sqliteStorage_def)
qed

interpretation fresh_db: kept_storage "sqliteStorage D" "stored D T t0 p" "not_before t0"
  for D :: "'w Driver" and T t0 p
  by unfold_locales (rule stored_flush)

lemma stored_close:
  assumes "keeps_tables D T" "stored D T t0 p x es"
  shows "\<exists>s w. snd (CloseStorage (sqliteStorage D) x) = (None, s, w) \<and> T w p = map as_row es"
proof -
  obtain s w where sw: "x = (None, s, w)" using assms(2) by (cases x) (auto simp: stored_def)
  obtain d where s: "dbs s = [0]" "heap s = [d]" and d: "isOpen d" "dbNewStart d = dbStart d" and T: "T w p = map as_row es"
    and h: "\<not> dangling s"
    using assms(2) by (auto simp: sw stored_def new_file_def dangling_def)
  obtain b d' w' where c: "db_close D d w = (b, d', w')" by (metis prod_cases3)
  obtain w1 where w1: "ExecSql D (filePath d) ''VACUUM'' [] w = (None, w1)" "T w1 = T w"
    using upkeep_runs [OF assms(1) in_upkeep(3)] .
  have close: "T (CloseSql D q v) = T v" for q v using assms(1) unfolding keeps_tables_def by blast
  have "w' = CloseSql D (filePath d) (if live d then w1 else w)"
    using c d w1(1) by (cases "live d") (simp_all add: db_close_def isOpen_def Let_def)
  then have "T w' = T w" using w1(2) by (simp add: close)
  with c T h show ?thesis by (simp add: sw sqliteStorage_def storage_Close_def s)
qed

subsection \<open>A program and the next one\<close>

text \<open>The file that \<^verbatim>\<open>New\<close> makes in an empty directory, as the walk of the next \<^verbatim>\<open>New\<close> finds it.\<close>

definition file_name :: "Config \<Rightarrow> int \<Rightarrow> string" where
  "file_name cfg t0 = Prefix (config_defaults cfg) @ ''_'' @ show_int t0 @ ''.db''"

definition file_path :: "Config \<Rightarrow> int \<Rightarrow> string" where
  "file_path cfg t0 = Join (Dir (config_defaults cfg)) (file_name cfg t0)"

lemma connect_table:
  assumes "keeps_tables D T" "status d = db_closed"
  shows "\<exists>w'. connect D os now d w = (None, d\<lparr>handle := True, lastQueryEpoch := now, status := db_open\<rparr>, w') \<and> T w' = T w"
proof -
  obtain w1 where 1: "OpenSql D (connString os d) w = (None, w1)" "T w1 = T w"
    using assms(1) unfolding keeps_tables_def by blast
  obtain w2 where 2: "ExecSql D (filePath d) sqlCreateTable [] w1 = (None, w2)" "T w2 = T w1"
    using upkeep_runs [OF assms(1) in_upkeep(1)] .
  obtain w3 where 3: "ExecSql D (filePath d) sqlCreateIndex [] w2 = (None, w3)" "T w3 = T w2"
    using upkeep_runs [OF assms(1) in_upkeep(2)] .
  from 1 2 3 assms(2) show ?thesis by (simp add: connect_def)
qed

text \<open>What the Go types and the clock say of the start of a database and of the age it allows.\<close>

definition epoch_range :: "Config \<Rightarrow> int \<Rightarrow> bool" where
  "epoch_range cfg t0 = (0 < t0 \<and> t0 < 2 ^ 63 \<and> MaxChunkAgeSec cfg < 2 ^ 63)"

lemma defaults_age: "MaxChunkAgeSec (config_defaults cfg) = (if MaxChunkAgeSec cfg \<le> 0 then 3600 else MaxChunkAgeSec cfg)"
  by (simp add: config_defaults_def Let_def default_field)

lemma New_fresh:
  assumes "table_driver D T" "epoch_range cfg t0" "T w (file_path cfg t0) = []"
  shows "\<exists>s w'. New D cfg [] t0 w = (Inr s, w') \<and> stored D T t0 (file_path cfg t0) (None, s, w') []"
proof -
  let ?c = "config_defaults cfg"
  let ?d = "newDb (Dir ?c) (Prefix ?c) t0 (MaxChunkAgeSec ?c)"
  have "status ?d = db_closed" by (simp add: newDb_def)
  with connect_table [of D T ?d "SQLiteOptions ?c" t0 w] assms(1) obtain w' where
    c: "connect D (SQLiteOptions ?c) t0 ?d w = (None, ?d\<lparr>handle := True, lastQueryEpoch := t0, status := db_open\<rparr>, w')" "T w' = T w"
    unfolding table_driver_def by blast
  have i: "initDbs a b [] = []" for a b by (simp add: initDbs_def map_filter_simps)
  have "i64 (t0 - MaxChunkAgeSec ?c) \<le> t0"
    using assms(2) by (subst i64_id) (auto simp: epoch_range_def defaults_age)
  with c assms(1,3) show ?thesis
    by (simp add: New_def Let_def i stored_def table_driver_def new_file_def newDb_def isOpen_def min_epoch_def
        file_path_def file_name_def)
qed

lemma New_again:
  assumes "keeps_tables D T" "epoch_range cfg t0"
  shows "\<exists>s w'. New D cfg [(file_name cfg t0, False, sz)] t1 w = (Inr s, w') \<and> T w' = T w \<and> one_open_db 0 s \<and>
    filePath (heap s ! 0) = file_path cfg t0"
proof -
  let ?c = "config_defaults cfg"
  obtain d where l: "load_file (Dir ?c) (Prefix ?c) (file_name cfg t0, False, sz) = Some d"
    and d: "filePath d = file_path cfg t0" "dbEnd d = 0"
    using new_file_loads [of t0 "Dir ?c" "Prefix ?c" sz 0] assms(2)
    by (auto simp: file_name_def file_path_def epoch_range_def newDb_def)
  have "status d = db_closed" using l by (auto simp: load_file_def split: prod.splits option.splits if_splits)
  from connect_table [OF assms(1) this, of "SQLiteOptions ?c" t1 w] obtain w' where
    c: "connect D (SQLiteOptions ?c) t1 d w = (None, d\<lparr>handle := True, lastQueryEpoch := t1, status := db_open\<rparr>, w')" "T w' = T w"
    by blast
  have "initDbs (Dir ?c) (Prefix ?c) [(file_name cfg t0, False, sz)] = [d]"
    using l by (simp add: initDbs_def map_filter_simps)
  with c d show ?thesis by (simp add: New_def Let_def one_open_db_def askable_def isOpen_def)
qed

text \<open>
  C2 (refinement). What is logged into a new file can be found. A program whose storage starts in an empty directory logs
  records and its ingester ticks, in any order, until it stops; no scheduler and no size check runs meanwhile. If the driver
  never fails, and the times of the records are distinct and not before the start of the file, then every record is in the
  pages that a later program reads from the same directory, forward and without a filter, once and in the order of the times,
  and no flush panics. Records with equal times can be skipped between two pages (\<open>same_time_rows_skipped\<close>).
\<close>

theorem restart_finds_log:
  assumes "table_driver D T" "epoch_range cfg t0" "T w (file_path cfg t0) = []"
    and "valid_config c" "Stop \<notin> set evs" "set (logged evs) \<subseteq> not_before t0" "distinct (map etime (logged evs))"
    and "plain_forward input" "EpochStart input < t0" "length (logged evs) \<le> n"
  shows "\<exists>s w1 i s' w2 s'' w3.
    New D cfg [] t0 w = (Inr s, w1) \<and>
    run (sqliteStorage D) (evs @ [Stop]) (NewIngester (Some c), (None, s, w1)) = Some (Inr (i, (None, s', w2))) \<and>
    New D cfg [(file_name cfg t0, False, sz)] t1 w2 = (Inr s'', w3) \<and>
    (let rows = read_pages D now n input s'' w3
     in mset rows = mset (map as_row (logged evs)) \<and> sorted_wrt row_before rows)"
proof -
  have D: "keeps_tables D T" "seeks D T" using assms(1) by (simp_all add: table_driver_def)
  obtain s w1 where s: "New D cfg [] t0 w = (Inr s, w1)" "stored D T t0 (file_path cfg t0) (None, s, w1) []"
    using New_fresh [OF assms(1-3)] by blast
  from kept_close [OF fresh_db.kept_storage_axioms assms(4-6) s(2)] obtain i x where
    r: "run (sqliteStorage D) (evs @ [Stop]) (NewIngester (Some c), (None, s, w1)) = Some (Inr (i, snd (CloseStorage (sqliteStorage D) x)))"
    "stored D T t0 (file_path cfg t0) x (logged evs)" by blast
  from stored_close [OF D(1) r(2)] obtain s' w2 where x: "snd (CloseStorage (sqliteStorage D) x) = (None, s', w2)"
    and T2: "T w2 (file_path cfg t0) = map as_row (logged evs)" by blast
  obtain s'' w3 where n: "New D cfg [(file_name cfg t0, False, sz)] t1 w2 = (Inr s'', w3)" "T w3 = T w2" "one_open_db 0 s''"
    "filePath (heap s'' ! 0) = file_path cfg t0"
    using New_again [OF D(1) assms(2)] by blast
  let ?ts = "map as_row (logged evs)"
  have "row_time \<circ> as_row = (\<lambda>t. (unixSec t, nsec t)) \<circ> etime" by (auto simp: as_row_def)
  moreover have "inj (\<lambda>t::Time. (unixSec t, nsec t))" by (auto intro!: injI)
  ultimately have dist: "distinct (map row_time ?ts)"
    using assms(7) by (simp add: distinct_map comp_inj_on inj_on_subset)
  have "set (in_order ?ts) = set ?ts" using in_order_sorted(2) [OF dist] by (metis mset_eq_setD)
  then have all: "rows_after input (in_order ?ts) = in_order ?ts"
    using assms(6,9) by (auto simp: rows_after_def filter_id_conv as_row_def not_before_def)
  have "read_pages D now n input s'' w3 = take (n * page_size input) (in_order ?ts)"
    using read_pages_all [OF D(2), of w3 s'' 0 input now n] n T2 dist assms(8) all by simp
  moreover have "length (in_order ?ts) \<le> n * page_size input"
  proof -
    have "length (in_order ?ts) \<le> n" using in_order_sorted(2) [OF dist] assms(10) by (metis length_map mset_eq_length)
    also have "n \<le> n * page_size input" using page_size_positive [of input] by simp
    finally show ?thesis .
  qed
  ultimately have "read_pages D now n input s'' w3 = in_order ?ts" by simp
  with in_order_sorted [OF dist] s(1) r(1) x n(1) show ?thesis by (auto simp: Let_def)
qed

text \<open>A driver that does so, which keeps its tables in memory.\<close>

definition tableDriver :: "((string \<Rightarrow> row list) \<times> row list) Driver" where
  "tableDriver =
     \<lparr>OpenSql = (\<lambda>c w. (None, w)), ExecSql = (\<lambda>p q vs w. (None, w)),
      QuerySql = (\<lambda>p q vs w. case vs of
         [ArgInt e, _, ArgInt n, ArgInt l] \<Rightarrow>
           (Inr (map row_args (take (nat l) (in_order (filter (\<lambda>r. later (e, n) (row_time r)) (fst w p))))), w)
       | _ \<Rightarrow> (Inl ''arguments'', w)),
      CloseSql = (\<lambda>p w. w), BeginTx = (\<lambda>p w. (None, w)), PrepareTx = (\<lambda>p q w. (None, w)),
      ExecTx = (\<lambda>p q vs w. case decode_rows vs of None \<Rightarrow> (Some ''types'', w) | Some es \<Rightarrow> (None, (fst w, map as_row es))),
      Rollback = (\<lambda>p w. (fst w, [])), Commit = (\<lambda>p w. (None, ((fst w)(p := fst w p @ snd w), []))),
      RenameFile = (\<lambda>p q w. (None, w)), RemoveFile = (\<lambda>p w. (None, w)), RangeOrder = (\<lambda>w ks. ks)\<rparr>"

lemma tableDriver_ok: "table_driver tableDriver fst"
proof -
  have "keeps_tables tableDriver fst" "inserts tableDriver fst"
    by (simp_all add: keeps_tables_def inserts_def tableDriver_def decode_entry_args)
  moreover have "seeks tableDriver fst"
    unfolding seeks_def
  proof (intro allI)
    fix p e n l and w :: "(string \<Rightarrow> row list) \<times> row list"
    let ?rs = "in_order (filter (\<lambda>r. later (e, n) (row_time r)) (fst w p))"
    have "QuerySql tableDriver p (sqlSeekPageAfter @ sqlSeekPageAfterOrder) [ArgInt e, ArgInt e, ArgInt n, ArgInt l] w
        = (Inr (map row_args (take (nat l) ?rs)), w)" by (simp add: tableDriver_def)
    with in_order_any show "\<exists>rs w'. QuerySql tableDriver p (sqlSeekPageAfter @ sqlSeekPageAfterOrder)
        [ArgInt e, ArgInt e, ArgInt n, ArgInt l] w = (Inr (map row_args (take (nat l) rs)), w') \<and>
      mset rs = mset (filter (\<lambda>r. later (e, n) (row_time r)) (fst w p)) \<and>
      sorted_wrt (\<lambda>r r'. \<not> row_before r' r) rs \<and> fst w' = fst w" by blast
  qed
  ultimately show ?thesis by (simp add: table_driver_def)
qed

definition twoRecords :: "event list" where
  "twoRecords = [Log (at_sec 105) 4 ''b'', Tick (at_sec 106), Log (at_sec 101) 0 ''a'']"

theorem restart_finds_log_witness:
  "\<exists>s w1 i s' w2 s'' w3.
    New tableDriver zeroConfig [] 100 ((\<lambda>_. []), []) = (Inr s, w1) \<and>
    run (sqliteStorage tableDriver) (twoRecords @ [Stop]) (NewIngester (Some cfg1), (None, s, w1)) = Some (Inr (i, (None, s', w2))) \<and>
    New tableDriver zeroConfig [(file_name zeroConfig 100, False, 8192)] 200 w2 = (Inr s'', w3) \<and>
    (let rows = read_pages tableDriver 201 2 fromOne s'' w3
     in mset rows = {#(105, 0, 4, ''b''), (101, 0, 0, ''a'')#} \<and> sorted_wrt row_before rows)"
  using restart_finds_log [OF tableDriver_ok, of zeroConfig 100 "((\<lambda>_. []), [])" cfg1 twoRecords fromOne 2 8192 200 201] fromOne_ok(1)
  by (simp add: epoch_range_def zeroConfig_def valid_config_def cfg1_def twoRecords_def at_sec_def not_before_def as_row_def
      fromOne_def entriesIn_def)

end
