(* ===== verification/WorldMoves.thy ===== *)
theory WorldMoves imports SystemMoves begin

text \<open>
  What the storage does to the world outside: a relation between states of the world that the calls of the driver respect,
  other than those of a transaction, is respected by every step but a flush. The law is the locale here.
\<close>

locale driver_moves =
  fixes D :: "'w Driver" and R :: "'w \<Rightarrow> 'w \<Rightarrow> bool"
  assumes same: "R w w"
    and further: "R w w1 \<Longrightarrow> R w1 w2 \<Longrightarrow> R w w2"
    and opens_db: "R w (snd (OpenSql D conn w))"
    and execs: "R w (snd (ExecSql D p q vs w))"
    and queries: "R w (snd (QuerySql D p q vs w))"
    and closes: "R w (CloseSql D p w)"
    and renames: "R w (snd (RenameFile D p q w))"
    and removes: "R w (snd (RemoveFile D p w))"
begin

lemma calls:
  "OpenSql D c w = (r, w') \<Longrightarrow> R w w'" "ExecSql D p q vs w = (r, w') \<Longrightarrow> R w w'"
  "QuerySql D p q vs w = (r', w') \<Longrightarrow> R w w'"
  by (metis opens_db snd_conv, metis execs snd_conv, metis queries snd_conv)

lemma connect_world: "connect D os now d w = (r, d', w') \<Longrightarrow> R w w'"
  by (auto simp: connect_def same intro: further closes dest!: calls split: prod.splits option.splits if_splits)
    (blast intro: further closes)+

lemma query_world: "db_query D now q as d w = (r, d', w') \<Longrightarrow> R w w'"
  by (auto simp: db_query_def same dest!: calls split: prod.splits sum.splits if_splits)

lemma list_world:
  "listEntries D now q as d w = (r, d', w') \<Longrightarrow> R w w'" "listTicks D now q as d w = (r', d', w') \<Longrightarrow> R w w'"
  by (auto simp: listEntries_def listTicks_def list_rows_def dest: query_world split: prod.splits sum.splits option.splits)

lemma size_world: "updateSize D now d w = (r, d', w') \<Longrightarrow> R w w'"
proof -
  assume u: "updateSize D now d w = (r, d', w')"
  obtain r1 d1 w1 where q: "db_query D now sqlSize [] d w = (r1, d1, w1)" by (metis prod_cases3)
  with u have "w' = w1" by (auto simp: updateSize_def split: sum.splits list.splits sqlarg.splits)
  with query_world [OF q] show ?thesis by simp
qed

lemma close_world:
  assumes "db_close D d w = (b, d', w')"
  shows "R w w'"
proof -
  let ?v = "if live d then snd (ExecSql D (filePath d) ''VACUUM'' [] w) else w"
  have "R w ?v" by (simp add: same execs)
  then have c: "R w (CloseSql D (filePath d) ?v)" by (rule further [OF _ closes])
  with further [OF c renames] assms same show ?thesis by (auto simp: db_close_def Let_def split: if_splits)
qed

lemma closeSafe_world: "closeSafe D now d w = (b, d', w') \<Longrightarrow> R w w'"
  by (auto simp: closeSafe_def same dest: close_world split: if_splits)

lemma remove_world: "db_remove D d w = (d', w') \<Longrightarrow> R w w'"
  by (auto simp: db_remove_def dest!: close_world intro: further removes split: prod.splits if_splits)

lemma entries_loop_world: "entries_loop D now m q as ks list s w = (r, s', w') \<Longrightarrow> R w w'"
proof (induction ks arbitrary: list s w)
  case (Cons k ks)
  obtain x d w1 where l: "listEntries D now q as (heap s ! k) w = (x, d, w1)" by (metis prod_cases3)
  with Cons list_world(1) [OF l] show ?case
    by (auto simp: same Let_def simp del: storage_schedule.simps split: if_splits sum.splits prod.splits intro: further)
qed (simp add: same)

lemma ticks_loop_world: "ticks_loop D now q as ks list cs s w = (r, s', w') \<Longrightarrow> R w w'"
proof (induction ks arbitrary: list cs s w)
  case (Cons k ks)
  obtain x d w1 where l: "listTicks D now q as (heap s ! k) w = (x, d, w1)" by (metis prod_cases3)
  with Cons list_world(2) [OF l] show ?case by (auto split: if_splits sum.splits intro: further)
qed (simp add: same)

lemma api_world:
  "storage_Entries D input now s w = (r, s', w') \<Longrightarrow> R w w'" "storage_Ticks D input' now s w = (r, s', w') \<Longrightarrow> R w w'"
  by (auto simp: storage_Entries_def storage_Ticks_def Let_def same simp del: storage_schedule.simps
      dest: entries_loop_world ticks_loop_world split: sum.splits prod.splits list.splits if_splits)

lemma exec_world:
  assumes "exec_task D now k tid n s w = (r, s', w')"
  shows "R w w'"
proof -
  have cb: "R w v" if "run_callback D now k tid cb s1 w = (e, s2, v)" for cb s1 e s2 v
    using that by (auto simp: run_callback_def dest: list_world split: callback.splits prod.splits sum.splits)
  show ?thesis
    using assms
    by (auto simp: exec_task_def Let_def same dest!: cb split: prod.splits bool.splits option.splits if_splits)
qed

lemma goroutine_world: "R (world x) (world (run_goroutine D now g x))"
  by (auto simp: run_goroutine_def Let_def same dest: exec_world split: prod.splits option.splits)

text \<open>The routine of the scheduler.\<close>

lemma execute_same_world: "world (executeDbTasks k i m tids x) = world x"
  by (induction k i m tids x rule: executeDbTasks.induct) (simp_all add: Let_def)

lemma execute_open_same_world: "world (execute_open D tot qt ks x) = world x"
  by (induction tot qt ks x rule: execute_open.induct) (simp_all add: Let_def execute_same_world)

lemma start_same_world: "world (start_tasks D x) = world x"
  by (simp add: start_tasks_def Let_def execute_open_same_world)

lemma close_one_world: "R (fst (snd c)) (fst (snd (close_one D now k c)))"
  by (auto simp: close_one_def dest: closeSafe_world split: prod.splits)

lemma fold_world: "(\<And>k c. R (fst (snd c)) (fst (snd (f k c)))) \<Longrightarrow> R (fst (snd c)) (fst (snd (fold f ks c)))"
proof (induction ks arbitrary: c)
  case (Cons k ks)
  from further [OF Cons.prems Cons.IH [OF Cons.prems]] show ?case by simp
qed (simp add: same)

lemma close_idle_world: "R (fst (snd c)) (fst (snd (close_idle D now ks c)))"
  unfolding close_idle_def
  by (rule fold_world) (use close_one_world [of "(_, _, _, _)", simplified] in \<open>auto simp: same split: prod.splits\<close>)

lemma close_over_world: "R (fst (snd c)) (fst (snd (close_over D now ks c)))"
  unfolding close_over_def
  by (rule fold_world) (use close_one_world [of "(_, _, _, _)", simplified] in \<open>auto simp: same split: prod.splits\<close>)

lemma open_first_world: "open_first D now ks s w = (s', w') \<Longrightarrow> R w w'"
  by (induction ks arbitrary: s w) (auto simp: same dest: connect_world intro: further split: prod.splits option.splits)

lemma open_all_world: "open_all D now n ks s w = (s', w') \<Longrightarrow> R w w'"
  by (induction ks arbitrary: n s w)
    (auto simp: same dest: connect_world intro: further split: prod.splits option.splits if_splits)

lemma routine_world: "R (world x) (world (doRoutineScheduledTasks D now x))"
proof -
  define x1 where "x1 = start_tasks D x"
  define n where "n = int (length (filter (\<lambda>k. isOpen (heap (stor x) ! k)) (dbs (stor x))))"
  define o1 where "o1 = filter (\<lambda>k. isOpen (heap (stor x) ! k) \<and> ntasks (stor x) k > 0) (dbs (stor x))"
  define o2 where "o2 = filter (\<lambda>k. isOpen (heap (stor x) ! k) \<and> \<not> ntasks (stor x) k > 0) (dbs (stor x))"
  define o3 where "o3 = filter (\<lambda>k. \<not> isOpen (heap (stor x) ! k) \<and> ntasks (stor x) k > 0) (dbs (stor x))"
  define m where "m = MaxOpenedDB (sconfig (stor x))"
  define c1 where "c1 = close_idle D now (dbs (stor x)) (stor x1, world x1, n, False)"
  define c2 where "c2 = (if fst (snd (snd c1)) > m then close_over D now o2 c1 else c1)"
  define c3 where "c3 = (if fst (snd (snd c2)) > m then close_over D now (fewest_tasks (fst c2) o1) c2 else c2)"
  obtain s w t b where c: "c3 = (s, w, t, b)" by (metis prod_cases4)
  have "R (world x) (fst (snd c1))"
    using close_idle_world [of "(stor x1, world x1, n, False)"] by (simp add: c1_def x1_def start_same_world)
  also have "R (fst (snd c1)) (fst (snd c2))" by (simp add: c2_def close_over_world same)
  also (further) have "R (fst (snd c2)) (fst (snd c3))" by (simp add: c3_def close_over_world same)
  finally (further) have w: "R (world x) w" by (simp add: c)
  obtain s' w' where o: "(if t > MaxOpenedDB (sconfig s) then open_first D now (fewest_tasks s o3) s w else open_all D now t (fewest_tasks s o3) s w) = (s', w')"
    by fastforce
  then have "R w w'" by (auto dest: open_first_world open_all_world split: if_splits)
  with w have "R (world x) w'" by (rule further)
  moreover have "world (doRoutineScheduledTasks D now x) = w'"
    unfolding doRoutineScheduledTasks_def Let_def x1_def [symmetric] n_def [symmetric] o1_def [symmetric] o2_def [symmetric]
      o3_def [symmetric] m_def [symmetric] c1_def [symmetric] c2_def [symmetric] c3_def [symmetric] c
    using o by (cases "t > MaxOpenedDB (sconfig s)") simp_all
  ultimately show ?thesis by simp
qed

text \<open>The maintenance routines, and all steps but a flush.\<close>

lemma sizes_world: "update_sizes D now ks s w = (s', w') \<Longrightarrow> R w w'"
  by (induction ks arbitrary: s w) (auto simp: same dest: size_world intro: further split: prod.splits)

lemma size_check_world:
  assumes "size_check D now s w = Inr (s', w')"
  shows "R w w'"
proof -
  obtain s1 w1 where a: "archive_live D now s w = (s1, w1)" by fastforce
  then have w1: "R w w1" by (auto simp: archive_live_def Let_def same dest: connect_world split: if_splits prod.splits option.splits)
  obtain s2 w2 where u: "update_sizes D (unixSec now) (liveDbs s1) s1 w1 = (s2, w2)" by fastforce
  note w2 = further [OF w1 sizes_world [OF u]]
  then show ?thesis
    using assms a u
    by (auto simp: size_check_def split: if_splits list.splits prod.splits intro: further dest: remove_world)
qed

lemma checkpoint_world: "R w (wal_checkpoint D ks s w)"
  unfolding wal_checkpoint_def
proof (induction ks arbitrary: w)
  case (Cons k ks)
  have "R w (checkpoint D m d w)" for m d by (simp add: checkpoint_def same execs)
  with further [OF this Cons.IH] Cons.IH show ?case by simp
qed (simp add: same)

lemma step_world:
  assumes "\<And>c. ev \<noteq> FlushChunk c"
  shows "R (world x) (world (sched_step D ev x))"
proof (cases ev)
  case (AskEntries input now)
  then show ?thesis by (auto dest: api_world split: prod.splits)
next
  case (AskTicks input now)
  then show ?thesis by (auto dest: api_world split: prod.splits)
next
  case (SizeCheck now)
  then show ?thesis by (auto simp: same dest: size_check_world split: sum.splits)
qed (use assms in \<open>simp_all add: same routine_world goroutine_world checkpoint_world\<close>)

lemma close_all_world: "close_all D ks s w = (s', w') \<Longrightarrow> R w w'"
  by (induction ks arbitrary: s w) (auto simp: same dest: close_world intro: further split: prod.splits)

end

text \<open>
  The driver of \<open>SqliteStorage\<close>, whose committed entries \<open>J\<close> are changed by commits only. Opening, asking and
  removing a file do not add entries; a removed file does not change what has been committed.
\<close>

definition sql_history :: "'w Driver \<Rightarrow> ('w \<Rightarrow> Entry list) \<Rightarrow> bool" where
  "sql_history D J =
     (sql_driver D J \<and> (\<forall>conn w. J (snd (OpenSql D conn w)) = J w) \<and> (\<forall>p q vs w. J (snd (QuerySql D p q vs w)) = J w) \<and>
      (\<forall>p w. J (snd (RemoveFile D p w)) = J w))"

interpretation committed: driver_moves D "\<lambda>w w'. sql_history D J \<longrightarrow> J w' = J w" for D :: "'w Driver" and J
  by unfold_locales (auto simp: sql_history_def sql_driver_def)

end
