(* ===== verification/Program.thy ===== *)
theory Program imports WorldMoves SystemProperties Routines begin

text \<open>
  The whole program: the ingester of \<^verbatim>\<open>ingester.go\<close> over the SQLite storage, whose routines, task goroutines and
  queries work on the same databases, and the tickers and channels of the \<^verbatim>\<open>select\<close> loops that drive the four routines
  (\<^verbatim>\<open>ingester.routineCheck\<close>, \<^verbatim>\<open>routineSizeCheck\<close>, \<^verbatim>\<open>routineScheduledTasks\<close>, \<^verbatim>\<open>routineWalCheckpoint\<close>). Calls and
  turns of routines take turns, in any order.
\<close>

subsection \<open>Tickers\<close>

text \<open>
  A \<^verbatim>\<open>time.Ticker\<close> with its period and the time of its next tick, in nanoseconds. \<^verbatim>\<open>NewTicker\<close> panics for a period that
  is not positive. A tick is received at the earliest when it is due, and, with the channels of Go 1.23, no tick from before is
  left after \<^verbatim>\<open>Reset\<close>.
\<close>

record ticker =
  period :: int
  due :: int

definition nanos :: "Time \<Rightarrow> int" where
  "nanos t = unixSec t * 1000000000 + nsec t"

definition NewTicker :: "int \<Rightarrow> int \<Rightarrow> ticker option" where
  "NewTicker now d = (if ticks d then Some \<lparr>period = d, due = now + d\<rparr> else None)"

definition Reset :: "int \<Rightarrow> ticker \<Rightarrow> ticker" where
  "Reset now tk = tk\<lparr>due := now + period tk\<rparr>"

subsection \<open>The state\<close>

datatype routine = RoutineCheck | RoutineSizeCheck | RoutineScheduledTasks | RoutineWalCheckpoint

text \<open>
  A routine that runs has its ticker; one that has returned, or was not started, has none. \<open>storageQuit\<close> and
  \<open>storageShutdown\<close> say whether the channels \<^verbatim>\<open>quit\<close> and \<^verbatim>\<open>shutdown\<close> of the storage are closed.
\<close>

record 'w program =
  ing :: ingester
  sys :: "'w sched"
  tickers :: "routine \<Rightarrow> ticker option"
  storageQuit :: bool
  storageShutdown :: bool

text \<open>
  The storage as the ingester sees it, with everything else the storage keeps. A panic of \<^verbatim>\<open>Flush\<close> ends the program, so it
  is kept beside the storage, which is then left alone.
\<close>

definition with_storage :: "'w sched \<Rightarrow> storage \<times> 'w \<Rightarrow> 'w sched" where
  "with_storage y x = y\<lparr>stor := fst x, world := snd x\<rparr>"

definition programStorage :: "'w Driver \<Rightarrow> (panic option \<times> 'w sched) Storage" where
  "programStorage D =
     \<lparr>Flush = (\<lambda>c (p, y). if p \<noteq> None then (Some ''panic'', (p, y))
         else (case storage_Flush D c (stor y) (world y) of
                 Inl q \<Rightarrow> (Some ''panic'', (Some q, y))
               | Inr (err, sw) \<Rightarrow> (err, (None, with_storage y sw)))),
      CloseStorage = (\<lambda>(p, y). case storage_Close D (stor y) (world y) of
         (err, sw) \<Rightarrow> (err, (if dangling (stor y) then Some NilDereference else p, with_storage y sw)))\<rparr>"

text \<open>The intervals of the routines that \<^verbatim>\<open>sqlite.New\<close> and \<^verbatim>\<open>NewIngester\<close> start.\<close>

fun interval :: "Config \<Rightarrow> IngesterConfig \<Rightarrow> routine \<Rightarrow> int" where
  "interval c ic RoutineCheck = routineCheckInterval ic"
| "interval c ic RoutineSizeCheck = sizeCheckInterval c"
| "interval c ic RoutineScheduledTasks = scheduledTasksInterval c"
| "interval c ic RoutineWalCheckpoint = walCheckpointInterval c"

definition starts :: "Config \<Rightarrow> routine \<Rightarrow> bool" where
  "starts c r = (r = RoutineWalCheckpoint \<longrightarrow> IntervalWalCheckpointSec c > 0)"

definition start_program :: "'w Driver \<Rightarrow> Config \<Rightarrow> IngesterConfig \<Rightarrow> (string \<times> bool \<times> int) list \<Rightarrow> Time \<Rightarrow> 'w
    \<Rightarrow> string + 'w program" where
  "start_program D cfg icfg files now w =
     (case New D cfg files (unixSec now) w of
        (Inl err, w) \<Rightarrow> Inl err
      | (Inr s, w) \<Rightarrow>
          let i = NewIngester (Some icfg)
          in Inr \<lparr>ing = i, sys = \<lparr>stor = s, world = w, goroutines = []\<rparr>,
               tickers = (\<lambda>r. if starts (sconfig s) r then NewTicker (nanos now) (interval (sconfig s) (config i) r) else None),
               storageQuit = False, storageShutdown = False\<rparr>)"

subsection \<open>Steps\<close>

text \<open>
  A record that is logged; a tick that a routine receives at a time, with the time in nanoseconds at which its work is done and the
  ticker reset; a routine of the storage that finds \<^verbatim>\<open>quit\<close> closed; a query, a result, a cancellation or a step of a task goroutine;
  \<^verbatim>\<open>Close\<close> of the ingester, whose routine drains, closes the storage and returns.
\<close>

datatype program_event =
    Record Time int string
  | Turn routine Time int
  | Quits routine
  | Call sched_event
  | StopProgram

text \<open>What makes a step of the storage panic, a database that is open without a handle included.\<close>

definition event_panic :: "'w Driver \<Rightarrow> sched_event \<Rightarrow> 'w sched \<Rightarrow> panic option" where
  "event_panic D ev y =
     (if dangling (stor y) then Some NilDereference
      else case ev of
        SizeCheck now \<Rightarrow> (case size_check D now (stor y) (world y) of Inl p \<Rightarrow> Some p | Inr _ \<Rightarrow> None)
      | AskCancel tid \<Rightarrow> (case fst (storage_Cancel tid (stor y)) of Inl p \<Rightarrow> Some p | Inr _ \<Rightarrow> None)
      | FlushChunk c \<Rightarrow> (case storage_Flush D c (stor y) (world y) of Inl p \<Rightarrow> Some p | Inr _ \<Rightarrow> None)
      | _ \<Rightarrow> None)"

definition storage_step :: "'w Driver \<Rightarrow> sched_event \<Rightarrow> 'w program \<Rightarrow> (panic + 'w program) option" where
  "storage_step D ev x =
     Some (case event_panic D ev (sys x) of
             Some p \<Rightarrow> Inl p
           | None \<Rightarrow> Inr (x\<lparr>sys := sched_step D ev (sys x)\<rparr>))"

definition with_ingester :: "'w program \<Rightarrow> ingester \<times> 'w sched \<Rightarrow> 'w program" where
  "with_ingester x y = x\<lparr>ing := fst y, sys := snd y\<rparr>"

definition ingester_step :: "'w Driver \<Rightarrow> event \<Rightarrow> 'w program \<Rightarrow> (panic + 'w program) option" where
  "ingester_step D ev x =
     (case step (programStorage D) ev (ing x, (None, sys x)) of
        None \<Rightarrow> None
      | Some (Inl p) \<Rightarrow> Some (Inl p)
      | Some (Inr (i, (Some p, y))) \<Rightarrow> Some (Inl p)
      | Some (Inr (i, (None, y))) \<Rightarrow> Some (Inr (with_ingester x (i, y))))"

text \<open>The body of a \<^verbatim>\<open>select\<close> loop for a tick.\<close>

fun turn_body :: "'w Driver \<Rightarrow> routine \<Rightarrow> Time \<Rightarrow> 'w program \<Rightarrow> (panic + 'w program) option" where
  "turn_body D RoutineCheck now x = ingester_step D (Tick now) x"
| "turn_body D RoutineSizeCheck now x = storage_step D (SizeCheck now) x"
| "turn_body D RoutineScheduledTasks now x = storage_step D (Routine (unixSec now)) x"
| "turn_body D RoutineWalCheckpoint now x = storage_step D WalCheckpoint x"

definition is_call :: "sched_event \<Rightarrow> bool" where
  "is_call ev =
     (case ev of Exec g now \<Rightarrow> True | AskEntries input now \<Rightarrow> True | AskTicks input now \<Rightarrow> True
      | AskResult tid \<Rightarrow> True | AskCancel tid \<Rightarrow> True | _ \<Rightarrow> False)"

text \<open>A routine waits while no tick is due and \<^verbatim>\<open>quit\<close> is open.\<close>

definition received :: "routine \<Rightarrow> Time \<Rightarrow> int \<Rightarrow> 'w program \<Rightarrow> ticker option" where
  "received r now fin x =
     (case tickers x r of
        None \<Rightarrow> None
      | Some tk \<Rightarrow> if due tk \<le> nanos now \<and> nanos now \<le> fin then Some tk else None)"

definition set_ticker :: "routine \<Rightarrow> ticker option \<Rightarrow> 'w program \<Rightarrow> 'w program" where
  "set_ticker r tk x = x\<lparr>tickers := (tickers x)(r := tk)\<rparr>"

fun program_step :: "'w Driver \<Rightarrow> program_event \<Rightarrow> 'w program \<Rightarrow> (panic + 'w program) option" where
  "program_step D (Record t l b) x = ingester_step D (Log t l b) x"
| "program_step D (Turn r now fin) x =
     (case received r now fin x of
        None \<Rightarrow> Some (Inr x)
      | Some tk \<Rightarrow> map_option (map_sum id (set_ticker r (Some (Reset fin tk)))) (turn_body D r now x))"
| "program_step D (Quits r) x =
     Some (Inr (if r \<noteq> RoutineCheck \<and> tickers x r \<noteq> None \<and> storageQuit x
                then (set_ticker r None x)\<lparr>storageShutdown := storageShutdown x \<or> r = RoutineScheduledTasks\<rparr> else x))"
| "program_step D (Call ev) x = (if is_call ev then storage_step D ev x else Some (Inr x))"
| "program_step D StopProgram x =
     map_option (map_sum id (set_ticker RoutineCheck None)) (ingester_step D Stop x)"

fun program_run :: "'w Driver \<Rightarrow> program_event list \<Rightarrow> 'w program \<Rightarrow> (panic + 'w program) option" where
  "program_run D [] x = Some (Inr x)"
| "program_run D (e # es) x =
     (case program_step D e x of
        None \<Rightarrow> None | Some (Inl p) \<Rightarrow> Some (Inl p) | Some (Inr x) \<Rightarrow> program_run D es x)"

text \<open>The records that are logged.\<close>

fun recorded :: "program_event list \<Rightarrow> Entry list" where
  "recorded [] = []"
| "recorded (Record t l b # es) = \<lparr>etime = t, level = l, content = b\<rparr> # recorded es"
| "recorded (_ # es) = recorded es"

subsection \<open>Tickers of a run\<close>

text \<open>The times at which a routine takes a turn, in a run.\<close>

fun turns :: "'w Driver \<Rightarrow> routine \<Rightarrow> program_event list \<Rightarrow> 'w program \<Rightarrow> int list" where
  "turns D r [] x = []"
| "turns D r (e # es) x =
     (case e of Turn r' now fin \<Rightarrow> if r' = r \<and> received r now fin x \<noteq> None then [nanos now] else [] | _ \<Rightarrow> []) @
     (case program_step D e x of Some (Inr x) \<Rightarrow> turns D r es x | _ \<Rightarrow> [])"

lemma ingester_step_tickers:
  "ingester_step D ev x = Some (Inr x') \<Longrightarrow> tickers x' = tickers x \<and> storageQuit x' = storageQuit x \<and> storageShutdown x' = storageShutdown x"
  by (auto simp: ingester_step_def with_ingester_def split: option.splits sum.splits)

lemma storage_step_tickers:
  "storage_step D ev x = Some (Inr x') \<Longrightarrow> tickers x' = tickers x \<and> storageQuit x' = storageQuit x \<and> storageShutdown x' = storageShutdown x"
  by (auto simp: storage_step_def split: option.splits)

lemma turn_body_tickers:
  "turn_body D r now x = Some (Inr x') \<Longrightarrow> tickers x' = tickers x \<and> storageQuit x' = storageQuit x \<and> storageShutdown x' = storageShutdown x"
  by (cases r) (auto dest: ingester_step_tickers storage_step_tickers)

text \<open>A step leaves the ticker of a routine alone, resets it, or ends the routine.\<close>

lemma step_ticker:
  assumes "program_step D e x = Some (Inr x')"
  shows "tickers x' r = tickers x r \<or> tickers x' r = None \<or>
    (\<exists>now fin tk. e = Turn r now fin \<and> received r now fin x = Some tk \<and> tickers x' r = Some (Reset fin tk))"
proof (cases e)
  case (Turn r' now fin)
  show ?thesis
  proof (cases "received r' now fin x")
    case (Some tk)
    with assms Turn obtain x1 where "turn_body D r' now x = Some (Inr x1)" "x' = set_ticker r' (Some (Reset fin tk)) x1"
      by (auto simp: map_sum_Inr_iff)
    with turn_body_tickers [of D r' now x x1] Some Turn show ?thesis by (auto simp: set_ticker_def)
  qed (use assms Turn in simp)
qed (use assms ingester_step_tickers storage_step_tickers in
  \<open>fastforce simp: set_ticker_def map_sum_Inr_iff split: if_splits\<close>)+

lemma turns_none: "tickers x r = None \<Longrightarrow> turns D r es x = []"
proof (induction es arbitrary: x)
  case (Cons e es)
  have n: "received r now fin x = None" for now fin using Cons.prems by (simp add: received_def)
  have "tickers x' r = None" if "program_step D e x = Some (Inr x')" for x'
    using step_ticker [OF that, of r] Cons.prems n by auto
  with Cons.IH show ?case by (auto simp: n split: program_event.splits option.splits sum.splits)
qed simp

lemma turns_spaced:
  assumes "tickers x r = Some tk" "0 \<le> period tk"
  shows "sorted_wrt (\<lambda>a b. a + period tk \<le> b) (turns D r es x) \<and> (\<forall>a \<in> set (turns D r es x). due tk \<le> a)"
  using assms
proof (induction es arbitrary: x tk)
  case (Cons e es)
  show ?case
  proof (cases "\<exists>now fin. e = Turn r now fin \<and> received r now fin x \<noteq> None")
    case False
    then have t: "turns D r (e # es) x = (case program_step D e x of Some (Inr x) \<Rightarrow> turns D r es x | _ \<Rightarrow> [])"
      by (auto split: program_event.splits)
    show ?thesis
    proof (cases "\<exists>x'. program_step D e x = Some (Inr x')")
      case True
      then obtain x' where x': "program_step D e x = Some (Inr x')" by blast
      with step_ticker [OF x', of r] False consider "tickers x' r = Some tk" | "tickers x' r = None"
        using Cons.prems(1) by (metis option.distinct(1))
      then show ?thesis
      proof cases
        case 1
        from Cons.IH [OF this Cons.prems(2)] show ?thesis unfolding t x' by simp
      next
        case 2
        then show ?thesis unfolding t x' by (simp add: turns_none)
      qed
    next
      case False
      then show ?thesis unfolding t by (auto split: option.splits sum.splits)
    qed
  next
    case True
    then obtain now fin where e: "e = Turn r now fin" and n: "received r now fin x \<noteq> None" by blast
    then have d: "received r now fin x = Some tk" "due tk \<le> nanos now" "nanos now \<le> fin"
      using Cons.prems(1) by (auto simp: received_def split: if_splits)
    show ?thesis
    proof (cases "\<exists>x'. program_step D e x = Some (Inr x')")
      case True
      then obtain x' where x': "program_step D e x = Some (Inr x')" by blast
      obtain x1 where "x' = set_ticker r (Some (Reset fin tk)) x1" using x' e d(1) by (auto simp: map_sum_Inr_iff)
      then have tk': "tickers x' r = Some (Reset fin tk)" by (simp add: set_ticker_def)
      have p: "period (Reset fin tk) = period tk" "due (Reset fin tk) = fin + period tk" by (simp_all add: Reset_def)
      have t: "turns D r (e # es) x = nanos now # turns D r es x'" using x' e n by (simp del: program_step.simps)
      have "0 \<le> period (Reset fin tk)" using Cons.prems(2) p by simp
      from Cons.IH [OF tk' this] d(2,3) Cons.prems(2) show ?thesis unfolding t p by fastforce
    next
      case False
      then have "turns D r (e # es) x = [nanos now]" using e n by (auto simp del: program_step.simps split: option.splits sum.splits)
      with d(2) show ?thesis by simp
    qed
  qed
qed simp

end
