(* ===== verification/ProgramProperties.thy ===== *)
theory ProgramProperties imports Program SystemLiveness begin

text \<open>
  What can be relied on in the whole program of \<open>Program\<close>: whatever its goroutines, queries and routines do and in whatever
  order, nothing panics or hangs, the invariants of the ingester and of the storage hold together, and what is committed
  follows the log.
\<close>

subsection \<open>The storage under the ingester\<close>

lemma flush_program:
  "Flush (programStorage D) c (p, y) = (err, (p', y')) \<Longrightarrow>
     \<exists>s w. Flush (sqliteStorage D) c (p, stor y, world y) = (err, (p', s, w)) \<and> y' = y\<lparr>stor := s, world := w\<rparr>"
  by (auto simp: programStorage_def sqliteStorage_def with_storage_def split: if_splits sum.splits)

lemma close_program:
  "CloseStorage (programStorage D) (p, y) =
     (let (err, p, x) = CloseStorage (sqliteStorage D) (p, stor y, world y) in (err, (p, with_storage y x)))"
  by (simp add: programStorage_def sqliteStorage_def split: prod.splits)

lemma close_returns: "storage_inv (stor y) \<Longrightarrow> fst (snd (CloseStorage (programStorage D) (None, y))) = None"
  by (simp add: programStorage_def no_dangling split: prod.splits)

lemma flush_returns:
  assumes "storage_inv (stor y)" "Flush (programStorage D) c (None, y) = (err, z)"
  shows "fst z = None \<and> storage_inv (stor (snd z))"
  using storage_Flush_keeps [OF assms(1), of D c "world y"] assms(2) by (auto simp: programStorage_def with_storage_def)

lemma program_contract:
  assumes "sql_driver D J"
  shows "storage_contract (programStorage D) (\<lambda>z. J (world (snd z)))"
proof -
  note C = sqlite_storage_contract [OF assms]
  show ?thesis
  proof
    fix c and z z' :: "panic option \<times> 'a sched"
    assume c: "wf_chunk c" "Flush (programStorage D) c z = (None, z')"
    obtain p y p' y' where z: "z = (p, y)" "z' = (p', y')" by (cases z, cases z') simp
    from flush_program [of D c p y None p' y'] c(2)
    obtain s w where f: "Flush (sqliteStorage D) c (p, stor y, world y) = (None, (p', s, w))" "y' = y\<lparr>stor := s, world := w\<rparr>"
      by (auto simp: z)
    from storage_contract.flush_ok [OF C c(1) f(1)] f(2)
    show "\<exists>es. subseq es (contents c) \<and> J (world (snd z')) = J (world (snd z)) @ es" by (simp add: z)
  next
    fix c err and z z' :: "panic option \<times> 'a sched"
    assume f: "Flush (programStorage D) c z = (Some err, z')"
    obtain p y p' y' where z: "z = (p, y)" "z' = (p', y')" by (cases z, cases z') simp
    with flush_program [of D c p y "Some err" p' y'] f storage_contract.flush_failed [OF C, of c "(p, stor y, world y)" err]
    show "J (world (snd z')) = J (world (snd z))" by auto
  next
    fix z :: "panic option \<times> 'a sched"
    obtain p y where z: "z = (p, y)" by (cases z)
    show "J (world (snd (snd (CloseStorage (programStorage D) z)))) = J (world (snd z))"
      using storage_contract.close_keeps [OF C, of "(p, stor y, world y)"]
      by (auto simp: z close_program with_storage_def split: prod.splits)
  qed
qed

subsection \<open>Closing the storage\<close>

lemma idle_update:
  assumes I: "inv_holding n x" and d: "dbTasks d = dbTasks (heap (stor x) ! k)" "taskCount d = taskCount (heap (stor x) ! k)"
    "isOpen d \<longrightarrow> handle d"
  shows "inv_holding n (x\<lparr>stor := update_db k d (stor x)\<rparr>)"
proof (cases "k < length (heap (stor x))")
  case True
  let ?s = "update_db k d (stor x)" and ?x = "x\<lparr>stor := update_db k d (stor x)\<rparr>"
  have w: "waiting (heap ?s) = waiting (heap (stor x))"
    using waiting_update [OF True, of d] d(1) by (simp add: update_db_def)
  have p: "places ?x = places x" by (simp add: places_def w)
  have t: "tstate ?s = tstate (stor x)" "fresh_task ?s = fresh_task (stor x)" by (simp_all add: tstate_def fresh_task_def fun_eq_iff)
  show ?thesis
  proof (rule inv_holdingI)
    show "storage_inv (stor ?x)" using storage_inv_update [OF inv_parts(1) [OF I] d(3)] by simp
    have "taskCount d = int (length (dbTasks d))" using inv_parts(2) [OF I] True d by (simp add: counted_def list_all_length)
    then show "counted (heap (stor ?x))"
      using inv_parts(2) [OF I] by (auto simp: update_db_def counted_def intro: list_all_update)
    show "list_all (goroutine_ok (stor ?x)) (goroutines ?x)" using goroutines_other [OF inv_parts(8) [OF I], of ?s] t by simp
    show "fresh_task (stor ?x) tid" if "tid \<in># waiting (heap (stor ?x))" for tid
      using that inv_parts(7) [OF I, of tid] w t by simp
  qed (use inv_parts [OF I] p in simp_all)
next
  case False
  then have "update_db k d (stor x) = stor x" by (simp add: update_db_def list_update_beyond)
  with I show ?thesis by simp
qed

lemma close_all_keeps:
  "inv_holding n x \<Longrightarrow> close_all D ks (stor x) (world x) = (s', w') \<Longrightarrow> inv_holding n (x\<lparr>stor := s', world := w'\<rparr>) \<and>
     taskIdSeq s' = taskIdSeq (stor x) \<and> dbs s' = dbs (stor x) \<and> sconfig s' = sconfig (stor x)"
proof (induction ks arbitrary: x)
  case (Cons k ks)
  obtain b d w1 where c: "db_close D (heap (stor x) ! k) (world x) = (b, d, w1)" by (metis prod_cases3)
  then have d: "dbTasks d = dbTasks (heap (stor x) ! k)" "taskCount d = taskCount (heap (stor x) ! k)"
    by (auto simp: db_close_def Let_def split: if_splits)
  have o: "isOpen d \<longrightarrow> handle d"
  proof
    assume "isOpen d"
    with c have "d = heap (stor x) ! k" "\<not> isOpen (heap (stor x) ! k)" by (auto simp: db_close_def isOpen_def Let_def split: if_splits)
    with \<open>isOpen d\<close> show "handle d" by simp
  qed
  let ?x = "(x\<lparr>stor := update_db k d (stor x)\<rparr>)\<lparr>world := w1\<rparr>"
  have "inv_holding n ?x" using idle_update [OF Cons.prems(1) d o] by (simp only: inv_world)
  moreover have "close_all D ks (stor ?x) (world ?x) = (s', w')" using Cons.prems(2) c by simp
  ultimately show ?case using Cons.IH [of ?x] by simp
next
  case Nil
  then have "x\<lparr>stor := s', world := w'\<rparr> = x" by (cases x) auto
  with Nil show ?case by auto
qed

subsection \<open>The invariant\<close>

text \<open>The storage with ids for \<open>n\<close> more steps, and a limit on its size that is not negative.\<close>

definition system_ok :: "nat \<Rightarrow> 'w sched \<Rightarrow> bool" where
  "system_ok n y =
     (sched_inv y \<and> taskIdSeq (stor y) + int (Suc n * length (dbs (stor y))) + 1 < 2 ^ 31 - 1 \<and>
      0 \<le> TotalSizeCapMB (sconfig (stor y)))"

text \<open>
  While the ingester is open, its own invariant holds, and what is committed, followed by what waits, is part of the
  log \<open>H\<close>; once it is closed, what is committed is.
\<close>

definition program_ok :: "('w \<Rightarrow> Entry list) \<Rightarrow> Entry list \<Rightarrow> nat \<Rightarrow> 'w program \<Rightarrow> bool" where
  "program_ok J H n x =
     (system_ok n (sys x) \<and>
      (if quit (ing x) then subseq (J (world (sys x))) H
       else ingester_inv (ing x) \<and> (\<exists>cfg W. in_log (\<lambda>y. J (world y)) H cfg W (ing x) (sys x))))"

text \<open>No task is cancelled, and nothing is logged after \<^verbatim>\<open>Close\<close>, of which \<open>closed_is_final\<close> speaks.\<close>

fun orderly :: "bool \<Rightarrow> program_event list \<Rightarrow> bool" where
  "orderly closed [] = True"
| "orderly closed (Record t l b # es) = (\<not> closed \<and> orderly closed es)"
| "orderly closed (StopProgram # es) = orderly True es"
| "orderly closed (Call ev # es) = ((\<forall>tid. ev \<noteq> AskCancel tid) \<and> orderly closed es)"
| "orderly closed (Turn r now fin # es) = orderly closed es"
| "orderly closed (Quits r # es) = orderly closed es"

interpretation settings: storage_steps "\<lambda>s s'. sconfig s' = sconfig s"
  by unfold_locales (auto simp: quiet_def upd_task_def onDbTask_def)

lemma quiet_system:
  assumes "system_ok n y" "quiet (stor y) s'"
  shows "system_ok n (y\<lparr>stor := s', world := w'\<rparr>)"
proof -
  have q: "taskIdSeq s' = taskIdSeq (stor y)" "length (dbs s') \<le> length (dbs (stor y))" "sconfig s' = sconfig (stor y)"
    using assms(2) by (simp_all add: quiet_def)
  have "Suc n * length (dbs s') \<le> Suc n * length (dbs (stor y))" by (intro mult_le_mono2 q(2))
  then have "int (Suc n * length (dbs s')) \<le> int (Suc n * length (dbs (stor y)))" by (simp only: of_nat_le_iff)
  with assms(1) q quiet_keeps [OF assms(2), of 0 w'] show ?thesis by (auto simp: system_ok_def sched_inv_def)
qed

lemma system_storage: "system_ok n y \<Longrightarrow> storage_inv (stor y)"
  using inv_parts(1) by (auto simp: system_ok_def sched_inv_def)

text \<open>The storage under the ingester: no panic so far, and in order.\<close>

definition under_ok :: "nat \<Rightarrow> panic option \<times> 'w sched \<Rightarrow> bool" where
  "under_ok n z = (fst z = None \<and> system_ok n (snd z))"

lemma flush_system:
  assumes "under_ok n z" "Flush (programStorage D) c z = (err, z')"
  shows "under_ok n z'"
proof -
  obtain y y' p where z: "z = (None, y)" "z' = (p, y')" and ok: "system_ok n y"
    using assms(1) by (cases z, cases z') (auto simp: under_ok_def)
  have p: "p = None" using flush_returns [OF system_storage [OF ok], of D c err z'] assms(2) by (simp add: z)
  from flush_program [of D c None y err p y'] assms(2) p obtain s w where
    f: "Flush (sqliteStorage D) c (None, stor y, world y) = (err, (None, s, w))" "y' = y\<lparr>stor := s, world := w\<rparr>"
    by (auto simp: z)
  have "quiet (stor y) s" using f(1) by (auto simp: sqliteStorage_def split: sum.splits dest: Flush_quiet)
  with ok have "system_ok n y'" unfolding f(2) by (rule quiet_system)
  then show ?thesis by (simp add: under_ok_def z p)
qed

lemma close_system:
  assumes "under_ok n z"
  shows "under_ok n (snd (CloseStorage (programStorage D) z))"
proof -
  obtain y where z: "z = (None, y)" and ok: "system_ok n y" using assms by (cases z) (auto simp: under_ok_def)
  obtain s w where c: "close_all D (dbs (stor y)) (stor y) (world y) = (s, w)" by (meson surj_pair)
  then have "snd (CloseStorage (programStorage D) z) = (None, y\<lparr>stor := s, world := w\<rparr>)"
    using no_dangling [OF system_storage [OF ok]] by (simp add: z programStorage_def with_storage_def storage_Close_def)
  moreover from close_all_keeps [OF _ c, of 0] ok have "system_ok n (y\<lparr>stor := s, world := w\<rparr>)"
    by (simp add: system_ok_def sched_inv_def)
  ultimately show ?thesis by (simp add: under_ok_def)
qed

lemma system_less: "system_ok (Suc n) y \<Longrightarrow> system_ok n y"
  by (auto simp: system_ok_def)

lemma step_system:
  assumes "system_ok (Suc n) y"
  shows "system_ok n (sched_step D ev y)"
proof -
  have I: "sched_inv y" and b: "taskIdSeq (stor y) + int (Suc (length (ev # replicate n ev)) * length (dbs (stor y))) + 1 < 2 ^ 31 - 1"
    and c: "0 \<le> TotalSizeCapMB (sconfig (stor y))"
    using assms by (simp_all add: system_ok_def)
  note nb = next_bound [OF I b]
  show ?thesis using step_keeps [OF I nb(1)] nb(2) [of D] c settings.step_moves [where x = y and D = D and ev = ev] by (simp add: system_ok_def)
qed

lemma archive_lists: "dbs (fst (archive_live D now s w)) = dbs s" "sconfig (fst (archive_live D now s w)) = sconfig s"
  by (auto simp: archive_live_def Let_def split: prod.splits option.splits)

lemma sizes_config: "sconfig (fst (update_sizes D now ks s w)) = sconfig s"
proof (induction ks arbitrary: s w)
  case (Cons k ks)
  obtain r d w1 where "updateSize D now (heap s ! k) w = (r, d, w1)" by (metis prod_cases3)
  with Cons.IH [of "update_db k d s" w1] show ?case by simp
qed simp

lemma size_check_returns:
  assumes "storage_inv s" "0 \<le> TotalSizeCapMB (sconfig s)"
  shows "size_check D now s w \<noteq> Inl p"
proof -
  obtain s1 w1 where a: "archive_live D now s w = (s1, w1)" by fastforce
  obtain s2 w2 where u: "update_sizes D (unixSec now) (liveDbs s1) s1 w1 = (s2, w2)" by fastforce
  have "sconfig s2 = sconfig s"
    using archive_lists(2) [of D now s w] sizes_config [of D "unixSec now" "liveDbs s1" s1 w1] a u by simp
  moreover have "dbs s2 = [] \<Longrightarrow> total_size s2 = 0" by (simp add: total_size_def)
  ultimately show ?thesis
    using assms a u by (auto simp: size_check_def storage_inv_def split: list.splits prod.splits)
qed

lemma no_event_panic:
  assumes "system_ok n y" "\<And>tid. ev \<noteq> AskCancel tid" "\<And>c. ev \<noteq> FlushChunk c"
  shows "event_panic D ev y = None"
proof -
  have "storage_inv (stor y)" using assms(1) by (rule system_storage)
  with size_check_returns [of "stor y" D _ "world y"] no_dangling [of "stor y"] assms show ?thesis
    by (auto simp: event_panic_def system_ok_def split: sched_event.splits sum.splits)
qed

subsection \<open>Any run\<close>

lemma set_ticker_kept [simp]: "ing (set_ticker r tk x) = ing x" "sys (set_ticker r tk x) = sys x"
  by (simp_all add: set_ticker_def)

lemma with_ingester_parts [simp]: "ing (with_ingester x y) = fst y" "sys (with_ingester x y) = snd y"
  by (simp_all add: with_ingester_def)

lemma ingester_step_ok:
  assumes D: "sql_history D J" and x: "program_ok J H (Suc n) x" and ev: "ev = Stop \<or> (\<exists>now. ev = Tick now) \<or> \<not> quit (ing x)"
  shows "\<exists>x'. ingester_step D ev x = Some (Inr x') \<and> program_ok J (H @ logged [ev]) n x' \<and>
    (quit (ing x') \<longleftrightarrow> quit (ing x) \<or> ev = Stop)"
proof -
  let ?S = "programStorage D" and ?z = "(None :: panic option, sys x)" and ?h = "\<lambda>z. J (world (snd z))"
  have C: "storage_contract ?S ?h" using D by (intro program_contract) (simp add: sql_history_def)
  have sys: "system_ok n (sys x)" using x system_less by (auto simp: program_ok_def)
  then have under: "under_ok n ?z" by (simp add: under_ok_def)
  show ?thesis
  proof (cases "quit (ing x)")
    case True
    then have "ev = Stop \<or> (\<exists>now. ev = Tick now)" using ev by blast
    with True x sys show ?thesis by (auto simp: ingester_step_def Close_def program_ok_def)
  next
    case False
    then have i: "ingester_inv (ing x)" using x by (simp add: program_ok_def)
    obtain cfg W where "in_log (\<lambda>y. J (world y)) H cfg W (ing x) (sys x)" using x False by (auto simp: program_ok_def)
    then have log: "in_log ?h H cfg W (ing x) ?z" by (simp add: in_log_def)
    have P: "under_ok n z \<Longrightarrow> Flush ?S c z = (err, z') \<Longrightarrow> under_ok n z'" for c z err z'
      by (rule flush_system)
    show ?thesis
    proof (cases "ev = Stop")
      case True
      obtain i' z' where c: "Close ?S (ing x) ?z = Some (None, i', z')" "quit i'" "subseq (?h z') H"
        using storage_contract.close_in_log [OF C i log] by blast
      obtain i'' z'' where z'': "Close ?S (ing x) ?z = Some (None, i'', snd (CloseStorage ?S z''))" "under_ok n z''"
        using close_keeps_storage [where P = "under_ok n" and S = ?S, OF i under] P by blast
      from close_system [OF z''(2), of D] z''(1) c(1) have "under_ok n z'" by simp
      then obtain y' where "z' = (None, y')" "system_ok n y'" by (cases z') (simp add: under_ok_def)
      with c True show ?thesis by (simp add: ingester_step_def program_ok_def)
    next
      case ns: False
      then have "Stop \<notin> set [ev]" by simp
      from storage_contract.run_in_log [OF C this i log] obtain i' z' where
        r: "step ?S ev (ing x, ?z) = Some (Inr (i', z'))" "ingester_inv i'" "in_log ?h (H @ logged [ev]) cfg (W @ logged [ev]) i' z'"
        by (auto split: option.splits sum.splits)
      have "under_ok n z'"
      proof (cases ev)
        case (Tick now)
        obtain i'' z'' where "doRoutineCheck ?S now (ing x) ?z = Some (Inr (i'', z''))" "under_ok n z''"
          using routine_keeps_storage [where P = "under_ok n" and S = ?S and now = now, OF i under] P by blast
        with r(1) Tick False show ?thesis by simp
      qed (use r(1) ns under in \<open>auto simp: map_sum_Inr_iff\<close>)
      then obtain y' where y': "z' = (None, y')" "system_ok n y'" by (cases z') (simp add: under_ok_def)
      have "in_log (\<lambda>y. J (world y)) (H @ logged [ev]) cfg (W @ logged [ev]) i' y'" using r(3) y'(1) by (simp add: in_log_def)
      moreover have "\<not> quit i'" using r(2) by (simp add: ingester_inv_def)
      ultimately show ?thesis using r y' ns False by (auto simp: ingester_step_def program_ok_def)
    qed
  qed
qed

lemma storage_step_ok:
  assumes D: "sql_history D J" and x: "program_ok J H (Suc n) x"
    and ev: "\<And>tid. ev \<noteq> AskCancel tid" "\<And>c. ev \<noteq> FlushChunk c"
  shows "\<exists>x'. storage_step D ev x = Some (Inr x') \<and> program_ok J H n x' \<and> ing x' = ing x"
proof -
  have sys: "system_ok (Suc n) (sys x)" using x by (simp add: program_ok_def)
  have "J (world (sched_step D ev (sys x))) = J (world (sys x))" using committed.step_world [OF ev(2)] D by blast
  with no_event_panic [OF sys ev] step_system [OF sys, of D ev] x show ?thesis
    by (auto simp: storage_step_def program_ok_def in_log_def)
qed

lemma program_step_ok:
  assumes D: "sql_history D J" and x: "program_ok J H (Suc n) x" and o: "orderly (quit (ing x)) (e # es)"
  shows "\<exists>x'. program_step D e x = Some (Inr x') \<and> program_ok J (H @ recorded [e]) n x' \<and> orderly (quit (ing x')) es"
proof -
  have same: "program_ok J H n x" using x system_less by (auto simp: program_ok_def)
  have reset: "program_ok J H n (set_ticker r tk x') = program_ok J H n x'" for r tk x' H by (simp add: program_ok_def)
  show ?thesis
  proof (cases e)
    case (Record t l b)
    with ingester_step_ok [OF D x, of "Log t l b"] o show ?thesis by auto
  next
    case StopProgram
    with ingester_step_ok [OF D x, of Stop] o show ?thesis by (auto simp: reset)
  next
    case (Quits r)
    with same o show ?thesis by (auto simp: program_ok_def set_ticker_def)
  next
    case (Call ev)
    with o have nc: "ev \<noteq> AskCancel tid" for tid by auto
    show ?thesis
    proof (cases "is_call ev")
      case True
      then have "ev \<noteq> FlushChunk c" for c by (auto simp: is_call_def)
      with storage_step_ok [OF D x nc] True Call o show ?thesis by auto
    qed (use same Call o in simp)
  next
    case (Turn r now fin)
    show ?thesis
    proof (cases "received r now fin x")
      case (Some tk)
      have "\<exists>x'. turn_body D r now x = Some (Inr x') \<and> program_ok J H n x' \<and> quit (ing x') = quit (ing x)"
      proof (cases r)
        case RoutineCheck
        with ingester_step_ok [OF D x, of "Tick now"] show ?thesis by auto
      qed (use storage_step_ok [OF D x, of "SizeCheck now"] storage_step_ok [OF D x, of "Routine (unixSec now)"]
          storage_step_ok [OF D x, of WalCheckpoint] in auto)
      with Some Turn o show ?thesis by (auto simp: reset)
    qed (use same Turn o in simp)
  qed
qed

lemma recorded_Cons: "recorded (e # es) = recorded [e] @ recorded es"
  by (cases e) simp_all

lemma program_run_ok:
  "sql_history D J \<Longrightarrow> program_ok J H (length es) x \<Longrightarrow> orderly (quit (ing x)) es \<Longrightarrow>
     \<exists>x'. program_run D es x = Some (Inr x') \<and> program_ok J (H @ recorded es) 0 x'"
proof (induction es arbitrary: x H)
  case (Cons e es)
  from program_step_ok [OF Cons.prems(1) _ Cons.prems(3), of H "length es"] Cons.prems(2) obtain x1 where
    x1: "program_step D e x = Some (Inr x1)" "program_ok J (H @ recorded [e]) (length es) x1" "orderly (quit (ing x1)) es"
    by auto
  from Cons.IH [OF Cons.prems(1) x1(2,3)] x1(1) show ?case by (simp add: recorded_Cons [of e es])
qed simp

lemma New_config: "New D cfg files now w = (Inr s, w') \<Longrightarrow> sconfig s = config_defaults cfg"
  by (auto simp: New_def Let_def split: prod.splits option.splits)

lemma program_starts_ok:
  assumes "valid_config c" "start_program D cfg c files now w = Inr x" "Suc n * length (dbs (stor (sys x))) < 2 ^ 31 - 2"
  shows "program_ok J (J (world (sys x))) n x" "\<not> quit (ing x)"
proof -
  obtain s w' where N: "New D cfg files (unixSec now) w = (Inr s, w')" and x: "ing x = NewIngester (Some c)"
    "sys x = \<lparr>stor = s, world = w', goroutines = []\<rparr>"
    using assms(2) by (auto simp: start_program_def Let_def split: prod.splits sum.splits)
  have "int (Suc n * length (dbs s)) < int (2 ^ 31 - 2)" using assms(3) x(2) by (simp only: of_nat_less_iff) simp
  then have "system_ok n (sys x)"
    using New_sound [OF N] New_config [OF N] defaults_limits(2) [of cfg] by (simp add: system_ok_def x)
  moreover have q: "\<not> quit (NewIngester (Some c))" using NewIngester_inv(1) [OF assms(1)] by (simp add: ingester_inv_def)
  ultimately show "program_ok J (J (world (sys x))) n x" "\<not> quit (ing x)"
    using NewIngester_inv [OF assms(1)] by (auto simp: program_ok_def x in_log_def)
qed

subsection \<open>Properties\<close>

text \<open>
  C1 (safety). The whole program, from its start: records, turns of all routines, steps of task goroutines, queries and results,
  and \<^verbatim>\<open>Close\<close>, in any order. Nothing panics or hangs, the storage keeps its invariant, and the rows committed are those
  there were followed by a subsequence of the records, whatever errors the driver returns, as long as the task ids do not
  wrap around. Excluded are cancellations, since \<open>cancel_panics\<close>, and records after \<^verbatim>\<open>Close\<close>, since \<open>closed_is_final\<close>.
\<close>

theorem program_is_safe:
  assumes "sql_history D J" "valid_config c" "start_program D cfg c files now w = Inr x" "orderly False es"
    and "Suc (length es) * length (dbs (stor (sys x))) < 2 ^ 31 - 2"
  shows "\<exists>x'. program_run D es x = Some (Inr x') \<and> sched_inv (sys x') \<and> (quit (ing x') \<or> ingester_inv (ing x')) \<and>
    subseq (J (world (sys x'))) (J (world (sys x)) @ recorded es)"
proof -
  have "orderly (quit (ing x)) es" using assms(4) program_starts_ok(2) [OF assms(2,3,5)] by simp
  from program_run_ok [OF assms(1) program_starts_ok(1) [OF assms(2,3,5)] this] obtain x' where
    r: "program_run D es x = Some (Inr x')" "program_ok J (J (world (sys x)) @ recorded es) 0 x'" by blast
  have "subseq (J (world (sys x'))) (J (world (sys x')) @ p)" for p by (rule list_emb_prefix) simp
  with r show ?thesis
    by (auto simp: program_ok_def system_ok_def in_log_def intro: subseq_order.trans split: if_splits)
qed

lemma memDriver_history: "sql_history memDriver fst"
  using memDriver_ok by (simp add: sql_history_def) (simp add: memDriver_def)

text \<open>A program that logs, is asked, checks its files and stops; its routines tick.\<close>

definition smallProgram :: "(Entry list \<times> Entry list) program" where
  "smallProgram = projr (start_program memDriver zeroConfig cfg1 [] (at_sec 100) ([], []))"

definition dayInLife :: "program_event list" where
  "dayInLife =
     [Record (at_sec 101) 0 ''a'', Call (AskTicks ticksIn 101), Turn RoutineSizeCheck (at_sec 106) 106000000001,
      Record (at_sec 107) 0 ''b'', Turn RoutineCheck (at_sec 108) 108000000003, Turn RoutineScheduledTasks (at_sec 108) 108000000009,
      StopProgram, Turn RoutineScheduledTasks (at_sec 109) 109000000009]"

lemma smallProgram_starts:
  "start_program memDriver zeroConfig cfg1 [] (at_sec 100) ([], []) = Inr smallProgram" "length (dbs (stor (sys smallProgram))) = 1"
proof -
  have "status d = db_closed \<Longrightarrow> connect memDriver os now d w = (None, d\<lparr>handle := True, lastQueryEpoch := now, status := db_open\<rparr>, w)"
    for os now d w by (simp add: connect_def memDriver_def)
  then show "start_program memDriver zeroConfig cfg1 [] (at_sec 100) ([], []) = Inr smallProgram" "length (dbs (stor (sys smallProgram))) = 1"
    by (simp_all add: smallProgram_def start_program_def New_def initDbs_def Let_def newDb_def map_filter_simps)
qed

theorem program_is_safe_witness:
  "\<exists>x'. program_run memDriver dayInLife smallProgram = Some (Inr x') \<and> sched_inv (sys x') \<and>
    (quit (ing x') \<or> ingester_inv (ing x')) \<and>
    subseq (fst (world (sys x'))) (fst (world (sys smallProgram)) @ [recentEntry 101 ''a'', recentEntry 107 ''b''])"
  using program_is_safe [OF memDriver_history _ smallProgram_starts(1), of dayInLife] smallProgram_starts(2)
  by (simp add: valid_config_def cfg1_def dayInLife_def recentEntry_def at_sec_def)

text \<open>
  C21 (bounds). A routine does not work more often than its interval allows: in every run, whatever happens in between, two of its turns
  are at least the interval apart.
\<close>

theorem routine_turns_apart:
  assumes "start_program D cfg c files now w = Inr x"
  shows "sorted_wrt (\<lambda>a b. a + interval (config_defaults cfg) (with_defaults c) r \<le> b) (turns D r es x)"
proof -
  obtain s w' where N: "New D cfg files (unixSec now) w = (Inr s, w')" and x:
    "tickers x = (\<lambda>r. if starts (sconfig s) r then NewTicker (nanos now) (interval (sconfig s) (config (NewIngester (Some c))) r) else None)"
    using assms by (auto simp: start_program_def Let_def split: prod.splits sum.splits)
  have c: "config (NewIngester (Some c)) = with_defaults c" by (simp add: NewIngester_def Let_def)
  show ?thesis
  proof (cases "tickers x r")
    case (Some tk)
    then have "period tk = interval (config_defaults cfg) (with_defaults c) r" "0 \<le> period tk"
      by (auto simp: x New_config [OF N] c NewTicker_def ticks_def split: if_splits)
    with turns_spaced [OF Some] show ?thesis by simp
  qed (simp add: turns_none)
qed

text \<open>The size check of \<open>smallProgram\<close>, whose interval is five seconds, is offered a turn three times.\<close>

definition threeOffers :: "program_event list" where
  "threeOffers = [Turn RoutineSizeCheck (at_sec 105) 105000000009, Turn RoutineSizeCheck (at_sec 108) 108000000001,
     Turn RoutineSizeCheck (at_sec 111) 111000000001]"

lemma threeOffers_turns: "turns memDriver RoutineSizeCheck threeOffers smallProgram = [105000000000, 111000000000]"
  by code_simp

theorem routine_turns_apart_witness:
  "sorted_wrt (\<lambda>a b. a + 5000000000 \<le> b) (turns memDriver RoutineSizeCheck threeOffers smallProgram) \<and>
    turns memDriver RoutineSizeCheck threeOffers smallProgram = [105000000000, 111000000000]"
  using routine_turns_apart [OF smallProgram_starts(1), of RoutineSizeCheck threeOffers] threeOffers_turns
  by (simp add: config_defaults_def zeroConfig_def sizeCheckInterval_def Duration_def i64_def Let_def del: turns.simps)

subsection \<open>After \<^verbatim>\<open>Close\<close>\<close>

text \<open>What a flush leaves alone in every database, and what the close of all of them makes of it.\<close>

definition same_status :: "storage \<Rightarrow> storage \<Rightarrow> bool" where
  "same_status s s' \<longleftrightarrow>
     dbs s' = dbs s \<and> length (heap s') = length (heap s) \<and>
     (\<forall>j. status (heap s' ! j) = status (heap s ! j) \<and> taskCount (heap s' ! j) = taskCount (heap s ! j))"

lemma storage_Flush_status:
  assumes "storage_Flush D c s w = Inr (err, s', w')"
  shows "same_status s s'"
proof -
  obtain k where k: "flush_target_db c s = Inr k" using assms by (auto simp: storage_Flush_def split: sum.splits)
  show ?thesis
  proof (cases "isOpen (heap s ! k)")
    case True
    with assms k obtain d where f: "db_flush D c (heap s ! k) w = Inr (err, d, w')" and s': "s' = update_db k d s"
      by (auto simp: storage_Flush_def map_sum_Inr_iff)
    have d: "status d = status (heap s ! k)" "taskCount d = taskCount (heap s ! k)"
      using db_flush_status [OF f] flush_moves [OF f] by (simp_all add: db_move_def)
    have "status (heap s' ! j) = status (heap s ! j) \<and> taskCount (heap s' ! j) = taskCount (heap s ! j)" for j
      using d by (cases "j = k \<and> k < length (heap s)") (auto simp: s' update_db_def list_update_beyond nth_list_update)
    then show ?thesis by (simp add: same_status_def s')
  qed (use assms k in \<open>simp add: storage_Flush_def same_status_def\<close>)
qed

lemma flush_status:
  assumes "same_status s (stor (snd z))" "Flush (programStorage D) c z = (err, z')"
  shows "same_status s (stor (snd z'))"
proof (cases "fst z = None \<and> (\<exists>err s w. storage_Flush D c (stor (snd z)) (world (snd z)) = Inr (err, s, w))")
  case True
  then obtain err' s' w where f: "storage_Flush D c (stor (snd z)) (world (snd z)) = Inr (err', s', w)" "fst z = None" by blast
  with assms(2) have "stor (snd z') = s'" by (cases z) (auto simp: programStorage_def with_storage_def)
  with storage_Flush_status [OF f(1)] assms(1) show ?thesis by (simp add: same_status_def)
next
  case False
  with assms(2) have "snd z' = snd z" by (cases z) (auto simp: programStorage_def split: if_splits sum.splits)
  with assms(1) show ?thesis by simp
qed

lemma close_all_closes:
  "close_all D ks s w = (s', w') \<Longrightarrow> \<forall>j \<in> set ks. j < length (heap s) \<and> status (heap s ! j) \<in> {db_open, db_closed} \<Longrightarrow>
     dbs s' = dbs s \<and> length (heap s') = length (heap s) \<and> (\<forall>j. taskCount (heap s' ! j) = taskCount (heap s ! j)) \<and>
     (\<forall>j. j \<in> set ks \<or> status (heap s ! j) = db_closed \<longrightarrow> status (heap s' ! j) = db_closed)"
proof (induction ks arbitrary: s w)
  case (Cons k ks)
  obtain b d w1 where c: "db_close D (heap s ! k) w = (b, d, w1)" by (metis prod_cases3)
  have d: "status d = db_closed" "taskCount d = taskCount (heap s ! k)"
    using c Cons.prems(2) by (auto simp: db_close_def Let_def split: if_splits)
  define s1 where "s1 = update_db k d s"
  have st: "status (heap s1 ! j) = (if j = k then db_closed else status (heap s ! j))"
    "taskCount (heap s1 ! j) = taskCount (heap s ! j)" "dbs s1 = dbs s" "length (heap s1) = length (heap s)" for j
    using Cons.prems(2) d by (simp_all add: nth_update_db s1_def)
  have "\<forall>j \<in> set ks. j < length (heap s1) \<and> status (heap s1 ! j) \<in> {db_open, db_closed}"
    using Cons.prems(2) st by simp
  moreover have "close_all D ks s1 w1 = (s', w')" using Cons.prems(1) c by (simp add: s1_def)
  ultimately show ?case using Cons.IH [of s1 w1] st by simp
qed simp

lemma step_quit: "program_step D e x = Some (Inr x') \<Longrightarrow> storageQuit x' = storageQuit x"
proof (cases e)
  case (Turn r now fin)
  assume "program_step D e x = Some (Inr x')"
  with Turn show ?thesis
    by (auto simp: set_ticker_def map_sum_Inr_iff dest: turn_body_tickers split: option.splits)
qed (auto simp: set_ticker_def map_sum_Inr_iff dest!: ingester_step_tickers storage_step_tickers split: if_splits)

lemma run_quit: "program_run D es x = Some (Inr x') \<Longrightarrow> storageQuit x' = storageQuit x"
proof (induction es arbitrary: x)
  case (Cons e es)
  then show ?case by (auto dest: step_quit split: option.splits sum.splits simp del: program_step.simps)
qed simp

lemma program_run_append:
  "program_run D (es @ es') x = (case program_run D es x of Some (Inr x) \<Rightarrow> program_run D es' x | r \<Rightarrow> r)"
  by (induction es arbitrary: x) (auto split: option.splits sum.splits simp del: program_step.simps)

lemma orderly_append: "orderly closed (es @ [StopProgram]) = orderly closed es"
  by (induction closed es rule: orderly.induct) simp_all

text \<open>
  C20 (error). \<^verbatim>\<open>Close\<close> does not stop the routines of the storage. After any run of the program, when \<^verbatim>\<open>Close\<close> returns, all databases
  are closed, but the tickers of the storage's routines go on and their channel \<^verbatim>\<open>quit\<close> is open, so none of them returns; and
  when a database still has waiting tasks, the next tick of the scheduler opens a file of the closed storage again.
\<close>

theorem scheduler_outlives_close:
  assumes "sql_history D J" "opens D" "valid_config c" "start_program D cfg c files t0 w = Inr x0" "orderly False es"
    and "Suc (Suc (length es)) * length (dbs (stor (sys x0))) < 2 ^ 31 - 2" "program_run D es x0 = Some (Inr x)" "\<not> quit (ing x)"
    and "\<forall>j \<in> set (dbs (stor (sys x))). status (heap (stor (sys x)) ! j) \<in> {db_open, db_closed}"
    and "k \<in> set (dbs (stor (sys x)))" "0 < taskCount (heap (stor (sys x)) ! k)"
    and "tickers x RoutineScheduledTasks = Some tk" "due tk \<le> nanos now" "nanos now \<le> fin"
  shows "\<exists>x1 x2. program_step D StopProgram x = Some (Inr x1) \<and> tickers x1 = (tickers x)(RoutineCheck := None) \<and>
    (\<forall>r. program_step D (Quits r) x1 = Some (Inr x1)) \<and>
    (\<forall>j \<in> set (dbs (stor (sys x1))). status (heap (stor (sys x1)) ! j) = db_closed) \<and>
    program_step D (Turn RoutineScheduledTasks now fin) x1 = Some (Inr x2) \<and>
    (\<exists>j \<in> set (dbs (stor (sys x1))). isOpen (heap (stor (sys x2)) ! j))"
proof -
  let ?s = "stor (sys x)"
  have o: "orderly (quit (ing x0)) (es @ [StopProgram])" "\<not> quit (ing x0)"
    using assms(5) program_starts_ok(2) [OF assms(3,4,6)] by (simp_all add: orderly_append)
  have ok: "program_ok J (J (world (sys x0)) @ recorded es) 0 x"
  proof -
    have "program_ok J (J (world (sys x0))) (Suc (length es)) x0" by (rule program_starts_ok(1) [OF assms(3,4,6)])
    then have "program_ok J (J (world (sys x0))) (length es) x0" using system_less by (auto simp: program_ok_def)
    from program_run_ok [OF assms(1) this] o assms(5,7) show ?thesis by auto
  qed
  have "program_ok J (J (world (sys x0))) (length (es @ [StopProgram])) x0"
    using program_starts_ok(1) [OF assms(3,4,6)] by simp
  from program_run_ok [OF assms(1) this o(1)] obtain x1 H where
    r: "program_run D (es @ [StopProgram]) x0 = Some (Inr x1)" "program_ok J H 0 x1" by blast
  have "program_run D [StopProgram] x = Some (Inr x1)" using r(1) assms(7) by (simp add: program_run_append)
  then have x1: "program_step D StopProgram x = Some (Inr x1)"
    by (simp del: program_step.simps split: option.splits sum.splits)
  have inv1: "storage_inv (stor (sys x1))" using r(2) by (intro system_storage [of 0]) (simp add: program_ok_def)
  have i: "ingester_inv (ing x)" and sys: "system_ok 0 (sys x)" using ok assms(8) by (simp_all add: program_ok_def)
  have idx: "j < length (heap ?s)" if "j \<in> set (dbs ?s)" for j
    using inv_index [of 0 "sys x" j] sys that by (simp add: system_ok_def sched_inv_def)
  have same: "same_status ?s (stor (snd (None :: panic option, sys x)))" by (simp add: same_status_def)
  have P: "same_status ?s (stor (snd z)) \<Longrightarrow> Flush (programStorage D) c z = (err, z') \<Longrightarrow> same_status ?s (stor (snd z'))"
    for c z err z' by (rule flush_status)
  obtain i' z where c: "Close (programStorage D) (ing x) (None, sys x) = Some (None, i', snd (CloseStorage (programStorage D) z))"
    and y': "same_status ?s (stor (snd z))"
    using close_keeps_storage [where P = "\<lambda>z. same_status ?s (stor (snd z))" and S = "programStorage D", OF i same] P by blast
  obtain p y where z: "z = (p, y)" by (cases z)
  with y' have y: "same_status ?s (stor y)" by simp
  obtain s1 w1 where cl: "close_all D (dbs (stor y)) (stor y) (world y) = (s1, w1)" by (meson surj_pair)
  have s1: "stor (sys x1) = s1"
    using x1 c cl
    by (auto simp: z ingester_step_def programStorage_def with_storage_def storage_Close_def split: option.splits if_splits)
  have "\<forall>j \<in> set (dbs (stor y)). j < length (heap (stor y)) \<and> status (heap (stor y) ! j) \<in> {db_open, db_closed}"
    using y idx assms(9) by (simp add: same_status_def)
  note all = close_all_closes [OF cl this]
  have closed: "\<forall>j \<in> set (dbs s1). status (heap s1 ! j) = db_closed \<and> j < length (heap s1)"
    using all y idx by (simp add: same_status_def)
  have k: "k \<in> set (dbs s1)" "0 < taskCount (heap s1 ! k)" using all y assms(10,11) by (simp_all add: same_status_def)
  have "storageQuit x0 = False" using assms(4) by (auto simp: start_program_def Let_def split: prod.splits sum.splits)
  then have "\<not> storageQuit x1" using run_quit [OF assms(7)] step_quit [OF x1] by simp
  then have quits: "program_step D (Quits r) x1 = Some (Inr x1)" for r by simp
  have t: "tickers x1 = (tickers x)(RoutineCheck := None)"
    using x1 by (auto simp: set_ticker_def map_sum_Inr_iff dest!: ingester_step_tickers)
  then have rc: "received RoutineScheduledTasks now fin x1 = Some tk" using assms(12-14) by (simp add: received_def)
  let ?x2 = "set_ticker RoutineScheduledTasks (Some (Reset fin tk)) (x1\<lparr>sys := sched_step D (Routine (unixSec now)) (sys x1)\<rparr>)"
  have "program_step D (Turn RoutineScheduledTasks now fin) x1 = Some (Inr ?x2)"
    using rc no_dangling [OF inv1] by (simp add: storage_step_def event_panic_def)
  moreover have "\<exists>j \<in> set (dbs s1). isOpen (heap (stor (sys ?x2)) ! j)"
    using routine_opens_any [OF assms(2), of "sys x1" k "unixSec now"] closed k by (simp add: s1)
  ultimately show ?thesis using x1 t quits closed by (intro exI [of _ x1] exI [of _ ?x2]) (simp add: s1)
qed

text \<open>A program with two files on disk; a query leaves its task with the older one, which is closed, and the program stops.\<close>

definition twoLogs :: "(string \<times> bool \<times> int) list" where
  "twoLogs = [(''sqlog_5.db'', False, 0), (''sqlog_90.db'', False, 0)]"

definition askedProgram :: "(Entry list \<times> Entry list) program" where
  "askedProgram = projr (start_program memDriver zeroConfig cfg1 twoLogs (at_sec 100) ([], []))"

lemma asked_facts:
  "start_program memDriver zeroConfig cfg1 twoLogs (at_sec 100) ([], []) = Inr askedProgram"
  "length (dbs (stor (sys askedProgram))) = 2"
  "\<exists>x. program_run memDriver [Call (AskTicks ticksIn 101)] askedProgram = Some (Inr x) \<and> \<not> quit (ing x) \<and>
     dbs (stor (sys x)) = [0, 1] \<and> status (heap (stor (sys x)) ! 0) = db_closed \<and> status (heap (stor (sys x)) ! 1) = db_open \<and>
     0 < taskCount (heap (stor (sys x)) ! 0) \<and> tickers x RoutineScheduledTasks = Some \<lparr>period = 100, due = 100000000100\<rparr>"
proof -
  have "\<not> isl (start_program memDriver zeroConfig cfg1 twoLogs (at_sec 100) ([], []))" by code_simp
  then show "start_program memDriver zeroConfig cfg1 twoLogs (at_sec 100) ([], []) = Inr askedProgram"
    by (simp add: askedProgram_def)
  show "length (dbs (stor (sys askedProgram))) = 2" by code_simp
  have "case program_run memDriver [Call (AskTicks ticksIn 101)] askedProgram of Some (Inr x) \<Rightarrow> \<not> quit (ing x) \<and>
     dbs (stor (sys x)) = [0, 1] \<and> status (heap (stor (sys x)) ! 0) = db_closed \<and> status (heap (stor (sys x)) ! 1) = db_open \<and>
     0 < taskCount (heap (stor (sys x)) ! 0) \<and> tickers x RoutineScheduledTasks = Some \<lparr>period = 100, due = 100000000100\<rparr>
   | _ \<Rightarrow> False" by code_simp
  then show "\<exists>x. program_run memDriver [Call (AskTicks ticksIn 101)] askedProgram = Some (Inr x) \<and> \<not> quit (ing x) \<and>
     dbs (stor (sys x)) = [0, 1] \<and> status (heap (stor (sys x)) ! 0) = db_closed \<and> status (heap (stor (sys x)) ! 1) = db_open \<and>
     0 < taskCount (heap (stor (sys x)) ! 0) \<and> tickers x RoutineScheduledTasks = Some \<lparr>period = 100, due = 100000000100\<rparr>"
    by (auto split: option.splits sum.splits)
qed

theorem scheduler_outlives_close_witness:
  "\<exists>x x1 x2 j. program_run memDriver [Call (AskTicks ticksIn 101)] askedProgram = Some (Inr x) \<and>
     program_step memDriver StopProgram x = Some (Inr x1) \<and> (\<forall>r. program_step memDriver (Quits r) x1 = Some (Inr x1)) \<and>
     status (heap (stor (sys x1)) ! j) = db_closed \<and>
     program_step memDriver (Turn RoutineScheduledTasks (at_sec 102) 102000000001) x1 = Some (Inr x2) \<and>
     isOpen (heap (stor (sys x2)) ! j)"
proof -
  obtain x where x: "program_run memDriver [Call (AskTicks ticksIn 101)] askedProgram = Some (Inr x)" "\<not> quit (ing x)"
    "dbs (stor (sys x)) = [0, 1]" "status (heap (stor (sys x)) ! 0) = db_closed" "status (heap (stor (sys x)) ! 1) = db_open"
    "0 < taskCount (heap (stor (sys x)) ! 0)" "tickers x RoutineScheduledTasks = Some \<lparr>period = 100, due = 100000000100\<rparr>"
    using asked_facts(3) by blast
  have "opens memDriver" by (simp add: opens_def connect_def memDriver_def)
  moreover have "valid_config cfg1" by (simp add: valid_config_def cfg1_def)
  moreover have "orderly False [Call (AskTicks ticksIn 101)]" by simp
  moreover have "Suc (Suc (length [Call (AskTicks ticksIn 101)])) * length (dbs (stor (sys askedProgram))) < 2 ^ 31 - 2"
    using asked_facts(2) by simp
  moreover have "\<forall>j \<in> set (dbs (stor (sys x))). status (heap (stor (sys x)) ! j) \<in> {db_open, db_closed}" using x(3-5) by simp
  moreover have "0 \<in> set (dbs (stor (sys x)))" using x(3) by simp
  moreover have "due \<lparr>period = 100, due = 100000000100\<rparr> \<le> nanos (at_sec 102)" "nanos (at_sec 102) \<le> 102000000001"
    by (simp_all add: nanos_def at_sec_def)
  ultimately show ?thesis
    using scheduler_outlives_close [OF memDriver_history _ _ asked_facts(1) _ _ x(1,2) _ _ x(6,7)] x(1) by blast
qed

end
