(* ===== verification/Demo.thy ===== *)
theory Demo imports Http LogConfig ProgramProperties begin

text \<open>
  \<^verbatim>\<open>demo/main.go\<close>: a program around one log with the SQLite storage, which serves the HTTP handler of the log below
  \<^verbatim>\<open>/logs\<close>, logs what a request to \<^verbatim>\<open>/debug\<close> asks for, and leaves every other path to a file server, which is outside.
  Its requests come in between all other steps of the program, and so do the warnings and errors that the library itself
  logs: \<^verbatim>\<open>SetDefault\<close> has made the handler of the log the one that \<^verbatim>\<open>slog.Warn\<close> and \<^verbatim>\<open>slog.Error\<close> write to.
\<close>

subsection \<open>Start\<close>





subsection \<open>Requests to \<^verbatim>\<open>/debug\<close>\<close>

text \<open>
  The values of a key, in the order of the query. \<^verbatim>\<open>range\<close> visits the keys of the map in an order of its own, so that order
  is an argument.
\<close>

definition query_values :: "(string \<times> string) list \<Rightarrow> string \<Rightarrow> string list" where
  "query_values q k = map snd (filter (\<lambda>p. fst p = k) q)"

type_synonym log_line = "int \<times> string \<times> (string \<times> string) list"

definition debug_level :: "string \<Rightarrow> int \<Rightarrow> int" where
  "debug_level v l =
     (if v = ''INFO'' then 0 else if v = ''WARN'' then 4 else if v = ''ERROR'' then 8 else l)"

definition debug_key :: "(string \<times> string) list \<Rightarrow> log_line \<Rightarrow> string \<Rightarrow> log_line" where
  "debug_key q line k =
     (case line of (l, msg, attrs) \<Rightarrow>
        let v = join_with '','' (query_values q k)
        in if k = ''msg'' then (l, v, attrs)
           else if k = ''level'' then (debug_level v l, msg, attrs)
           else (l, msg, attrs @ [(k, v)]))"

definition debug_line :: "string list \<Rightarrow> (string \<times> string) list \<Rightarrow> log_line" where
  "debug_line keys q = foldl (debug_key q) (0, ''debug log form screen'', []) keys"

definition visits :: "string list \<Rightarrow> (string \<times> string) list \<Rightarrow> bool" where
  "visits keys q = (distinct keys \<and> set keys = fst ` set q)"


subsection \<open>The server\<close>






subsection \<open>What a debug request logs\<close>

lemma debug_keys:
  "distinct keys \<Longrightarrow> foldl (debug_key q) (l, msg, attrs) keys =
     (if ''level'' \<in> set keys then debug_level (join_with '','' (query_values q ''level'')) l else l,
      if ''msg'' \<in> set keys then join_with '','' (query_values q ''msg'') else msg,
      attrs @ map (\<lambda>k. (k, join_with '','' (query_values q k))) (filter (\<lambda>k. k \<noteq> ''msg'' \<and> k \<noteq> ''level'') keys))"
  by (induction keys arbitrary: l msg attrs) (auto simp: debug_key_def Let_def)

text \<open>The order of the keys decides about the order of the attributes and nothing else.\<close>

lemma debug_line_any_order:
  assumes "visits keys q" "visits keys' q" "debug_line keys q = (l, msg, attrs)" "debug_line keys' q = (l', msg', attrs')"
  shows "l' = l \<and> msg' = msg \<and> mset attrs' = mset attrs"
proof -
  have k: "distinct keys" "distinct keys'" "set keys' = set keys" using assms(1,2) by (simp_all add: visits_def)
  then have m: "mset keys' = mset keys" by (simp add: set_eq_iff_mset_eq_distinct)
  let ?f = "\<lambda>k. (k, join_with '','' (query_values q k))" and ?P = "\<lambda>k. k \<noteq> ''msg'' \<and> k \<noteq> ''level''"
  have "mset (map ?f (filter ?P keys')) = mset (map ?f (filter ?P keys))" by (simp only: mset_map mset_filter m)
  moreover have "l' = l" "msg' = msg" using assms(3,4) unfolding debug_line_def debug_keys [OF k(1)] debug_keys [OF k(2)] k(3) by simp_all
  moreover have "attrs = map ?f (filter ?P keys)" "attrs' = map ?f (filter ?P keys')"
    using assms(3,4) unfolding debug_line_def debug_keys [OF k(1)] debug_keys [OF k(2)] by simp_all
  ultimately show ?thesis by (simp only:)
qed


subsection \<open>Requests are steps\<close>

lemma with_storage_same [simp]: "with_storage y (stor y, world y) = y"
  by (simp add: with_storage_def)





subsection \<open>Any run\<close>






subsection \<open>Properties\<close>








end
