(* ===== verification/Spec2Isabelle.thy ===== *)
theory Spec2Isabelle
  imports ExprProperties ChunkProperties IngestConc SystemLiveness TaskPlaces Routines LogConfig HttpProperties StoredLog ProgramProperties Demo
begin

text \<open>
  A verification development for sqlog, a structured log store for Go programs: records written through
  \<^verbatim>\<open>log/slog\<close> are buffered in chunks, flushed into SQLite files, and searched with small expressions through a
  Go and an HTTP interface.

  \<^bold>\<open>How the parts interact.\<close> A \<^verbatim>\<open>handler\<close> encodes a record and calls \<^verbatim>\<open>Ingest\<close>, which puts it into the chunk that is
  being written. The routine of the ingester flushes chunks that are full, old or too many into the storage and
  retries or discards the ones that fail; \<^verbatim>\<open>Close\<close> drains the rest. The SQLite storage writes a chunk into the live
  database that covers it. Queries ask the open databases at once and leave tasks for closed ones, which the
  scheduler runs when it has opened them. Two maintenance routines start a new live database, remove old ones and
  checkpoint. The HTTP handler reads parameters and calls the same interface.

  \<^bold>\<open>Theories, in the order of their imports.\<close>

  \<^item> \<open>Prelude\<close>: Go's integer widths (\<open>i8\<close>, \<open>i32\<close>, \<open>i64\<close>, \<open>u8\<close>, written out where the code adds, multiplies or converts),
    panics as values, generic lemmas, and the locale \<open>step_invariant\<close> of invariants of step relations. \<open>GoStrings\<close>,
    \<open>GoText\<close>, \<open>Float64\<close>: the functions of Go's standard library that the code calls, on strings of bytes.
  \<^item> \<open>ExprState\<close>, \<open>ExprParser\<close>: \<^verbatim>\<open>expr_parse_state.go\<close> and \<^verbatim>\<open>expr.go\<close>. A builder is a record of its methods over its
    own state; \<open>parse\<close> is the byte loop, \<open>build_expr\<close> the builder function with its cache. \<open>ExprGrammar\<close> shows that
    no input makes the parser panic and that its calls form operands joined by operators in closed groups;
    \<open>ExprTrace\<close> that a parse is the list of its calls; \<open>QuerySyntax\<close> gives those calls their abstract syntax and the
    two readings of it (left to right, and AND before OR).
  \<^item> \<open>SqliteExpr\<close>: \<^verbatim>\<open>sqlite/expr.go\<close>. \<open>MemoryExpr\<close>, \<open>Wildcard\<close>: \<^verbatim>\<open>memory/memory_expr.go\<close> and \<^verbatim>\<open>memory/wildcard.go\<close>.
    \<open>ExprProperties\<close> holds what users of expressions can rely on.
  \<^item> \<open>Chunk\<close>: \<^verbatim>\<open>chunk.go\<close>, a chain as a list of chunks and each method as one call. \<open>ChunkConc\<close>: \<^verbatim>\<open>Put\<close> in its atomic
    steps under any interleaving with other goroutines and the lock. \<open>ChunkProperties\<close>: the sequential properties.
    \<open>IngestConc\<close>: \<^verbatim>\<open>Ingest\<close> in its atomic steps over the whole chain, any number of callers at once; what one chunk sees
    of such a run is a run of \<open>ChunkConc\<close>, from which it follows that no entry is lost or written twice, and that every call
    ends although \<^verbatim>\<open>Put\<close> calls itself on the next chunk (\<open>ingest_ends\<close>). What the flusher reads of a chunk that is ready stays
    as it is (\<open>ready_chunk_final\<close>), unless a goroutine was between the check of the lock and its booking.
  \<^item> \<open>Ingester\<close>, \<open>IngesterLog\<close>: \<^verbatim>\<open>ingester.go\<close> and the contract of \<^verbatim>\<open>storage.go\<close>. The loops of the routine and of the
    drain are recursive functions over indices of the chain. The locales \<open>storage_contract\<close> and \<open>kept_storage\<close> say
    what a storage promises about the entries it holds; the lemmas inside them say what the ingester makes of it.
    They are interpreted on every storage with a journal of its flushes; \<open>SqliteStorage\<close> shows the contract of the SQLite
    storage for every driver with the law \<open>sql_driver\<close>, and \<open>StorageProperties\<close> uses it; \<open>StoredLog\<close> interprets the other one.
  \<^item> \<open>StorageDb\<close>, \<open>SqliteStorage\<close>: \<^verbatim>\<open>sqlite/storage_db.go\<close> and \<^verbatim>\<open>sqlite/storage.go\<close>. Databases live in the list \<open>heap\<close>;
    \<^verbatim>\<open>dbs\<close> and \<^verbatim>\<open>liveDbs\<close> hold their indices, since the code shares the objects. \<open>given_config\<close> reads the
    configuration that is passed, with its parts that may be \<^verbatim>\<open>nil\<close>; the prefix of the files is taken as ASCII. As a storage of
    the ingester (\<open>sqliteStorage\<close>) it keeps a panic of \<^verbatim>\<open>Flush\<close> and does nothing after it; a database that is open without a
    handle, which the code would dereference, counts as a panic in every step (\<open>dangling\<close>). \<open>StorageProperties\<close>: from \<^verbatim>\<open>Ingest\<close> to the
    committed rows, opening, names of files.
  \<^item> \<open>SqliteQuery\<close>: \<^verbatim>\<open>sqlite/api_entries.go\<close> and \<^verbatim>\<open>sqlite/api_ticks.go\<close>. \<open>QueryProperties\<close>: the SQL text against its
    arguments, the condition on levels, pages and counts. \<open>StoredLog\<close>: a driver whose tables keep the rows that were
    inserted (\<open>table_driver\<close>), and with it the whole way of a record, from \<^verbatim>\<open>Ingest\<close> over the file that is closed and loaded
    again to the pages of entries (\<open>restart_finds_log\<close>).
  \<^item> \<open>SqliteScheduler\<close>, \<open>SqliteMaintenance\<close>: \<^verbatim>\<open>sqlite/storage_scheduler.go\<close>, \<^verbatim>\<open>sqlite/storage_size_check.go\<close> and
    \<^verbatim>\<open>sqlite/storage_wal_checkpoint.go\<close>. \<open>SqliteSystem\<close> puts all calls and routines of the storage into one step function;
    \<open>SystemInvariant\<close> proves its invariant step by step. The locales \<open>storage_moves\<close> and \<open>storage_steps\<close> of
    \<open>SystemMoves\<close> say what a relation between storages must respect for all steps to respect it.
    \<open>SystemProperties\<close> interprets them and holds what follows from the invariant; \<open>SystemLiveness\<close> runs
    the routine that opens a closed database until the answer of a scheduled query is there. \<open>WorldMoves\<close>: the locale
    \<open>driver_moves\<close>, what holds of the world of the driver over all steps when its calls keep to it.
  \<^item> \<open>TaskSteps\<close>: \<^verbatim>\<open>exec\<close> in its atomic steps, with all other steps of the storage in between; \<open>exec_is_its_steps\<close> ties it to
    the one step of \<open>SqliteScheduler\<close>. \<open>TaskProperties\<close>: who works on a task. \<open>TaskPlaces\<close>: where a task waits that has not
    been run, and what becomes of it when its database is removed.
  \<^item> \<open>Routines\<close>: the routines \<^verbatim>\<open>New\<close> and \<^verbatim>\<open>NewIngester\<close> start, the intervals they give to their tickers, and what the defaults
    make of any configuration.
  \<^item> \<open>Handler\<close>, \<open>Sqlog\<close>, \<open>Http\<close>: \<^verbatim>\<open>handler.go\<close>; \<^verbatim>\<open>sqlog.go\<close>, \<^verbatim>\<open>sqlog_api.go\<close> and the stub \<^verbatim>\<open>memory/memory.go\<close>; \<^verbatim>\<open>http.go\<close>.
    \<open>SqlogProperties\<close> follows records from any handler to the storage, \<open>LogConfig\<close> does so for a log made from any
    configuration. The locale \<open>api_moves\<close> says along what relation the calls of an API move a storage; \<open>HttpProperties\<close> interprets it on the SQLite storage.
  \<^item> \<open>Program\<close>: the ingester over the SQLite storage, its four routines with their tickers and channels, the task goroutines
    and all calls, as one step function. \<open>ProgramProperties\<close>: whatever the order of the steps, the invariants of the parts hold
    together and what is committed follows the log; a routine keeps to its interval; and what goes on after \<^verbatim>\<open>Close\<close>.
    \<open>Demo\<close>: \<^verbatim>\<open>demo/main.go\<close>, its log and its requests, as a client of the whole program. Its log is the default
    logger, so the warnings and errors of the library come into it as well: the model lets any such line be logged between
    any two steps (\<open>OwnLine\<close>), which has the lines that the library really writes among its runs, but for the place of a
    line within the step that writes it.

  \<^bold>\<open>What is outside, as a parameter.\<close> The SQL driver and the file system (\<open>Driver\<close>), JSON coding, the encoders and the
  fanout handlers of \<^verbatim>\<open>log/slog\<close>, the choices of \<^verbatim>\<open>sync.Pool\<close>, the order in which \<^verbatim>\<open>Range\<close> of a \<^verbatim>\<open>sync.Map\<close> visits the waiting
  tasks (\<open>RangeOrder\<close>), the current time.

  \<^bold>\<open>Bounds.\<close> Loops over bytes, chunks and databases are recursive functions with termination proofs, so no fuel is
  used; only the drain of \<^verbatim>\<open>Close\<close> is partial, and \<open>close_ends\<close> shows that it ends for every storage when the retry limit
  is below the largest \<^verbatim>\<open>int32\<close>. The invariant of the scheduler asks that fewer than \<open>2 ^ 31\<close> task ids are given out, as
  ids wrap around after that. A routine runs one tick in one step; a goroutine runs \<^verbatim>\<open>exec\<close> in one step in \<open>SqliteSystem\<close> and
  in atomic ones in \<open>TaskSteps\<close>, at most seven up to its end or its retry.

  \<^bold>\<open>Time.\<close> A ticker gives a tick when its period has passed since it was made or reset; the two intervals in milliseconds are
  used as nanoseconds, as the code does. Calls and turns happen in any order that the tickers allow.

  \<^bold>\<open>Not modelled.\<close> Sleeps and log messages; mutexes and the interleaving inside calls other than \<^verbatim>\<open>Put\<close>, \<^verbatim>\<open>Ingest\<close> and \<^verbatim>\<open>exec\<close>;
  resetting the default logger on \<^verbatim>\<open>Stop\<close>; the embedded web files and the browser client \<^verbatim>\<open>web/main.js\<close>; the file server and
  the listener of \<^verbatim>\<open>demo/main.go\<close>.
\<close>

end
